(* ===== verification/Kernel_Prelude.thy ===== *)
theory Kernel_Prelude
  imports Main "HOL-Library.Word" "HOL-Library.Multiset"
begin

text \<open>
  Shared vocabulary of the development: error numbers and results of kernel functions, the
  machine integers the sources use, and generic facts on words, lists and intervals that the
  component theories share.

  A kernel function that returns \<open>-E...\<close> on failure and a value otherwise is modelled with
  the sum type \<open>errno + 'a\<close>: \<open>Inl e\<close> is the return value \<open>-e\<close>, \<open>Inr v\<close> the success value.
\<close>

unbundle bit_operations_syntax

section \<open>Collections\<close>

named_theorems set_view \<open>facts that turn bit vectors into sets of bit numbers\<close>
named_theorems cred_frame \<open>what an operation leaves alone in the credentials\<close>
named_theorems acl_eval \<open>evaluation of ACL scans\<close>

section \<open>Machine integers and error numbers\<close>

type_synonym u8 = "8 word"
type_synonym u16 = "16 word"
type_synonym u32 = "32 word"
type_synonym uid_t = u32
type_synonym gid_t = u32

datatype errno =
    EPERM | ENOENT | ESRCH | EIO | EAGAIN | ENOMEM | EACCES | EFAULT | EBUSY | EINVAL
  | EROFS | EDEADLK | ENOLCK | ENOSYS | ENODATA | EOVERFLOW | ERANGE | EOPNOTSUPP | ETXTBSY
  | EFBIG | EDQUOT | ENOSPC | EEXIST | EIDRM | EBADF | ERESTARTSYS | E2BIG | EINTR | ENOTTY

type_synonym 'a ret = "errno + 'a"

definition is_err :: "'a ret \<Rightarrow> bool" where
  "is_err r \<longleftrightarrow> (case r of Inl _ \<Rightarrow> True | Inr _ \<Rightarrow> False)"

lemma is_err_simps [simp]: "is_err (Inl e)" "\<not> is_err (Inr v)"
  by (simp_all add: is_err_def)

section \<open>File modes\<close>

text \<open>The mode bits of include/linux/stat.h; \<open>mode_t\<close> and \<open>umode_t\<close> have 16 bits on ARM.\<close>

definition S_IRWXU :: u16 where "S_IRWXU = 0x1C0"
definition S_IRWXG :: u16 where "S_IRWXG = 0x38"
definition S_IRWXO :: u16 where "S_IRWXO = 0x7"
definition S_IRWXUGO :: u16 where "S_IRWXUGO = S_IRWXU OR S_IRWXG OR S_IRWXO"
definition S_IFMT :: u16 where "S_IFMT = 0xF000"
definition S_IFLNK :: u16 where "S_IFLNK = 0xA000"
definition S_IFREG :: u16 where "S_IFREG = 0x8000"
definition S_IFDIR :: u16 where "S_IFDIR = 0x4000"
definition S_ISUID :: u16 where "S_ISUID = 0x800"
definition S_ISGID :: u16 where "S_ISGID = 0x400"
definition S_ISVTX :: u16 where "S_ISVTX = 0x200"
definition S_IXUSR :: u16 where "S_IXUSR = 0x40"
definition S_IXGRP :: u16 where "S_IXGRP = 0x8"
definition S_IXOTH :: u16 where "S_IXOTH = 0x1"
definition S_IALLUGO :: u16 where "S_IALLUGO = S_ISUID OR S_ISGID OR S_ISVTX OR S_IRWXUGO"
definition S_IXUGO :: u16 where "S_IXUGO = S_IXUSR OR S_IXGRP OR S_IXOTH"

definition S_ISLNK :: "u16 \<Rightarrow> bool" where "S_ISLNK m \<longleftrightarrow> m AND S_IFMT = S_IFLNK"
definition S_ISREG :: "u16 \<Rightarrow> bool" where "S_ISREG m \<longleftrightarrow> m AND S_IFMT = S_IFREG"
definition S_ISDIR :: "u16 \<Rightarrow> bool" where "S_ISDIR m \<longleftrightarrow> m AND S_IFMT = S_IFDIR"

lemmas S_bits = S_IRWXU_def S_IRWXG_def S_IRWXO_def S_IRWXUGO_def
lemmas S_mode_defs = S_IFMT_def S_IFLNK_def S_IFREG_def S_IFDIR_def S_ISUID_def S_ISGID_def S_ISVTX_def
  S_IXUSR_def S_IXGRP_def S_IXOTH_def S_IALLUGO_def S_IXUGO_def

text \<open>Signed C integers of a given width, with the wrap-around of \<open>-fno-strict-overflow\<close>.\<close>

definition wrap_s :: "nat \<Rightarrow> int \<Rightarrow> int" where
  "wrap_s w x = (x + 2 ^ (w - 1)) mod 2 ^ w - 2 ^ (w - 1)"

lemma wrap_s_bounds:
  assumes "0 < w"
  shows "- (2 ^ (w - 1)) \<le> wrap_s w x" "wrap_s w x < 2 ^ (w - 1)"
proof -
  have "(2::int) ^ w = 2 * 2 ^ (w - 1)"
    using assms by (cases w) simp_all
  moreover have "(x + 2 ^ (w - 1)) mod 2 ^ w < (2::int) ^ w"
    by simp
  ultimately show "wrap_s w x < 2 ^ (w - 1)"
    by (simp add: wrap_s_def)
  show "- (2 ^ (w - 1)) \<le> wrap_s w x"
    by (simp add: wrap_s_def)
qed

lemma wrap_s_id:
  assumes "0 < w" "- (2 ^ (w - 1)) \<le> x" "x < 2 ^ (w - 1)"
  shows "wrap_s w x = x"
proof -
  have "(2::int) ^ w = 2 * 2 ^ (w - 1)"
    using assms(1) by (cases w) simp_all
  then have "(x + 2 ^ (w - 1)) mod 2 ^ w = x + 2 ^ (w - 1)"
    using assms(2,3) by (intro mod_pos_pos_trivial) auto
  then show ?thesis
    by (simp add: wrap_s_def)
qed

section \<open>Bit masks\<close>

text \<open>The C test \<open>(a & ~b) == 0\<close> says that every bit of \<open>a\<close> is set in \<open>b\<close>.\<close>

lemma and_not_eq_0_iff:
  fixes a b :: "'a::len word"
  shows "a AND NOT b = 0 \<longleftrightarrow> (\<forall>n < LENGTH('a). bit a n \<longrightarrow> bit b n)"
  by (auto simp: bit_eq_iff bit_simps)

text \<open>The C test \<open>(a & w) == w\<close> says the same of \<open>w\<close> and \<open>a\<close>.\<close>

lemma and_eq_right_iff:
  fixes a w :: "'a::len word"
  shows "a AND w = w \<longleftrightarrow> (\<forall>n < LENGTH('a). bit w n \<longrightarrow> bit a n)"
  by (auto simp: bit_eq_iff bit_simps)

lemma word_eq_0_bits:
  fixes a :: "'a::len word"
  shows "a = 0 \<longleftrightarrow> (\<forall>n < LENGTH('a). \<not> bit a n)"
  by (auto simp: bit_eq_iff)

section \<open>Addresses of 32 bits\<close>

lemma unat_lt_2_32: "unat (w :: u32) < 2 ^ 32"
  using unsigned_less [of w] by simp

lemma unat_Suc_32: "unat (w :: u32) + 2 ^ k < 2 ^ 32 \<Longrightarrow> unat (w + 1) = unat w + 1"
proof -
  assume a: "unat w + 2 ^ k < 2 ^ 32"
  have "(1::nat) \<le> 2 ^ k" by simp
  then have "unat w + 1 < 2 ^ 32" using a by linarith
  then show "unat (w + 1) = unat w + 1" by (subst unat_add_lem [THEN iffD1]) simp_all
qed

lemma le_pred_iff: "s < (w :: u32) \<Longrightarrow> x \<le> w - 1 \<longleftrightarrow> x < w"
proof -
  assume "s < w"
  then have "0 < unat w" by (simp add: word_less_nat_alt)
  then have "unat (w - 1) = unat w - 1" by (simp add: unat_sub word_le_nat_alt)
  then show ?thesis using \<open>0 < unat w\<close> by (auto simp: word_le_nat_alt word_less_nat_alt)
qed

lemma succ_le_iff: "(w :: u32) < e \<Longrightarrow> w + 1 \<le> x \<longleftrightarrow> w < x"
proof -
  assume "w < e"
  then have "unat w + 1 < 2 ^ 32" using unat_lt_2_32 [of e] by (simp add: word_less_nat_alt)
  then have "unat (w + 1) = unat w + 1" by (subst unat_add_lem [THEN iffD1]) simp_all
  then show ?thesis by (auto simp: word_le_nat_alt word_less_nat_alt)
qed

text \<open>Rounding up to a power of two, include/linux/kernel.h.\<close>

definition ALIGN :: "u32 \<Rightarrow> u32 \<Rightarrow> u32" where
  "ALIGN x a = (x + (a - 1)) AND NOT (a - 1)"

lemma and_not_mask_nat:
  fixes x :: u32
  shows "unat (x AND NOT (mask k)) = unat x div 2 ^ k * 2 ^ k"
proof -
  have "x AND NOT (mask k) = push_bit k (drop_bit k x)"
    by (rule bit_eqI) (auto simp: bit_simps)
  also have "unat \<dots> = push_bit k (drop_bit k (unat x))"
    by (rule bit_eqI) (auto simp: bit_simps dest: bit_imp_le_length)
  also have "\<dots> = unat x div 2 ^ k * 2 ^ k"
    by (simp add: push_bit_eq_mult drop_bit_eq_div)
  finally show ?thesis .
qed

lemma ALIGN_nat:
  assumes "k < 32" "unat x + 2 ^ k \<le> 2 ^ 32"
  shows "unat (ALIGN x (2 ^ k)) = (unat x + 2 ^ k - 1) div 2 ^ k * 2 ^ k"
proof -
  have m: "(2 ^ k - 1 :: u32) = mask k" by (simp add: mask_eq_exp_minus_1)
  have "unat (mask k :: u32) = mask k"
    by (rule bit_eqI) (use assms(1) in \<open>auto simp: bit_simps\<close>)
  then have "unat (mask k :: u32) = 2 ^ k - 1" by (simp add: mask_nat_def)
  then have "unat (x + mask k) = unat x + 2 ^ k - 1"
    using assms(2) by (subst unat_add_lem [THEN iffD1]) (auto simp: less_Suc_eq_le)
  then show ?thesis by (simp add: ALIGN_def m and_not_mask_nat)
qed

lemma round_up_least:
  fixes x m :: nat
  assumes "0 < m"
  shows "x \<le> (x + m - 1) div m * m" "m dvd (x + m - 1) div m * m" "m dvd a \<Longrightarrow> x \<le> a \<Longrightarrow> (x + m - 1) div m * m \<le> a"
proof -
  show "x \<le> (x + m - 1) div m * m"
    using div_mult_mod_eq [of "x + m - 1" m] mod_less_divisor [OF assms, of "x + m - 1"] by linarith
  show "m dvd (x + m - 1) div m * m" by simp
  assume "m dvd a" "x \<le> a"
  then obtain j where "a = m * j" "x \<le> m * j" by auto
  then have "x + m - 1 < m * (j + 1)" using assms by (simp add: algebra_simps)
  then have "(x + m - 1) div m < j + 1" using assms by (simp add: less_mult_imp_div_less mult.commute)
  then show "(x + m - 1) div m * m \<le> a" using \<open>a = m * j\<close> by simp
qed

section \<open>Lists\<close>

lemma sorted_wrt_nth_mono:
  assumes "sorted_wrt P xs" "i < j" "j < length xs"
  shows "P (xs ! i) (xs ! j)"
  using assms by (simp add: sorted_wrt_iff_nth_less)

lemma mset_swap_step:
  assumes "i < length xs" "j < length xs"
  shows "mset (xs[i := xs ! j, j := xs ! i]) = mset xs"
  using assms by (simp add: mset_swap)

end
