(* ===== verification/Capability_Sets.thy ===== *)
theory Capability_Sets
  imports Kernel_Prelude
begin

text \<open>
  Capability sets of include/linux/capability.h: the two-word bit vector \<open>kernel_cap_t\<close>, its
  macros and inline functions, and the security bits of include/linux/securebits.h.
  The abstraction \<open>caps\<close> reads a vector as the set of capability numbers raised in it; every
  operation is shown to be the set operation it stands for, and the locale \<open>capability_algebra\<close>
  states that contract for the clients.
\<close>

section \<open>The bit vector and its operations\<close>

datatype kernel_cap_t = Kernel_cap (cap0: u32) (cap1: u32)

definition CAP_CHOWN :: nat where "CAP_CHOWN = 0"
definition CAP_DAC_OVERRIDE :: nat where "CAP_DAC_OVERRIDE = 1"
definition CAP_DAC_READ_SEARCH :: nat where "CAP_DAC_READ_SEARCH = 2"
definition CAP_FOWNER :: nat where "CAP_FOWNER = 3"
definition CAP_FSETID :: nat where "CAP_FSETID = 4"
definition CAP_SETGID :: nat where "CAP_SETGID = 6"
definition CAP_SETUID :: nat where "CAP_SETUID = 7"
definition CAP_SETPCAP :: nat where "CAP_SETPCAP = 8"
definition CAP_LINUX_IMMUTABLE :: nat where "CAP_LINUX_IMMUTABLE = 9"
definition CAP_NET_ADMIN :: nat where "CAP_NET_ADMIN = 12"
definition CAP_NET_RAW :: nat where "CAP_NET_RAW = 13"
definition CAP_SYS_RAWIO :: nat where "CAP_SYS_RAWIO = 17"
definition CAP_SYS_PTRACE :: nat where "CAP_SYS_PTRACE = 19"
definition CAP_SYS_ADMIN :: nat where "CAP_SYS_ADMIN = 21"
definition CAP_SYS_NICE :: nat where "CAP_SYS_NICE = 23"
definition CAP_SYS_RESOURCE :: nat where "CAP_SYS_RESOURCE = 24"
definition CAP_SYS_TIME :: nat where "CAP_SYS_TIME = 25"
definition CAP_MKNOD :: nat where "CAP_MKNOD = 27"
definition CAP_SETFCAP :: nat where "CAP_SETFCAP = 31"
definition CAP_MAC_OVERRIDE :: nat where "CAP_MAC_OVERRIDE = 32"
definition CAP_LAST_CAP :: nat where "CAP_LAST_CAP = 33"

lemmas CAP_numbers =
  CAP_CHOWN_def CAP_DAC_OVERRIDE_def CAP_DAC_READ_SEARCH_def CAP_FOWNER_def CAP_FSETID_def
  CAP_SETGID_def CAP_SETUID_def CAP_SETPCAP_def CAP_LINUX_IMMUTABLE_def CAP_NET_ADMIN_def
  CAP_NET_RAW_def CAP_SYS_RAWIO_def CAP_SYS_PTRACE_def CAP_SYS_ADMIN_def CAP_SYS_NICE_def
  CAP_SYS_RESOURCE_def CAP_SYS_TIME_def CAP_MKNOD_def CAP_SETFCAP_def CAP_MAC_OVERRIDE_def
  CAP_LAST_CAP_def

definition cap_valid :: "nat \<Rightarrow> bool" where
  "cap_valid x \<longleftrightarrow> x \<le> CAP_LAST_CAP"

definition CAP_TO_INDEX :: "nat \<Rightarrow> nat" where
  "CAP_TO_INDEX x = x div 32"

definition CAP_TO_MASK :: "nat \<Rightarrow> u32" where
  "CAP_TO_MASK x = push_bit (x mod 32) 1"

text \<open>The array access \<open>c.cap[i]\<close>; an index of 2 or more is outside the array.\<close>

definition cap_word :: "kernel_cap_t \<Rightarrow> nat \<Rightarrow> u32" where
  "cap_word c i = (if i = 0 then cap0 c else if i = 1 then cap1 c else 0)"

definition cap_word_update :: "kernel_cap_t \<Rightarrow> nat \<Rightarrow> u32 \<Rightarrow> kernel_cap_t" where
  "cap_word_update c i w =
     (if i = 0 then Kernel_cap w (cap1 c) else if i = 1 then Kernel_cap (cap0 c) w else c)"

definition cap_empty_set :: kernel_cap_t where
  "cap_empty_set = Kernel_cap 0 0"

definition cap_full_set :: kernel_cap_t where
  "cap_full_set = Kernel_cap (NOT 0) (NOT 0)"

definition cap_init_eff_set :: kernel_cap_t where
  "cap_init_eff_set = Kernel_cap (NOT (CAP_TO_MASK CAP_SETPCAP)) (NOT 0)"

definition CAP_FS_MASK_B0 :: u32 where
  "CAP_FS_MASK_B0 = CAP_TO_MASK CAP_CHOWN OR CAP_TO_MASK CAP_MKNOD OR CAP_TO_MASK CAP_DAC_OVERRIDE
     OR CAP_TO_MASK CAP_DAC_READ_SEARCH OR CAP_TO_MASK CAP_FOWNER OR CAP_TO_MASK CAP_FSETID"

definition CAP_FS_MASK_B1 :: u32 where
  "CAP_FS_MASK_B1 = CAP_TO_MASK CAP_MAC_OVERRIDE"

definition CAP_FS_SET :: kernel_cap_t where
  "CAP_FS_SET = Kernel_cap (CAP_FS_MASK_B0 OR CAP_TO_MASK CAP_LINUX_IMMUTABLE) CAP_FS_MASK_B1"

definition CAP_NFSD_SET :: kernel_cap_t where
  "CAP_NFSD_SET = Kernel_cap (CAP_FS_MASK_B0 OR CAP_TO_MASK CAP_SYS_RESOURCE) CAP_FS_MASK_B1"

definition cap_raise :: "kernel_cap_t \<Rightarrow> nat \<Rightarrow> kernel_cap_t" where
  "cap_raise c flag =
     cap_word_update c (CAP_TO_INDEX flag) (cap_word c (CAP_TO_INDEX flag) OR CAP_TO_MASK flag)"

definition cap_lower :: "kernel_cap_t \<Rightarrow> nat \<Rightarrow> kernel_cap_t" where
  "cap_lower c flag =
     cap_word_update c (CAP_TO_INDEX flag) (cap_word c (CAP_TO_INDEX flag) AND NOT (CAP_TO_MASK flag))"

definition cap_raised :: "kernel_cap_t \<Rightarrow> nat \<Rightarrow> bool" where
  "cap_raised c flag \<longleftrightarrow> cap_word c (CAP_TO_INDEX flag) AND CAP_TO_MASK flag \<noteq> 0"

definition CAP_BOP_ALL :: "kernel_cap_t \<Rightarrow> kernel_cap_t \<Rightarrow> (u32 \<Rightarrow> u32 \<Rightarrow> u32) \<Rightarrow> kernel_cap_t" where
  "CAP_BOP_ALL a b op = Kernel_cap (op (cap0 a) (cap0 b)) (op (cap1 a) (cap1 b))"

definition CAP_UOP_ALL :: "kernel_cap_t \<Rightarrow> (u32 \<Rightarrow> u32) \<Rightarrow> kernel_cap_t" where
  "CAP_UOP_ALL a op = Kernel_cap (op (cap0 a)) (op (cap1 a))"

definition cap_combine :: "kernel_cap_t \<Rightarrow> kernel_cap_t \<Rightarrow> kernel_cap_t" where
  "cap_combine a b = CAP_BOP_ALL a b (OR)"

definition cap_intersect :: "kernel_cap_t \<Rightarrow> kernel_cap_t \<Rightarrow> kernel_cap_t" where
  "cap_intersect a b = CAP_BOP_ALL a b (AND)"

definition cap_drop :: "kernel_cap_t \<Rightarrow> kernel_cap_t \<Rightarrow> kernel_cap_t" where
  "cap_drop a dropped = CAP_BOP_ALL a dropped (\<lambda>x y. x AND NOT y)"

definition cap_invert :: "kernel_cap_t \<Rightarrow> kernel_cap_t" where
  "cap_invert c = CAP_UOP_ALL c NOT"

definition cap_isclear :: "kernel_cap_t \<Rightarrow> bool" where
  "cap_isclear a \<longleftrightarrow> list_all (\<lambda>i. cap_word a i = 0) [0, 1]"

definition cap_issubset :: "kernel_cap_t \<Rightarrow> kernel_cap_t \<Rightarrow> bool" where
  "cap_issubset a super = cap_isclear (cap_drop a super)"

definition cap_is_fs_cap :: "nat \<Rightarrow> bool" where
  "cap_is_fs_cap cap \<longleftrightarrow> CAP_TO_MASK cap AND cap_word CAP_FS_SET (CAP_TO_INDEX cap) \<noteq> 0"

definition cap_drop_fs_set :: "kernel_cap_t \<Rightarrow> kernel_cap_t" where
  "cap_drop_fs_set a = cap_drop a CAP_FS_SET"

definition cap_raise_fs_set :: "kernel_cap_t \<Rightarrow> kernel_cap_t \<Rightarrow> kernel_cap_t" where
  "cap_raise_fs_set a permitted = cap_combine a (cap_intersect permitted CAP_FS_SET)"

definition cap_drop_nfsd_set :: "kernel_cap_t \<Rightarrow> kernel_cap_t" where
  "cap_drop_nfsd_set a = cap_drop a CAP_NFSD_SET"

definition cap_raise_nfsd_set :: "kernel_cap_t \<Rightarrow> kernel_cap_t \<Rightarrow> kernel_cap_t" where
  "cap_raise_nfsd_set a permitted = cap_combine a (cap_intersect permitted CAP_NFSD_SET)"

section \<open>Bit vectors as sets of capabilities\<close>

definition caps :: "kernel_cap_t \<Rightarrow> nat set" where
  "caps c = {n. n < 64 \<and> bit (cap_word c (n div 32)) (n mod 32)}"

lemma cap_word_BOP:
  "op 0 0 = 0 \<Longrightarrow> cap_word (CAP_BOP_ALL a b op) i = op (cap_word a i) (cap_word b i)"
  by (auto simp: cap_word_def CAP_BOP_ALL_def)

lemma bit_mask_word [simp]:
  "bit (CAP_TO_MASK x) n \<longleftrightarrow> n = x mod 32"
  by (auto simp: CAP_TO_MASK_def bit_simps)

lemma bit_cap0: "n < 32 \<Longrightarrow> bit (cap0 c) n \<longleftrightarrow> n \<in> caps c"
  by (simp add: caps_def cap_word_def)

lemma bit_cap1:
  assumes "n < 32"
  shows "bit (cap1 c) n \<longleftrightarrow> n + 32 \<in> caps c"
proof -
  have "(n + 32) div 32 = 1" "(n + 32) mod 32 = n"
    using assms by (simp_all add: div_nat_eqI)
  then show ?thesis
    using assms by (simp add: caps_def cap_word_def)
qed

lemma caps_eqI:
  assumes "caps a = caps b"
  shows "a = b"
proof -
  have "cap0 a = cap0 b"
    by (rule bit_word_eqI) (simp add: bit_cap0 assms)
  moreover have "cap1 a = cap1 b"
    by (rule bit_word_eqI) (simp add: bit_cap1 assms)
  ultimately show ?thesis
    by (rule kernel_cap_t.expand [OF conjI])
qed

lemma caps_empty [set_view, simp]: "caps cap_empty_set = {}"
  by (simp add: caps_def cap_empty_set_def cap_word_def)

lemma caps_full [set_view, simp]: "caps cap_full_set = {0..<64}"
  by (auto simp: caps_def cap_full_set_def cap_word_def)

lemma caps_combine [set_view]: "caps (cap_combine a b) = caps a \<union> caps b"
  by (auto simp: caps_def cap_combine_def cap_word_BOP bit_or_iff)

lemma caps_intersect [set_view]: "caps (cap_intersect a b) = caps a \<inter> caps b"
  by (auto simp: caps_def cap_intersect_def cap_word_BOP bit_and_iff)

lemma caps_drop [set_view]: "caps (cap_drop a b) = caps a - caps b"
  by (auto simp: caps_def cap_drop_def cap_word_BOP bit_and_iff bit_not_iff)

lemma caps_invert [set_view]: "caps (cap_invert a) = {0..<64} - caps a"
  by (auto simp: caps_def cap_invert_def CAP_UOP_ALL_def cap_word_def bit_not_iff)

lemma cap_isclear_iff [set_view]: "cap_isclear a \<longleftrightarrow> caps a = {}"
proof -
  have "cap_isclear a \<longleftrightarrow> a = cap_empty_set"
    by (cases a) (auto simp: cap_isclear_def cap_word_def cap_empty_set_def)
  also have "\<dots> \<longleftrightarrow> caps a = {}"
    using caps_eqI [of a cap_empty_set] by auto
  finally show ?thesis .
qed

lemma cap_issubset_iff [set_view]: "cap_issubset a b \<longleftrightarrow> caps a \<subseteq> caps b"
  by (auto simp: cap_issubset_def cap_isclear_iff caps_drop)

lemma cap_raised_iff [set_view]:
  assumes "n < 64"
  shows "cap_raised c n \<longleftrightarrow> n \<in> caps c"
  using assms
  by (simp add: cap_raised_def caps_def CAP_TO_INDEX_def CAP_TO_MASK_def
      bit_iff_and_push_bit_not_eq_0)

lemma cap_word_update:
  "cap_word (cap_word_update c i w) j = (if i = j \<and> j < 2 then w else cap_word c j)"
  by (auto simp: cap_word_def cap_word_update_def)

lemma div_mod_32_eq: "m div 32 = n div 32 \<Longrightarrow> m mod 32 = n mod 32 \<Longrightarrow> m = (n::nat)"
  by (metis div_mod_decomp)

lemma caps_raise [set_view]: "n < 64 \<Longrightarrow> caps (cap_raise c n) = insert n (caps c)"
  by (auto simp: caps_def cap_raise_def CAP_TO_INDEX_def cap_word_update bit_or_iff
      dest: div_mod_32_eq split: if_splits)

lemma caps_lower [set_view]: "n < 64 \<Longrightarrow> caps (cap_lower c n) = caps c - {n}"
  by (auto simp: caps_def cap_lower_def CAP_TO_INDEX_def cap_word_update bit_and_iff bit_not_iff
      dest: div_mod_32_eq split: if_splits)

lemma caps_subset_64: "caps c \<subseteq> {0..<64}"
  by (auto simp: caps_def)

section \<open>The contract of capability sets\<close>

text \<open>
  What the credential code relies on: the operations are the set operations on the members.
  The lemmas of the locale are the two facts behind every fix-up of an effective set.
\<close>

locale capability_algebra =
  fixes combine :: "'c \<Rightarrow> 'c \<Rightarrow> 'c"
    and intersect :: "'c \<Rightarrow> 'c \<Rightarrow> 'c"
    and remove :: "'c \<Rightarrow> 'c \<Rightarrow> 'c"
    and issubset :: "'c \<Rightarrow> 'c \<Rightarrow> bool"
    and members :: "'c \<Rightarrow> nat set"
  assumes members_combine: "members (combine a b) = members a \<union> members b"
    and members_intersect: "members (intersect a b) = members a \<inter> members b"
    and members_remove: "members (remove a b) = members a - members b"
    and issubset_members: "issubset a b \<longleftrightarrow> members a \<subseteq> members b"
begin

lemma raise_within: "issubset e p \<Longrightarrow> issubset (combine e (intersect p m)) p"
  by (auto simp: members_combine members_intersect issubset_members)

lemma remove_within: "issubset e p \<Longrightarrow> issubset (remove e m) p"
  by (auto simp: members_remove issubset_members)

lemma issubset_refl: "issubset p p"
  by (simp add: issubset_members)

lemma issubset_trans: "issubset a b \<Longrightarrow> issubset b c \<Longrightarrow> issubset a c"
  by (auto simp: issubset_members)

lemma intersect_within: "issubset (intersect a b) b"
  by (simp add: members_intersect issubset_members)

end

interpretation kcap: capability_algebra cap_combine cap_intersect cap_drop cap_issubset caps
  by unfold_locales (simp_all add: set_view)

end
