(* ===== verification/Supplementary_Groups.thy ===== *)
theory Supplementary_Groups
  imports Kernel_Prelude
begin

text \<open>
  Supplementary groups, kernel/groups.c: the blocked array \<open>struct group_info\<close>, its allocation,
  the copies from and to user memory, the Shell sort and the binary search.
  The abstraction \<open>gi_list\<close> reads the blocks as one list; sort and search are related to it.
  Reference counts are not modelled: group lists are values here.
\<close>

section \<open>The blocked array\<close>

definition NGROUPS_SMALL :: nat where "NGROUPS_SMALL = 32"
definition NGROUPS_PER_BLOCK :: nat where "NGROUPS_PER_BLOCK = 1024"
definition NGROUPS_MAX :: nat where "NGROUPS_MAX = 65536"

record group_info =
  ngroups :: nat
  nblocks :: nat
  on_small_block :: bool
  blocks :: "gid_t list list"

definition GROUP_AT :: "group_info \<Rightarrow> nat \<Rightarrow> gid_t" where
  "GROUP_AT gi i = blocks gi ! (i div NGROUPS_PER_BLOCK) ! (i mod NGROUPS_PER_BLOCK)"

definition GROUP_AT_update :: "group_info \<Rightarrow> nat \<Rightarrow> gid_t \<Rightarrow> group_info" where
  "GROUP_AT_update gi i v = gi\<lparr>blocks :=
     (blocks gi)[i div NGROUPS_PER_BLOCK :=
        (blocks gi ! (i div NGROUPS_PER_BLOCK))[i mod NGROUPS_PER_BLOCK := v]]\<rparr>"

section \<open>Allocation\<close>

text \<open>
  \<open>kmalloc\<close> is the outcome of the allocation of the structure, with the content its small block
  happens to have; \<open>get_page i\<close> the outcome of the \<open>i\<close>-th page allocation. The page counter
  records how many pages are held, so that a leak on the failure path would show.
\<close>

fun groups_alloc_blocks ::
  "(nat \<Rightarrow> gid_t list option) \<Rightarrow> nat \<Rightarrow> nat \<Rightarrow> gid_t list list \<Rightarrow> nat
     \<Rightarrow> gid_t list list option \<times> nat" where
  "groups_alloc_blocks get_page i 0 acc pages = (Some acc, pages)"
| "groups_alloc_blocks get_page i (Suc todo) acc pages =
     (case get_page i of
        None \<Rightarrow> (None, pages - length acc)
      | Some b \<Rightarrow> groups_alloc_blocks get_page (Suc i) todo (acc @ [b]) (Suc pages))"

definition groups_alloc ::
  "gid_t list option \<Rightarrow> (nat \<Rightarrow> gid_t list option) \<Rightarrow> nat \<Rightarrow> nat \<Rightarrow> group_info option \<times> nat" where
  "groups_alloc kmalloc get_page pages gidsetsize =
     (let nb = (gidsetsize + NGROUPS_PER_BLOCK - 1) div NGROUPS_PER_BLOCK;
          nb = (if nb = 0 then 1 else nb)
      in case kmalloc of
           None \<Rightarrow> (None, pages)
         | Some small \<Rightarrow>
             if gidsetsize \<le> NGROUPS_SMALL
             then (Some \<lparr>ngroups = gidsetsize, nblocks = nb, on_small_block = True,
                         blocks = [small]\<rparr>, pages)
             else (case groups_alloc_blocks get_page 0 nb [] pages of
                     (None, pages') \<Rightarrow> (None, pages')
                   | (Some bs, pages') \<Rightarrow>
                       (Some \<lparr>ngroups = gidsetsize, nblocks = nb, on_small_block = False,
                              blocks = bs\<rparr>, pages')))"

definition groups_free :: "group_info \<Rightarrow> nat \<Rightarrow> nat" where
  "groups_free gi pages = (if on_small_block gi then pages else pages - nblocks gi)"

section \<open>User memory\<close>

text \<open>
  The user array is a partial map from indices of \<open>grouplist\<close> to group ids; \<open>None\<close> marks an
  address whose access faults.
\<close>

type_synonym user_gids = "nat \<Rightarrow> gid_t option"

fun copy_from_user_gids :: "user_gids \<Rightarrow> nat \<Rightarrow> nat \<Rightarrow> gid_t list option" where
  "copy_from_user_gids u off 0 = Some []"
| "copy_from_user_gids u off (Suc n) =
     (case u off of None \<Rightarrow> None
      | Some v \<Rightarrow> map_option ((#) v) (copy_from_user_gids u (Suc off) n))"

fun groups_from_user_blocks ::
  "user_gids \<Rightarrow> nat \<Rightarrow> nat \<Rightarrow> gid_t list list \<Rightarrow> gid_t list list ret" where
  "groups_from_user_blocks u off cnt [] = Inr []"
| "groups_from_user_blocks u off cnt (b # bs) =
     (let cp_count = min NGROUPS_PER_BLOCK cnt in
      case copy_from_user_gids u off cp_count of
        None \<Rightarrow> Inl EFAULT
      | Some vs \<Rightarrow>
          (case groups_from_user_blocks u (off + NGROUPS_PER_BLOCK) (cnt - cp_count) bs of
             Inl e \<Rightarrow> Inl e
           | Inr bs' \<Rightarrow> Inr ((vs @ drop cp_count b) # bs')))"

definition groups_from_user :: "group_info \<Rightarrow> user_gids \<Rightarrow> group_info ret" where
  "groups_from_user gi u =
     (case groups_from_user_blocks u 0 (ngroups gi) (blocks gi) of
        Inl e \<Rightarrow> Inl e
      | Inr bs \<Rightarrow> Inr (gi\<lparr>blocks := bs\<rparr>))"

fun copy_to_user_gids :: "user_gids \<Rightarrow> nat \<Rightarrow> gid_t list \<Rightarrow> bool \<times> user_gids" where
  "copy_to_user_gids u off [] = (True, u)"
| "copy_to_user_gids u off (v # vs) =
     (case u off of
        None \<Rightarrow> (False, u)
      | Some _ \<Rightarrow> copy_to_user_gids (u(off \<mapsto> v)) (Suc off) vs)"

text \<open>A fault leaves what was copied before it in user memory.\<close>

fun groups_to_user_blocks ::
  "user_gids \<Rightarrow> nat \<Rightarrow> nat \<Rightarrow> gid_t list list \<Rightarrow> errno option \<times> user_gids" where
  "groups_to_user_blocks u off cnt [] = (None, u)"
| "groups_to_user_blocks u off cnt (b # bs) =
     (let cp_count = min NGROUPS_PER_BLOCK cnt in
      case copy_to_user_gids u off (take cp_count b) of
        (False, u') \<Rightarrow> (Some EFAULT, u')
      | (True, u') \<Rightarrow> groups_to_user_blocks u' (off + NGROUPS_PER_BLOCK) (cnt - cp_count) bs)"

definition groups_to_user :: "user_gids \<Rightarrow> group_info \<Rightarrow> errno option \<times> user_gids" where
  "groups_to_user u gi = groups_to_user_blocks u 0 (ngroups gi) (blocks gi)"

section \<open>Sorting\<close>

text \<open>
  The inner \<open>while\<close> of the Shell sort moves larger elements up by one stride. The test of the
  stride is the guard of the enclosing \<open>while (stride)\<close>.
\<close>

function groups_sort_shift :: "group_info \<Rightarrow> nat \<Rightarrow> int \<Rightarrow> nat \<Rightarrow> gid_t \<Rightarrow> group_info" where
  "groups_sort_shift gi stride left right tmp =
     (if 0 < stride \<and> 0 \<le> left \<and> tmp < GROUP_AT gi (nat left)
      then groups_sort_shift (GROUP_AT_update gi right (GROUP_AT gi (nat left)))
             stride (left - int stride) (nat left) tmp
      else GROUP_AT_update gi right tmp)"
  by pat_completeness auto
termination
  by (relation "measure (\<lambda>(gi, stride, left, right, tmp). nat (left + 1))") auto

declare groups_sort_shift.simps [simp del]

function groups_sort_pass :: "group_info \<Rightarrow> nat \<Rightarrow> nat \<Rightarrow> nat \<Rightarrow> group_info" where
  "groups_sort_pass gi stride base limit =
     (if base < limit
      then let left = base; right = left + stride; tmp = GROUP_AT gi right
           in groups_sort_pass (groups_sort_shift gi stride (int left) right tmp)
                stride (base + 1) limit
      else gi)"
  by pat_completeness auto
termination
  by (relation "measure (\<lambda>(gi, stride, base, limit). limit - base)") auto

declare groups_sort_pass.simps [simp del]

function groups_sort_strides :: "group_info \<Rightarrow> nat \<Rightarrow> group_info" where
  "groups_sort_strides gi stride =
     (if stride \<noteq> 0
      then groups_sort_strides (groups_sort_pass gi stride 0 (ngroups gi - stride)) (stride div 3)
      else gi)"
  by pat_completeness auto
termination
  by (relation "measure snd") auto

declare groups_sort_strides.simps [simp del]

function groups_sort_stride :: "nat \<Rightarrow> nat \<Rightarrow> nat" where
  "groups_sort_stride stride gidsetsize =
     (if stride < gidsetsize then groups_sort_stride (3 * stride + 1) gidsetsize else stride)"
  by pat_completeness auto
termination
  by (relation "measure (\<lambda>(stride, gidsetsize). gidsetsize - stride)") auto

declare groups_sort_stride.simps [simp del]

definition groups_sort :: "group_info \<Rightarrow> group_info" where
  "groups_sort gi = groups_sort_strides gi (groups_sort_stride 1 (ngroups gi) div 3)"

section \<open>Searching\<close>

text \<open>
  \<open>cmp\<close> is the difference of two unsigned 32-bit ids read as a signed \<open>int\<close>, as in the source.
\<close>

function groups_bsearch :: "group_info \<Rightarrow> gid_t \<Rightarrow> nat \<Rightarrow> nat \<Rightarrow> bool" where
  "groups_bsearch gi grp left right =
     (if left < right
      then let mid = (left + right) div 2; cmp = sint (grp - GROUP_AT gi mid)
           in if cmp > 0 then groups_bsearch gi grp (mid + 1) right
              else if cmp < 0 then groups_bsearch gi grp left mid
              else True
      else False)"
  by pat_completeness auto
termination
  by (relation "measure (\<lambda>(gi, grp, left, right). right - left)") auto

declare groups_bsearch.simps [simp del]

definition groups_search :: "group_info option \<Rightarrow> gid_t \<Rightarrow> bool" where
  "groups_search gi grp =
     (case gi of None \<Rightarrow> False | Some g \<Rightarrow> groups_bsearch g grp 0 (ngroups g))"

section \<open>The blocks as one list\<close>

text \<open>All blocks but the last are full-sized.\<close>

definition blocked :: "nat \<Rightarrow> 'a list list \<Rightarrow> bool" where
  "blocked k bs \<longleftrightarrow> (\<forall>j < length bs. length (bs ! j) \<le> k) \<and>
     (\<forall>j. Suc j < length bs \<longrightarrow> length (bs ! j) = k)"

lemma blocked_Cons:
  assumes "blocked k (b # bs)"
  shows "length b \<le> k \<and> blocked k bs \<and> (bs \<noteq> [] \<longrightarrow> length b = k)"
proof -
  from assms have le: "\<forall>j < Suc (length bs). length ((b # bs) ! j) \<le> k"
    and eq: "\<forall>j. Suc j < Suc (length bs) \<longrightarrow> length ((b # bs) ! j) = k"
    by (simp_all add: blocked_def)
  have "length b \<le> k" using le by force
  moreover have "blocked k bs"
    unfolding blocked_def
  proof (intro conjI allI impI)
    fix j assume "j < length bs" then show "length (bs ! j) \<le> k" using le by force
  next
    fix j assume "Suc j < length bs"
    then show "length (bs ! j) = k" using eq [rule_format, of "Suc j"] by simp
  qed
  moreover have "bs \<noteq> [] \<longrightarrow> length b = k" using eq [rule_format, of 0] by auto
  ultimately show ?thesis by blast
qed

lemma nth_concat_blocked:
  assumes "0 < k" "blocked k bs" "i < length (concat bs)"
  shows "concat bs ! i = bs ! (i div k) ! (i mod k)"
  using assms(2,3)
proof (induction bs arbitrary: i)
  case (Cons b bs)
  note b = blocked_Cons [OF Cons.prems(1)]
  show ?case
  proof (cases "i < length b")
    case True
    with b show ?thesis by (simp add: nth_append)
  next
    case False
    with Cons.prems(2) b have k: "length b = k" and ge: "k \<le> i" by auto
    have "concat bs ! (i - k) = bs ! ((i - k) div k) ! ((i - k) mod k)"
      using Cons b k ge by (intro Cons.IH) auto
    with k ge assms(1) show ?thesis
      by (simp add: nth_append le_div_geq le_mod_geq)
  qed
qed simp

lemma concat_blocked_update:
  assumes "0 < k" "blocked k bs" "i < length (concat bs)"
  shows "concat (bs[i div k := (bs ! (i div k))[i mod k := v]]) = (concat bs)[i := v]"
  using assms(2,3)
proof (induction bs arbitrary: i)
  case (Cons b bs)
  note b = blocked_Cons [OF Cons.prems(1)]
  show ?case
  proof (cases "i < length b")
    case True
    with b show ?thesis by (simp add: list_update_append)
  next
    case False
    with Cons.prems(2) b have k: "length b = k" and ge: "k \<le> i" by auto
    have "concat (bs[(i - k) div k := (bs ! ((i - k) div k))[(i - k) mod k := v]]) = (concat bs)[i - k := v]"
      using Cons b k ge by (intro Cons.IH) auto
    with k ge assms(1) show ?thesis
      by (simp add: list_update_append le_div_geq le_mod_geq)
  qed
qed simp

lemma blocked_update:
  assumes "blocked k bs" "j < length bs" "length c = length (bs ! j)"
  shows "blocked k (bs[j := c])"
  using assms by (auto simp: blocked_def nth_list_update)

definition gi_list :: "group_info \<Rightarrow> gid_t list" where
  "gi_list gi = take (ngroups gi) (concat (blocks gi))"

definition gi_wf :: "group_info \<Rightarrow> bool" where
  "gi_wf gi \<longleftrightarrow> blocked NGROUPS_PER_BLOCK (blocks gi) \<and> nblocks gi = length (blocks gi) \<and>
     ngroups gi \<le> length (concat (blocks gi))"

lemma length_gi_list [simp]: "gi_wf gi \<Longrightarrow> length (gi_list gi) = ngroups gi"
  by (simp add: gi_list_def gi_wf_def)

lemma GROUP_AT_gi_list:
  assumes "gi_wf gi" "i < ngroups gi"
  shows "GROUP_AT gi i = gi_list gi ! i"
proof -
  from assms have "concat (blocks gi) ! i = GROUP_AT gi i"
    unfolding GROUP_AT_def gi_wf_def
    by (intro nth_concat_blocked) (auto simp: NGROUPS_PER_BLOCK_def)
  with assms(2) show ?thesis
    by (simp add: gi_list_def)
qed

lemma blocked_div_less:
  assumes "0 < k" "blocked k bs" "i < length (concat bs)"
  shows "i div k < length bs"
  using assms(2,3)
proof (induction bs arbitrary: i)
  case (Cons b bs)
  note b = blocked_Cons [OF Cons.prems(1)]
  show ?case
  proof (cases "i < length b")
    case True
    with b show ?thesis by simp
  next
    case False
    with Cons.prems(2) b have k: "length b = k" and ge: "k \<le> i" by auto
    have "(i - k) div k < length bs"
      using Cons b k ge by (intro Cons.IH) auto
    with ge assms(1) show ?thesis by (simp add: le_div_geq)
  qed
qed simp

lemma GROUP_AT_update_refines:
  assumes "gi_wf gi" "i < ngroups gi"
  shows "gi_list (GROUP_AT_update gi i v) = (gi_list gi)[i := v]"
    and "gi_wf (GROUP_AT_update gi i v)"
    and "ngroups (GROUP_AT_update gi i v) = ngroups gi"
proof -
  have k: "0 < NGROUPS_PER_BLOCK" by (simp add: NGROUPS_PER_BLOCK_def)
  from assms have b: "blocked NGROUPS_PER_BLOCK (blocks gi)" and i: "i < length (concat (blocks gi))"
    by (auto simp: gi_wf_def)
  note upd = concat_blocked_update [OF k b i]
  show "gi_list (GROUP_AT_update gi i v) = (gi_list gi)[i := v]"
    by (simp add: gi_list_def GROUP_AT_update_def upd take_update_swap)
  have "blocked NGROUPS_PER_BLOCK (blocks (GROUP_AT_update gi i v))"
    by (simp add: GROUP_AT_update_def blocked_update [OF b blocked_div_less [OF k b i]])
  then show "gi_wf (GROUP_AT_update gi i v)"
    using assms by (simp add: gi_wf_def GROUP_AT_update_def upd)
  show "ngroups (GROUP_AT_update gi i v) = ngroups gi"
    by (simp add: GROUP_AT_update_def)
qed


text \<open>
  The array contract the sort and the search rest on: reads and writes through \<open>GROUP_AT\<close> are
  reads and writes of one list.
\<close>

locale indexed_array =
  fixes get :: "'ar \<Rightarrow> nat \<Rightarrow> 'a"
    and put :: "'ar \<Rightarrow> nat \<Rightarrow> 'a \<Rightarrow> 'ar"
    and len :: "'ar \<Rightarrow> nat"
    and contents :: "'ar \<Rightarrow> 'a list"
    and invar :: "'ar \<Rightarrow> bool"
  assumes get_contents: "invar a \<Longrightarrow> i < len a \<Longrightarrow> get a i = contents a ! i"
    and put_contents: "invar a \<Longrightarrow> i < len a \<Longrightarrow> contents (put a i v) = (contents a)[i := v]"
    and put_invar: "invar a \<Longrightarrow> i < len a \<Longrightarrow> invar (put a i v)"
    and put_len: "invar a \<Longrightarrow> i < len a \<Longrightarrow> len (put a i v) = len a"
    and len_contents: "invar a \<Longrightarrow> length (contents a) = len a"
begin

lemma get_put:
  assumes "invar a" "i < len a" "j < len a"
  shows "get (put a i v) j = (if i = j then v else get a j)"
  using assms by (simp add: get_contents put_contents put_invar put_len len_contents)

lemma put_get_id: "invar a \<Longrightarrow> i < len a \<Longrightarrow> contents (put a i (get a i)) = contents a"
  by (simp add: get_contents put_contents)

end

interpretation gi: indexed_array GROUP_AT GROUP_AT_update ngroups gi_list gi_wf
  by unfold_locales (simp_all add: GROUP_AT_gi_list GROUP_AT_update_refines)

section \<open>The sort\<close>

text \<open>The inner loop on lists, which the loop on the blocks refines.\<close>

function shift_list :: "'a::linorder list \<Rightarrow> nat \<Rightarrow> int \<Rightarrow> nat \<Rightarrow> 'a \<Rightarrow> 'a list" where
  "shift_list xs stride left right tmp =
     (if 0 < stride \<and> 0 \<le> left \<and> tmp < xs ! nat left
      then shift_list (xs[right := xs ! nat left]) stride (left - int stride) (nat left) tmp
      else xs[right := tmp])"
  by pat_completeness auto
termination
  by (relation "measure (\<lambda>(xs, stride, left, right, tmp). nat (left + 1))") auto

declare shift_list.simps [simp del]

lemma groups_sort_shift_refines:
  assumes "gi_wf gi" "right < ngroups gi" "left < int right"
  shows "gi_list (groups_sort_shift gi stride left right tmp)
           = shift_list (gi_list gi) stride left right tmp \<and>
         gi_wf (groups_sort_shift gi stride left right tmp) \<and>
         ngroups (groups_sort_shift gi stride left right tmp) = ngroups gi"
  using assms
proof (induction gi stride left right tmp rule: groups_sort_shift.induct)
  case (1 gi stride left right tmp)
  show ?case
  proof (cases "0 < stride \<and> 0 \<le> left \<and> tmp < GROUP_AT gi (nat left)")
    case True
    then have l: "nat left < ngroups gi" "left - int stride < int (nat left)"
      using "1.prems" by auto
    note r = GROUP_AT_update_refines [OF "1.prems"(1,2)]
    show ?thesis
      using "1.IH" [OF True] True l r "1.prems"
      by (simp add: groups_sort_shift.simps [of gi] shift_list.simps [of "gi_list gi"]
          GROUP_AT_gi_list)
  next
    case False
    then show ?thesis
      using "1.prems" GROUP_AT_update_refines [OF "1.prems"(1,2)]
      by (auto simp: groups_sort_shift.simps [of gi] shift_list.simps [of "gi_list gi"]
          GROUP_AT_gi_list)
  qed
qed

lemma length_shift_list [simp]: "length (shift_list xs stride left right tmp) = length xs"
proof (induction xs stride left right tmp rule: shift_list.induct)
  case (1 xs stride left right tmp)
  then show ?case by (simp add: shift_list.simps [of xs])
qed

lemma mset_shift_list:
  assumes "right < length xs" "left < int right"
  shows "mset (shift_list xs stride left right tmp) = mset (xs[right := tmp])"
  using assms
proof (induction xs stride left right tmp rule: shift_list.induct)
  case (1 xs stride left right tmp)
  show ?case
  proof (cases "0 < stride \<and> 0 \<le> left \<and> tmp < xs ! nat left")
    case True
    let ?l = "nat left"
    have l: "?l < right" "left - int stride < int ?l" using True 1 by auto
    have "mset (shift_list xs stride left right tmp) = mset (xs[right := xs ! ?l, ?l := tmp])"
      using 1 True l by (simp add: shift_list.simps [of xs])
    also have "\<dots> = mset ((xs[right := tmp])[right := (xs[right := tmp]) ! ?l, ?l := (xs[right := tmp]) ! right])"
      using l "1.prems" by simp
    also have "\<dots> = mset (xs[right := tmp])"
      using l "1.prems" by (intro mset_swap) auto
    finally show ?thesis .
  next
    case False
    then show ?thesis by (auto simp: shift_list.simps [of xs])
  qed
qed

lemma shift_list_insert:
  "\<exists>A1 A2. A = A1 @ A2 \<and> (\<forall>a \<in> set A2. tmp < a) \<and> (A1 = [] \<or> last A1 \<le> tmp) \<and>
     shift_list (A @ h # B) 1 (int (length A) - 1) (length A) tmp = A1 @ tmp # A2 @ B"
proof (induction A arbitrary: h B rule: rev_induct)
  case Nil
  show ?case by (simp add: shift_list.simps)
next
  case (snoc a A)
  show ?case
  proof (cases "tmp < a")
    case True
    obtain A1 A2 where *: "A = A1 @ A2" "\<forall>a \<in> set A2. tmp < a" "A1 = [] \<or> last A1 \<le> tmp"
      "shift_list (A @ a # a # B) 1 (int (length A) - 1) (length A) tmp = A1 @ tmp # A2 @ a # B"
      using snoc.IH [of a "a # B"] by blast
    have "shift_list ((A @ [a]) @ h # B) 1 (int (length (A @ [a])) - 1) (length (A @ [a])) tmp
          = shift_list (A @ a # a # B) 1 (int (length A) - 1) (length A) tmp"
      using True by (subst shift_list.simps) (simp add: nth_append list_update_append)
    with * True show ?thesis
      by (intro exI [of _ A1] exI [of _ "A2 @ [a]"]) auto
  next
    case False
    then have "shift_list ((A @ [a]) @ h # B) 1 (int (length (A @ [a])) - 1) (length (A @ [a])) tmp
          = (A @ [a]) @ tmp # B"
      by (subst shift_list.simps) (simp add: nth_append list_update_append)
    with False show ?thesis
      by (intro exI [of _ "A @ [a]"] exI [of _ "[]"]) auto
  qed
qed

lemma groups_sort_pass_refines:
  assumes "gi_wf gi" "0 < stride" "limit + stride \<le> ngroups gi"
  shows "gi_wf (groups_sort_pass gi stride base limit) \<and>
         ngroups (groups_sort_pass gi stride base limit) = ngroups gi \<and>
         mset (gi_list (groups_sort_pass gi stride base limit)) = mset (gi_list gi)"
  using assms
proof (induction gi stride base limit rule: groups_sort_pass.induct)
  case (1 gi stride base limit)
  show ?case
  proof (cases "base < limit")
    case True
    let ?r = "base + stride"
    let ?gi = "groups_sort_shift gi stride (int base) ?r (GROUP_AT gi ?r)"
    have r: "?r < ngroups gi" "int base < int ?r" using True "1.prems" by auto
    note shift = groups_sort_shift_refines [OF "1.prems"(1) r]
    have "mset (gi_list ?gi) = mset (gi_list gi)"
      using shift r "1.prems" by (simp add: mset_shift_list GROUP_AT_gi_list)
    with shift True "1.prems" "1.IH" [OF True refl refl refl] show ?thesis
      by (simp add: groups_sort_pass.simps [of gi] Let_def)
  qed (use "1.prems" in \<open>simp add: groups_sort_pass.simps [of gi]\<close>)
qed

lemma sorted_insert_between:
  fixes tmp :: "'a::linorder"
  assumes "sorted (A1 @ A2)" "\<forall>a \<in> set A2. tmp < a" "A1 = [] \<or> last A1 \<le> tmp"
  shows "sorted (A1 @ tmp # A2)"
proof -
  have "\<forall>a \<in> set A1. a \<le> tmp"
  proof (cases "A1 = []")
    case False
    then obtain A l where A: "A1 = A @ [l]" by (metis rev_exhaust)
    with assms show ?thesis by (auto simp: sorted_append)
  qed simp
  with assms show ?thesis by (auto simp: sorted_append less_imp_le)
qed

lemma shift_list_sorted_prefix:
  fixes xs :: "'a::linorder list"
  assumes "sorted (take (Suc base) xs)" "Suc base < length xs"
  shows "sorted (take (Suc (Suc base)) (shift_list xs 1 (int base) (Suc base) (xs ! Suc base)))"
proof -
  let ?A = "take (Suc base) xs" and ?B = "drop (Suc (Suc base)) xs" and ?t = "xs ! Suc base"
  have xs: "xs = ?A @ ?t # ?B" and len: "length ?A = Suc base"
    using assms(2) by (simp_all add: id_take_nth_drop)
  obtain A1 A2 where *: "?A = A1 @ A2" "\<forall>a \<in> set A2. ?t < a" "A1 = [] \<or> last A1 \<le> ?t"
    "shift_list (?A @ ?t # ?B) 1 (int (length ?A) - 1) (length ?A) ?t = A1 @ ?t # A2 @ ?B"
    using shift_list_insert by blast
  have "shift_list xs 1 (int base) (Suc base) ?t = (A1 @ ?t # A2) @ ?B"
    using *(4) xs len by simp
  moreover have "length (A1 @ ?t # A2) = Suc (Suc base)"
    using *(1) len by (metis length_append length_Cons add_Suc_right)
  moreover have "sorted (A1 @ ?t # A2)"
    using *(2,3) assms(1) unfolding *(1) by (intro sorted_insert_between)
  ultimately show ?thesis by (metis append_eq_conv_conj)
qed

lemma groups_sort_pass_sorted:
  assumes "gi_wf gi" "limit + 1 = ngroups gi" "base \<le> limit" "sorted (take (Suc base) (gi_list gi))"
  shows "sorted (gi_list (groups_sort_pass gi 1 base limit))"
  using assms
proof (induction gi "1::nat" base limit rule: groups_sort_pass.induct)
  case (1 gi base limit)
  show ?case
  proof (cases "base < limit")
    case True
    let ?r = "base + 1"
    let ?gi = "groups_sort_shift gi 1 (int base) ?r (GROUP_AT gi ?r)"
    have r: "?r < ngroups gi" "int base < int ?r" using True "1.prems" by auto
    note shift = groups_sort_shift_refines [OF "1.prems"(1) r, of 1 "GROUP_AT gi ?r"]
    have "sorted (take (Suc (Suc base)) (gi_list ?gi))"
      using shift_list_sorted_prefix [OF "1.prems"(4)] shift r "1.prems"
      by (simp add: GROUP_AT_gi_list)
    with "1.hyps" [OF True refl refl refl] shift True "1.prems" show ?thesis
      by (simp add: groups_sort_pass.simps [of gi] Let_def)
  next
    case False
    with "1.prems" show ?thesis
      by (simp add: groups_sort_pass.simps [of gi] Let_def)
  qed
qed

text \<open>The strides of the sort are 1, 4, 13, 40, ...\<close>

fun stride_seq :: "nat \<Rightarrow> nat" where
  "stride_seq 0 = 0"
| "stride_seq (Suc k) = 3 * stride_seq k + 1"

lemma stride_seq_div: "stride_seq (Suc k) div 3 = stride_seq k"
  unfolding stride_seq.simps by presburger

lemma groups_sort_stride_seq:
  "\<exists>k. groups_sort_stride (stride_seq (Suc j)) n = stride_seq (Suc k) \<and>
     (stride_seq k < n \<or> k = j) \<and> n \<le> stride_seq (Suc k)"
proof (induction "stride_seq (Suc j)" n arbitrary: j rule: groups_sort_stride.induct)
  case (1 n)
  show ?case
  proof (cases "stride_seq (Suc j) < n")
    case True
    then have step: "groups_sort_stride (stride_seq (Suc j)) n = groups_sort_stride (stride_seq (Suc (Suc j))) n"
      by (subst groups_sort_stride.simps) simp
    obtain k where "groups_sort_stride (stride_seq (Suc (Suc j))) n = stride_seq (Suc k)"
      "stride_seq k < n \<or> k = Suc j" "n \<le> stride_seq (Suc k)"
      using "1.hyps" [OF True, of "Suc j"] by auto
    with True show ?thesis unfolding step by (intro exI [of _ k]) auto
  next
    case False
    then show ?thesis
      by (intro exI [of _ j]) (subst groups_sort_stride.simps, simp)
  qed
qed

lemma groups_sort_strides_refines:
  assumes "gi_wf gi" "stride < ngroups gi"
  shows "gi_wf (groups_sort_strides gi stride) \<and>
         ngroups (groups_sort_strides gi stride) = ngroups gi \<and>
         mset (gi_list (groups_sort_strides gi stride)) = mset (gi_list gi)"
  using assms
proof (induction gi stride rule: groups_sort_strides.induct)
  case (1 gi stride)
  show ?case
  proof (cases "stride = 0")
    case False
    let ?gi = "groups_sort_pass gi stride 0 (ngroups gi - stride)"
    have p: "gi_wf ?gi \<and> ngroups ?gi = ngroups gi \<and> mset (gi_list ?gi) = mset (gi_list gi)"
      using False "1.prems" by (intro groups_sort_pass_refines) auto
    moreover have "stride div 3 < ngroups ?gi" using p "1.prems" by linarith
    ultimately show ?thesis
      using "1.IH" False by (simp add: groups_sort_strides.simps [of gi])
  qed (use "1.prems" in \<open>simp add: groups_sort_strides.simps [of gi]\<close>)
qed

lemma groups_sort_strides_sorted:
  assumes "gi_wf gi" "stride_seq (Suc k) < ngroups gi"
  shows "sorted (gi_list (groups_sort_strides gi (stride_seq (Suc k))))"
  using assms
proof (induction k arbitrary: gi)
  case 0
  have "sorted (gi_list (groups_sort_pass gi 1 0 (ngroups gi - 1)))"
    using 0 by (intro groups_sort_pass_sorted) (auto simp: sorted01)
  then show ?case
    by (simp add: groups_sort_strides.simps)
next
  case (Suc k)
  let ?gi = "groups_sort_pass gi (stride_seq (Suc (Suc k))) 0 (ngroups gi - stride_seq (Suc (Suc k)))"
  have "gi_wf ?gi \<and> ngroups ?gi = ngroups gi \<and> mset (gi_list ?gi) = mset (gi_list gi)"
    using Suc.prems by (intro groups_sort_pass_refines) auto
  moreover have "groups_sort_strides gi (stride_seq (Suc (Suc k))) = groups_sort_strides ?gi (stride_seq (Suc k))"
    by (subst groups_sort_strides.simps) (simp add: stride_seq_div del: stride_seq.simps, simp)
  ultimately show ?case
    using Suc.IH [of ?gi] Suc.prems by simp
qed

lemma groups_sort_correct:
  assumes "gi_wf gi"
  shows "gi_wf (groups_sort gi)" "ngroups (groups_sort gi) = ngroups gi"
    "mset (gi_list (groups_sort gi)) = mset (gi_list gi)" "sorted (gi_list (groups_sort gi))"
proof -
  obtain k where k: "groups_sort_stride 1 (ngroups gi) = stride_seq (Suc k)"
    "stride_seq k < ngroups gi \<or> k = 0" "ngroups gi \<le> stride_seq (Suc k)"
    using groups_sort_stride_seq [of 0 "ngroups gi"] by auto
  then have s: "groups_sort gi = groups_sort_strides gi (stride_seq k)"
    by (simp add: groups_sort_def stride_seq_div del: stride_seq.simps)
  have "gi_wf (groups_sort gi) \<and> ngroups (groups_sort gi) = ngroups gi \<and>
      mset (gi_list (groups_sort gi)) = mset (gi_list gi) \<and> sorted (gi_list (groups_sort gi))"
  proof (cases k)
    case 0
    with k(3) have "length (gi_list gi) \<le> 1" using assms by simp
    with 0 assms show ?thesis
      by (simp add: s groups_sort_strides.simps sorted01)
  next
    case (Suc j)
    with k(2) have lt: "stride_seq (Suc j) < ngroups gi" by simp
    show ?thesis
      using groups_sort_strides_refines [OF assms lt] groups_sort_strides_sorted [OF assms lt]
      by (simp add: s Suc)
  qed
  then show "gi_wf (groups_sort gi)" "ngroups (groups_sort gi) = ngroups gi"
    "mset (gi_list (groups_sort gi)) = mset (gi_list gi)" "sorted (gi_list (groups_sort gi))"
    by auto
qed


section \<open>The search\<close>

lemma sint_diff_window:
  fixes a b :: u32
  assumes "- (2 ^ 31) \<le> uint a - uint b" "uint a - uint b < 2 ^ 31"
  shows "sint (a - b) = uint a - uint b"
proof -
  have "uint (a - b) = take_bit 32 (uint a - uint b)"
    by (simp add: uint_word_ariths take_bit_eq_mod)
  then have "sint (a - b) = signed_take_bit 31 (uint a - uint b)"
    by (simp add: sint_uint signed_take_bit_take_bit)
  with assms show ?thesis
    by (simp add: signed_take_bit_int_eq_self)
qed

lemma sorted_nth_uint:
  fixes xs :: "u32 list"
  assumes "sorted xs" "i \<le> j" "j < length xs"
  shows "uint (xs ! i) \<le> uint (xs ! j)"
  using sorted_nth_mono [OF assms] by (simp add: word_le_def)

text \<open>
  The binary search answers membership when no id of the list is further than \<open>2 ^ 31\<close> from
  the one looked up, which keeps the signed difference of the source exact.
\<close>

definition gid_window :: "gid_t \<Rightarrow> gid_t list \<Rightarrow> bool" where
  "gid_window grp xs \<longleftrightarrow>
     (\<forall>x \<in> set xs. - (2 ^ 31) \<le> uint grp - uint x \<and> uint grp - uint x < 2 ^ 31)"

lemma groups_bsearch_correct:
  assumes "gi_wf gi" "sorted (gi_list gi)" "gid_window grp (gi_list gi)" "right \<le> ngroups gi"
    and "\<forall>i < ngroups gi. gi_list gi ! i = grp \<longrightarrow> left \<le> i \<and> i < right"
  shows "groups_bsearch gi grp left right \<longleftrightarrow> grp \<in> set (gi_list gi)"
  using assms
proof (induction gi grp left right rule: groups_bsearch.induct)
  case (1 gi grp left right)
  let ?xs = "gi_list gi" and ?mid = "(left + right) div 2"
  show ?case
  proof (cases "left < right")
    case True
    then have mid: "left \<le> ?mid" "?mid < right" "?mid < ngroups gi"
      using "1.prems"(4) by auto
    have at: "GROUP_AT gi ?mid = ?xs ! ?mid"
      using mid "1.prems"(1) by (simp add: GROUP_AT_gi_list)
    have "?xs ! ?mid \<in> set ?xs"
      using mid "1.prems"(1) by simp
    then have cmp: "sint (grp - GROUP_AT gi ?mid) = uint grp - uint (?xs ! ?mid)"
      unfolding at using "1.prems"(3) by (intro sint_diff_window) (auto simp: gid_window_def)
    have mono: "i \<le> j \<Longrightarrow> j < ngroups gi \<Longrightarrow> uint (?xs ! i) \<le> uint (?xs ! j)" for i j
      using sorted_nth_uint [OF "1.prems"(2)] "1.prems"(1) by simp
    consider (gt) "uint grp > uint (?xs ! ?mid)" | (lt) "uint grp < uint (?xs ! ?mid)"
      | (eq) "uint grp = uint (?xs ! ?mid)" by linarith
    then show ?thesis
    proof cases
      case gt
      have "\<forall>i < ngroups gi. ?xs ! i = grp \<longrightarrow> ?mid + 1 \<le> i \<and> i < right"
        using gt mono [of _ ?mid] mid "1.prems"(5) by (metis Suc_eq_plus1 not_less not_less_eq_eq)
      then show ?thesis
        using "1.IH"(1) [OF True refl refl] "1.prems" True cmp gt
        by (simp add: groups_bsearch.simps [of gi grp left right] Let_def)
    next
      case lt
      have "\<forall>i < ngroups gi. ?xs ! i = grp \<longrightarrow> left \<le> i \<and> i < ?mid"
        using lt mono [of ?mid] mid "1.prems"(5) by (metis not_less)
      then show ?thesis
        using "1.IH"(2) [OF True refl refl] "1.prems" True cmp lt mid
        by (simp add: groups_bsearch.simps [of gi grp left right] Let_def)
    next
      case eq
      then have "groups_bsearch gi grp left right"
        using True cmp by (simp add: groups_bsearch.simps [of gi grp left right] Let_def)
      moreover have "grp \<in> set ?xs"
        using eq \<open>?xs ! ?mid \<in> set ?xs\<close> by (metis word_uint_eq_iff)
      ultimately show ?thesis by blast
    qed
  next
    case False
    then have "grp \<notin> set ?xs"
      using "1.prems"(1,5) by (auto simp: in_set_conv_nth)
    with False show ?thesis
      by (simp add: groups_bsearch.simps [of gi grp left right])
  qed
qed

lemma groups_search_correct:
  assumes "gi_wf gi" "sorted (gi_list gi)" "gid_window grp (gi_list gi)"
  shows "groups_search (Some gi) grp \<longleftrightarrow> grp \<in> set (gi_list gi)"
  using assms by (simp add: groups_search_def groups_bsearch_correct)

section \<open>Allocation and user copies\<close>

lemma groups_alloc_blocks_pages:
  assumes "groups_alloc_blocks get_page i todo acc (pages + length acc) = (r, pages')"
  shows "case r of None \<Rightarrow> pages' = pages
         | Some bs \<Rightarrow> pages' = pages + length bs \<and> length bs = length acc + todo"
  using assms
proof (induction todo arbitrary: i acc)
  case (Suc todo)
  show ?case
  proof (cases "get_page i")
    case None
    with Suc.prems show ?thesis by auto
  next
    case (Some b)
    with Suc.prems have
      "groups_alloc_blocks get_page (Suc i) todo (acc @ [b]) (pages + length (acc @ [b])) = (r, pages')"
      by simp
    from Suc.IH [OF this] show ?thesis by (auto split: option.splits)
  qed
qed auto

lemma groups_alloc_blocks_acc:
  assumes "groups_alloc_blocks get_page i todo acc pages = (Some bs, pages')"
    and "\<forall>i b. get_page i = Some b \<longrightarrow> length b = k" "\<forall>b \<in> set acc. length b = k"
  shows "\<forall>b \<in> set bs. length b = k"
  using assms
proof (induction todo arbitrary: i acc pages)
  case (Suc todo)
  show ?case
  proof (cases "get_page i")
    case (Some b)
    with Suc.prems show ?thesis by (intro Suc.IH [of "Suc i" "acc @ [b]" "Suc pages"]) auto
  qed (use Suc.prems in simp)
qed auto

lemma copy_from_user_gids_Some:
  "copy_from_user_gids u off n = Some vs \<longleftrightarrow> map Some vs = map u [off..<off + n]"
proof (induction n arbitrary: off vs)
  case (Suc n)
  show ?case
    using Suc.IH by (auto simp: upt_conv_Cons map_eq_Cons_conv split: option.splits simp del: upt_Suc)
qed auto

lemma groups_from_user_blocks_Inr:
  assumes "groups_from_user_blocks u off n bs = Inr bs'" "blocked NGROUPS_PER_BLOCK bs"
    and "n \<le> length (concat bs)"
  shows "map length bs' = map length bs \<and> map Some (take n (concat bs')) = map u [off..<off + n]"
  using assms
proof (induction bs arbitrary: off n bs')
  case (Cons b bs)
  let ?k = NGROUPS_PER_BLOCK
  let ?cp = "min ?k n"
  note b = blocked_Cons [OF Cons.prems(2)]
  obtain vs bs'' where vs: "copy_from_user_gids u off ?cp = Some vs"
    and rec: "groups_from_user_blocks u (off + ?k) (n - ?cp) bs = Inr bs''"
    and bs': "bs' = (vs @ drop ?cp b) # bs''"
    using Cons.prems(1) by (auto simp: Let_def split: option.splits sum.splits)
  have mvs: "map Some vs = map u [off..<off + ?cp]"
    using vs by (simp add: copy_from_user_gids_Some)
  then have len: "length vs = ?cp"
    by (metis length_map length_upt diff_add_inverse)
  have IH: "map length bs'' = map length bs \<and>
      map Some (take (n - ?cp) (concat bs'')) = map u [off + ?k..<off + ?k + (n - ?cp)]"
    using Cons.prems b by (intro Cons.IH [OF rec]) auto
  show ?case
  proof (cases "n \<le> ?k")
    case True
    then have cp: "?cp = n" by simp
    have "n \<le> length b" if "bs \<noteq> []" using b that True by simp
    then have "n \<le> length b" using Cons.prems(3) by (cases "bs = []") auto
    with IH mvs len cp bs' show ?thesis by simp
  next
    case False
    then have cp: "?cp = ?k" by simp
    have "bs \<noteq> []" using False Cons.prems(3) b by (cases "bs = []") auto
    then have lb: "length b = ?k" using b by simp
    have "[off..<off + n] = [off..<off + ?k] @ [off + ?k..<off + ?k + (n - ?k)]"
      using False upt_add_eq_append [of off "off + ?k" "n - ?k"] by simp
    with IH mvs len cp bs' lb False show ?thesis by simp
  qed
qed auto

lemma groups_from_user_Inr:
  assumes "groups_from_user gi u = Inr gi'" "gi_wf gi"
  shows "gi_wf gi'" "ngroups gi' = ngroups gi" "map Some (gi_list gi') = map u [0..<ngroups gi]"
proof -
  obtain bs where bs: "groups_from_user_blocks u 0 (ngroups gi) (blocks gi) = Inr bs"
    and gi': "gi' = gi\<lparr>blocks := bs\<rparr>"
    using assms(1) by (auto simp: groups_from_user_def split: sum.splits)
  have wf: "blocked NGROUPS_PER_BLOCK (blocks gi)" "ngroups gi \<le> length (concat (blocks gi))"
    using assms(2) by (auto simp: gi_wf_def)
  note r = groups_from_user_blocks_Inr [OF bs wf]
  then have len: "map length bs = map length (blocks gi)" by blast
  then have "length bs = length (blocks gi)" by (rule map_eq_imp_length_eq)
  moreover have "length (bs ! j) = length (blocks gi ! j)" if "j < length bs" for j
    using len that by (metis \<open>length bs = length (blocks gi)\<close> nth_map)
  ultimately have "blocked NGROUPS_PER_BLOCK bs"
    using wf(1) by (auto simp: blocked_def)
  moreover have "length (concat bs) = length (concat (blocks gi))"
    using len by (simp add: length_concat)
  ultimately show "gi_wf gi'"
    using assms(2) \<open>length bs = length (blocks gi)\<close> by (simp add: gi' gi_wf_def)
  show "ngroups gi' = ngroups gi" by (simp add: gi')
  show "map Some (gi_list gi') = map u [0..<ngroups gi]"
    using r by (simp add: gi' gi_list_def)
qed

lemma groups_alloc_wf:
  assumes "groups_alloc kmalloc get_page pages n = (Some gi, pages')"
    and "\<forall>small. kmalloc = Some small \<longrightarrow> length small = NGROUPS_SMALL"
    and "\<forall>i b. get_page i = Some b \<longrightarrow> length b = NGROUPS_PER_BLOCK"
  shows "gi_wf gi" "ngroups gi = n" "groups_free gi pages' = pages"
proof -
  let ?k = NGROUPS_PER_BLOCK
  obtain small where small: "kmalloc = Some small"
    using assms(1) by (auto simp: groups_alloc_def Let_def split: option.splits)
  have "gi_wf gi \<and> ngroups gi = n \<and> groups_free gi pages' = pages"
  proof (cases "n \<le> NGROUPS_SMALL")
    case True
    then have "(n + ?k - 1) div ?k \<le> 1"
      by (simp add: NGROUPS_SMALL_def NGROUPS_PER_BLOCK_def)
    with True show ?thesis
      using assms(1,2) small
      by (auto simp: groups_alloc_def Let_def gi_wf_def blocked_def groups_free_def le_Suc_eq
          NGROUPS_SMALL_def NGROUPS_PER_BLOCK_def split: if_splits)
  next
    case False
    define nb where "nb = (if (n + ?k - 1) div ?k = 0 then 1 else (n + ?k - 1) div ?k)"
    obtain bs where bs: "groups_alloc_blocks get_page 0 nb [] pages = (Some bs, pages')"
      and gi: "gi = \<lparr>ngroups = n, nblocks = nb, on_small_block = False, blocks = bs\<rparr>"
      using assms(1) small False
      by (auto simp: groups_alloc_def Let_def nb_def split: option.splits prod.splits if_splits)
    have len: "pages' = pages + length bs" "length bs = nb"
      using groups_alloc_blocks_pages [of get_page 0 nb "[]" pages "Some bs" pages'] bs by auto
    have bl: "\<forall>b \<in> set bs. length b = ?k"
      using groups_alloc_blocks_acc [OF bs assms(3)] by simp
    then have "length (concat bs) = nb * ?k"
      using len(2) by (simp add: length_concat sum_list_triv cong: map_cong)
    moreover have "n \<le> nb * ?k"
      by (auto simp: nb_def NGROUPS_PER_BLOCK_def)
    ultimately show ?thesis
      using bl len by (auto simp: gi gi_wf_def blocked_def groups_free_def)
  qed
  then show "gi_wf gi" "ngroups gi = n" "groups_free gi pages' = pages" by auto
qed

lemma groups_alloc_fail_no_leak:
  assumes "groups_alloc kmalloc get_page pages n = (None, pages')"
  shows "pages' = pages"
proof -
  have "pages' = pages" if "groups_alloc_blocks get_page 0 nb [] pages = (None, pages')" for nb
    using groups_alloc_blocks_pages [of get_page 0 nb "[]" pages None pages'] that by simp
  with assms show ?thesis
    by (auto simp: groups_alloc_def Let_def split: option.splits prod.splits if_splits)
qed

lemma copy_to_user_gids_ok:
  assumes "\<forall>i. off \<le> i \<and> i < off + length vs \<longrightarrow> u i \<noteq> None"
  shows "copy_to_user_gids u off vs
    = (True, \<lambda>i. if off \<le> i \<and> i < off + length vs then Some (vs ! (i - off)) else u i)"
  using assms
proof (induction vs arbitrary: off u)
  case (Cons v vs)
  obtain w where w: "u off = Some w" using Cons.prems by fastforce
  have "copy_to_user_gids u off (v # vs) = copy_to_user_gids (u(off \<mapsto> v)) (Suc off) vs"
    using w by simp
  also have "\<dots> = (True, \<lambda>i. if Suc off \<le> i \<and> i < Suc off + length vs then Some (vs ! (i - Suc off))
                              else (u(off \<mapsto> v)) i)"
    using Cons.prems by (intro Cons.IH) auto
  also have "\<dots> = (True, \<lambda>i. if off \<le> i \<and> i < off + length (v # vs) then Some ((v # vs) ! (i - off)) else u i)"
    by (auto simp: fun_eq_iff nth_Cons diff_Suc split: nat.splits)
  finally show ?case .
qed (auto simp: fun_eq_iff)

lemma groups_to_user_blocks_ok:
  assumes "blocked NGROUPS_PER_BLOCK bs" "n \<le> length (concat bs)"
    and "\<forall>i. off \<le> i \<and> i < off + n \<longrightarrow> u i \<noteq> None"
  shows "\<exists>u'. groups_to_user_blocks u off n bs = (None, u') \<and>
    (\<forall>i. u' i = (if off \<le> i \<and> i < off + n then Some (concat bs ! (i - off)) else u i))"
  using assms
proof (induction bs arbitrary: off n u)
  case (Cons b bs)
  let ?k = NGROUPS_PER_BLOCK
  let ?cp = "min ?k n"
  note bl = blocked_Cons [OF Cons.prems(1)]
  have len: "length (take ?cp b) = ?cp" "bs \<noteq> [] \<longrightarrow> length b = ?k" "blocked ?k bs"
    using bl Cons.prems(2) by (cases bs; auto)+
  define u1 where "u1 = (\<lambda>i. if off \<le> i \<and> i < off + ?cp then Some (b ! (i - off)) else u i)"
  have u1: "copy_to_user_gids u off (take ?cp b) = (True, u1)"
  proof -
    have "\<forall>i. off \<le> i \<and> i < off + length (take ?cp b) \<longrightarrow> u i \<noteq> None"
      using Cons.prems(3) unfolding len(1) by auto
    then have "copy_to_user_gids u off (take ?cp b)
        = (True, \<lambda>i. if off \<le> i \<and> i < off + ?cp then Some (take ?cp b ! (i - off)) else u i)"
      using copy_to_user_gids_ok [of off "take ?cp b" u] unfolding len(1) by blast
    moreover have "(\<lambda>i. if off \<le> i \<and> i < off + ?cp then Some (take ?cp b ! (i - off)) else u i) = u1"
      unfolding u1_def by (intro ext if_cong arg_cong [where f = Some] nth_take refl) linarith
    ultimately show ?thesis by simp
  qed
  have "\<exists>u'. groups_to_user_blocks u1 (off + ?k) (n - ?cp) bs = (None, u') \<and>
    (\<forall>i. u' i = (if off + ?k \<le> i \<and> i < off + ?k + (n - ?cp) then Some (concat bs ! (i - (off + ?k))) else u1 i))"
    using bl len Cons.prems(2,3) by (intro Cons.IH) (auto simp: u1_def)
  then obtain u' where u': "groups_to_user_blocks u1 (off + ?k) (n - ?cp) bs = (None, u')"
    "\<forall>i. u' i = (if off + ?k \<le> i \<and> i < off + ?k + (n - ?cp) then Some (concat bs ! (i - (off + ?k))) else u1 i)"
    by blast
  have "u' i = (if off \<le> i \<and> i < off + n then Some (concat (b # bs) ! (i - off)) else u i)" for i
    using u'(2) bl len Cons.prems(2) by (cases "bs = []") (auto simp: u1_def nth_append)
  with u1 u'(1) show ?case by auto
qed auto

lemma groups_to_user_ok:
  assumes "gi_wf gi" "\<forall>i < ngroups gi. u i \<noteq> None"
  shows "\<exists>u'. groups_to_user u gi = (None, u') \<and> map u' [0..<ngroups gi] = map Some (gi_list gi) \<and>
    (\<forall>i \<ge> ngroups gi. u' i = u i)"
proof -
  from assms have "\<exists>u'. groups_to_user_blocks u 0 (ngroups gi) (blocks gi) = (None, u') \<and>
    (\<forall>i. u' i = (if 0 \<le> i \<and> i < 0 + ngroups gi then Some (concat (blocks gi) ! (i - 0)) else u i))"
    by (intro groups_to_user_blocks_ok) (auto simp: gi_wf_def)
  then obtain u' where "groups_to_user_blocks u 0 (ngroups gi) (blocks gi) = (None, u')"
    "\<And>i. u' i = (if i < ngroups gi then Some (concat (blocks gi) ! i) else u i)"
    by auto
  with assms(1) show ?thesis
    by (intro exI [of _ u']) (auto simp: groups_to_user_def gi_list_def gi_wf_def intro: nth_equalityI)
qed

section \<open>Properties\<close>

text \<open>
  Allocation of a group array is balanced: a failed allocation returns every page it took,
  and a successful one gives a well-formed array of the requested size whose release returns
  every page.
\<close>

theorem groups_alloc_balanced:
  assumes "\<And>small. kmalloc = Some small \<Longrightarrow> length small = NGROUPS_SMALL"
    and "\<And>i b. get_page i = Some b \<Longrightarrow> length b = NGROUPS_PER_BLOCK"
  shows "case groups_alloc kmalloc get_page pages n of
           (None, pages') \<Rightarrow> pages' = pages
         | (Some gi, pages') \<Rightarrow> gi_wf gi \<and> ngroups gi = n \<and> groups_free gi pages' = pages"
  using groups_alloc_fail_no_leak [of kmalloc get_page pages n] groups_alloc_wf [of kmalloc get_page pages n] assms
  by (auto split: prod.splits option.splits)

theorem groups_alloc_balanced_witness:
  "\<exists>gi pages'. groups_alloc (Some (replicate 32 0)) (\<lambda>i. if i < 2 then Some (replicate 1024 0) else None) 5 1500
      = (Some gi, pages') \<and> groups_free gi pages' = 5"
proof -
  let ?g = "groups_alloc (Some (replicate 32 0)) (\<lambda>i. if i < 2 then Some (replicate 1024 0) else None) 5 1500"
  have "fst ?g \<noteq> None" by (simp add: groups_alloc_def NGROUPS_PER_BLOCK_def NGROUPS_SMALL_def numeral_2_eq_2 Let_def)
  then obtain gi pages' where g: "?g = (Some gi, pages')" by (cases ?g) auto
  have "case ?g of (None, pages') \<Rightarrow> pages' = 5
      | (Some gi, pages') \<Rightarrow> gi_wf gi \<and> ngroups gi = 1500 \<and> groups_free gi pages' = 5"
    by (rule groups_alloc_balanced) (auto simp: NGROUPS_SMALL_def NGROUPS_PER_BLOCK_def split: if_splits)
  with g show ?thesis by simp
qed

text \<open>
  The binary search subtracts group ids as signed 32-bit numbers: in a sorted array whose
  ids lie far apart it misses an id that is there.
\<close>

theorem groups_search_misses_far_member:
  "let gi = groups_sort \<lparr>ngroups = 3, nblocks = 1, on_small_block = True, blocks = [[0, 0x90000000, 1]]\<rparr>
   in gi_list gi = [0, 1, 0x90000000] \<and> \<not> groups_search (Some gi) 0x90000000"
  by code_simp

end
