(* ===== verification/Credentials.thy ===== *)
theory Credentials
  imports Capability_Sets Supplementary_Groups
begin

text \<open>
  Credentials of a task: \<open>struct cred\<close> (include/linux/cred.h), the current task's part of the
  kernel state, \<open>prepare_creds\<close>, \<open>commit_creds\<close>, \<open>override_creds\<close> and \<open>revert_creds\<close>
  (kernel/cred.c), \<open>capable\<close> (kernel/capability.c) with \<open>cap_capable\<close> (security/commoncap.c),
  group membership and the group system calls (kernel/groups.c).

  The security hooks are those of a kernel built without CONFIG_SECURITY, as the board's
  victory_03_defconfig is: \<open>security_capable\<close> is \<open>cap_capable\<close>, the checks of set*id and setgroups
  allow. The build options are fields of \<open>kconfig\<close>. Keyrings, process events and reference
  counts are not modelled.
\<close>

section \<open>State\<close>

record cred =
  cr_uid :: uid_t
  cr_gid :: gid_t
  cr_suid :: uid_t
  cr_sgid :: gid_t
  cr_euid :: uid_t
  cr_egid :: gid_t
  cr_fsuid :: uid_t
  cr_fsgid :: gid_t
  cr_securebits :: u32
  cap_inheritable :: kernel_cap_t
  cap_permitted :: kernel_cap_t
  cap_effective :: kernel_cap_t
  cap_bset :: kernel_cap_t
  cr_user :: uid_t
  cr_groups :: group_info

text \<open>
  The current task. \<open>real_cred\<close> is the objective credentials pointer's target; the subjective
  pointer \<open>task->cred\<close> differs from it exactly while \<open>overriding\<close> is set. \<open>bug_hit\<close> records that
  a \<open>BUG\<close> was reached.
\<close>

record task =
  t_pid :: int
  t_is_init :: bool
  real_cred :: cred
  overriding :: "cred option"
  pf_superpriv :: bool
  has_mm :: bool
  dumpable :: int
  pdeath_signal :: int
  nproc_limit :: nat
  bug_hit :: bool

record kernel =
  current :: task
  processes :: "uid_t \<Rightarrow> int"
  suid_dumpable :: int

text \<open>
  \<open>paranoid_network\<close> is CONFIG_ANDROID_PARANOID_NETWORK, \<open>file_capabilities\<close> is
  CONFIG_SECURITY_FILE_CAPABILITIES; \<open>can_switch_user\<close> is \<open>task_can_switch_user\<close>, which is the
  constant 1 without CONFIG_USER_SCHED and the scheduler's answer with it;
  \<open>file_caps_enabled\<close> is the boot-time switch of that name.
\<close>

record kconfig =
  paranoid_network :: bool
  file_capabilities :: bool
  file_caps_enabled :: bool
  can_switch_user :: "uid_t \<Rightarrow> task \<Rightarrow> bool"

definition victory_config :: kconfig where
  "victory_config =
     \<lparr>paranoid_network = True, file_capabilities = False, file_caps_enabled = True,
      can_switch_user = \<lambda>_ _. True\<rparr>"

text \<open>Outcomes of the memory allocations a call makes.\<close>

record alloc_env =
  cred_alloc :: bool
  uid_alloc :: bool

section \<open>Computations that may fail\<close>

type_synonym 'a kop = "kernel \<Rightarrow> 'a ret \<times> kernel"

definition kreturn :: "'a \<Rightarrow> 'a kop" where
  "kreturn v k = (Inr v, k)"

definition kthrow :: "errno \<Rightarrow> 'a kop" where
  "kthrow e k = (Inl e, k)"

definition kbind :: "'a kop \<Rightarrow> ('a \<Rightarrow> 'b kop) \<Rightarrow> 'b kop" where
  "kbind m f k = (case m k of (Inl e, k') \<Rightarrow> (Inl e, k') | (Inr v, k') \<Rightarrow> f v k')"

text \<open>Short-circuit \<open>b || c()\<close> for a test \<open>c\<close> with an effect, and \<open>if (!c()) goto error\<close>.\<close>

definition or_else :: "bool \<Rightarrow> (kernel \<Rightarrow> bool \<times> kernel) \<Rightarrow> kernel \<Rightarrow> bool \<times> kernel" where
  "or_else b c k = (if b then (True, k) else c k)"

definition require :: "(kernel \<Rightarrow> bool \<times> kernel) \<Rightarrow> errno \<Rightarrow> unit kop" where
  "require c e k = (case c k of (True, k') \<Rightarrow> (Inr (), k') | (False, k') \<Rightarrow> (Inl e, k'))"

section \<open>Current credentials\<close>

definition current_cred :: "kernel \<Rightarrow> cred" where
  "current_cred k =
     (case overriding (current k) of None \<Rightarrow> real_cred (current k) | Some c \<Rightarrow> c)"

definition bug :: "kernel \<Rightarrow> kernel" where
  "bug k = k\<lparr>current := (current k)\<lparr>bug_hit := True\<rparr>\<rparr>"

definition override_creds :: "cred \<Rightarrow> kernel \<Rightarrow> cred option \<times> kernel" where
  "override_creds new k =
     (overriding (current k), k\<lparr>current := (current k)\<lparr>overriding := Some new\<rparr>\<rparr>)"

definition revert_creds :: "cred option \<Rightarrow> kernel \<Rightarrow> kernel" where
  "revert_creds old k = k\<lparr>current := (current k)\<lparr>overriding := old\<rparr>\<rparr>"

definition issecure_mask :: "nat \<Rightarrow> u32" where
  "issecure_mask x = push_bit x 1"

definition issecure :: "nat \<Rightarrow> kernel \<Rightarrow> bool" where
  "issecure x k \<longleftrightarrow> issecure_mask x AND cr_securebits (current_cred k) \<noteq> 0"

definition SECURE_NOROOT :: nat where "SECURE_NOROOT = 0"
definition SECURE_NO_SETUID_FIXUP :: nat where "SECURE_NO_SETUID_FIXUP = 2"
definition SECURE_KEEP_CAPS :: nat where "SECURE_KEEP_CAPS = 4"
definition SECURE_KEEP_CAPS_LOCKED :: nat where "SECURE_KEEP_CAPS_LOCKED = 5"

definition SECURE_ALL_BITS :: u32 where
  "SECURE_ALL_BITS = issecure_mask SECURE_NOROOT OR issecure_mask SECURE_NO_SETUID_FIXUP
     OR issecure_mask SECURE_KEEP_CAPS"

definition SECURE_ALL_LOCKS :: u32 where
  "SECURE_ALL_LOCKS = push_bit 1 SECURE_ALL_BITS"

lemmas SECURE_numbers =
  SECURE_NOROOT_def SECURE_NO_SETUID_FIXUP_def SECURE_KEEP_CAPS_def SECURE_KEEP_CAPS_LOCKED_def

section \<open>Group membership\<close>

definition in_group_p :: "gid_t \<Rightarrow> kernel \<Rightarrow> bool" where
  "in_group_p grp k =
     (let c = current_cred k
      in if grp \<noteq> cr_fsgid c then groups_search (Some (cr_groups c)) grp else True)"

definition in_egroup_p :: "gid_t \<Rightarrow> kernel \<Rightarrow> bool" where
  "in_egroup_p grp k =
     (let c = current_cred k
      in if grp \<noteq> cr_egid c then groups_search (Some (cr_groups c)) grp else True)"

section \<open>Capability checks\<close>

definition AID_NET_RAW :: gid_t where "AID_NET_RAW = 3004"
definition AID_NET_ADMIN :: gid_t where "AID_NET_ADMIN = 3005"

text \<open>
  \<open>cap_capable\<close> returns 0 or \<open>-EPERM\<close>; here it is true for 0. The group tests of the Android
  option look at the current task, whatever credentials are passed.
\<close>

definition cap_capable :: "kconfig \<Rightarrow> kernel \<Rightarrow> cred \<Rightarrow> nat \<Rightarrow> bool" where
  "cap_capable kc k c cap =
     (if paranoid_network kc \<and> cap = CAP_NET_RAW \<and> in_egroup_p AID_NET_RAW k then True
      else if paranoid_network kc \<and> cap = CAP_NET_ADMIN \<and> in_egroup_p AID_NET_ADMIN k then True
      else cap_raised (cap_effective c) cap)"

definition capable :: "kconfig \<Rightarrow> nat \<Rightarrow> kernel \<Rightarrow> bool \<times> kernel" where
  "capable kc cap k =
     (if \<not> cap_valid cap then (False, bug k)
      else if cap_capable kc k (current_cred k) cap
      then (True, k\<lparr>current := (current k)\<lparr>pf_superpriv := True\<rparr>\<rparr>)
      else (False, k))"

section \<open>Preparing and committing credentials\<close>

definition prepare_creds :: "alloc_env \<Rightarrow> kernel \<Rightarrow> cred option" where
  "prepare_creds env k = (if cred_alloc env then Some (current_cred k) else None)"

definition commit_creds :: "cred \<Rightarrow> int kop" where
  "commit_creds new k =
     (let old = real_cred (current k);
          k = (if overriding (current k) \<noteq> None then bug k else k);
          k = (if cr_euid old \<noteq> cr_euid new \<or> cr_egid old \<noteq> cr_egid new \<or>
                  cr_fsuid old \<noteq> cr_fsuid new \<or> cr_fsgid old \<noteq> cr_fsgid new \<or>
                  \<not> cap_issubset (cap_permitted new) (cap_permitted old)
               then k\<lparr>current := (current k)
                      \<lparr>dumpable := (if has_mm (current k) then suid_dumpable k
                                    else dumpable (current k)),
                       pdeath_signal := 0\<rparr>\<rparr>
               else k);
          k = (if cr_user new \<noteq> cr_user old
               then k\<lparr>processes := (processes k)(cr_user new := processes k (cr_user new) + 1)\<rparr>
               else k);
          k = k\<lparr>current := (current k)\<lparr>real_cred := new, overriding := None\<rparr>\<rparr>;
          k = (if cr_user new \<noteq> cr_user old
               then k\<lparr>processes := (processes k)(cr_user old := processes k (cr_user old) - 1)\<rparr>
               else k)
      in (Inr 0, k))"

text \<open>
  The frame of every credential system call: prepare a copy, fail with \<open>ENOMEM\<close> without one,
  and hand the old and the new credentials to the body; the body's error aborts the copy.
\<close>

definition with_new_creds :: "alloc_env \<Rightarrow> (cred \<Rightarrow> cred \<Rightarrow> 'a kop) \<Rightarrow> 'a kop" where
  "with_new_creds env body k =
     (case prepare_creds env k of
        None \<Rightarrow> (Inl ENOMEM, k)
      | Some new \<Rightarrow> body (current_cred k) new k)"

text \<open>The credentials and groups the kernel boots with.\<close>

definition init_groups :: group_info where
  "init_groups = \<lparr>ngroups = 0, nblocks = 0, on_small_block = False, blocks = []\<rparr>"

definition CAP_INIT_BSET :: "kconfig \<Rightarrow> kernel_cap_t" where
  "CAP_INIT_BSET kc = (if file_capabilities kc then cap_full_set else cap_init_eff_set)"

definition init_cred :: "kconfig \<Rightarrow> cred" where
  "init_cred kc =
     \<lparr>cr_uid = 0, cr_gid = 0, cr_suid = 0, cr_sgid = 0, cr_euid = 0, cr_egid = 0, cr_fsuid = 0,
      cr_fsgid = 0, cr_securebits = 0, cap_inheritable = cap_empty_set,
      cap_permitted = cap_full_set, cap_effective = cap_init_eff_set,
      cap_bset = CAP_INIT_BSET kc, cr_user = 0, cr_groups = init_groups\<rparr>"

text \<open>The state of a process other than init with given credentials, and outcomes of allocation
  that all succeed; concrete inputs for examples.\<close>

definition running :: "cred \<Rightarrow> kernel" where
  "running c =
     \<lparr>current = \<lparr>t_pid = 2, t_is_init = False, real_cred = c, overriding = None,
        pf_superpriv = False, has_mm = True, dumpable = 1, pdeath_signal = 0, nproc_limit = 100,
        bug_hit = False\<rparr>,
      processes = \<lambda>_. 1, suid_dumpable = 0\<rparr>"

definition user_cred :: "uid_t \<Rightarrow> cred" where
  "user_cred u = (init_cred victory_config)
     \<lparr>cr_uid := u, cr_gid := u, cr_suid := u, cr_sgid := u, cr_euid := u, cr_egid := u,
      cr_fsuid := u, cr_fsgid := u, cr_user := u, cap_permitted := cap_empty_set,
      cap_effective := cap_empty_set\<rparr>"

definition alloc_ok :: alloc_env where
  "alloc_ok = \<lparr>cred_alloc = True, uid_alloc = True\<rparr>"

section \<open>Group system calls\<close>

definition set_groups :: "cred \<Rightarrow> group_info \<Rightarrow> cred" where
  "set_groups new gi = new\<lparr>cr_groups := groups_sort gi\<rparr>"

definition set_current_groups :: "alloc_env \<Rightarrow> group_info \<Rightarrow> int kop" where
  "set_current_groups env gi =
     with_new_creds env (\<lambda>old new. commit_creds (set_groups new gi))"

text \<open>
  The page counter of the group arrays is left to \<open>groups_alloc\<close>; \<open>kmalloc\<close> and \<open>get_page\<close> are
  the outcomes of its allocations.
\<close>

definition sys_setgroups ::
  "kconfig \<Rightarrow> alloc_env \<Rightarrow> gid_t list option \<Rightarrow> (nat \<Rightarrow> gid_t list option) \<Rightarrow> int \<Rightarrow> user_gids
     \<Rightarrow> int kop" where
  "sys_setgroups kc env kmalloc get_page gidsetsize grouplist =
     kbind (require (capable kc CAP_SETGID) EPERM) (\<lambda>_.
       if gidsetsize < 0 \<or> int NGROUPS_MAX < gidsetsize then kthrow EINVAL
       else (case fst (groups_alloc kmalloc get_page 0 (nat gidsetsize)) of
               None \<Rightarrow> kthrow ENOMEM
             | Some gi \<Rightarrow>
                 (case groups_from_user gi grouplist of
                    Inl e \<Rightarrow> kthrow e
                  | Inr gi' \<Rightarrow> set_current_groups env gi')))"

definition sys_getgroups :: "kernel \<Rightarrow> int \<Rightarrow> user_gids \<Rightarrow> int ret \<times> user_gids" where
  "sys_getgroups k gidsetsize grouplist =
     (if gidsetsize < 0 then (Inl EINVAL, grouplist)
      else let gi = cr_groups (current_cred k); i = int (ngroups gi)
           in if gidsetsize \<noteq> 0
              then if i > gidsetsize then (Inl EINVAL, grouplist)
                   else (case groups_to_user grouplist gi of
                           (Some _, u) \<Rightarrow> (Inl EFAULT, u)
                         | (None, u) \<Rightarrow> (Inr i, u))
              else (Inr i, grouplist))"

section \<open>Frame facts\<close>

text \<open>Two states with the same credentials, bookkeeping of the task aside.\<close>

definition same_creds :: "kernel \<Rightarrow> kernel \<Rightarrow> bool" where
  "same_creds k k' \<longleftrightarrow> real_cred (current k') = real_cred (current k) \<and>
     overriding (current k') = overriding (current k) \<and> processes k' = processes k \<and>
     nproc_limit (current k') = nproc_limit (current k) \<and> t_is_init (current k') = t_is_init (current k) \<and>
     bug_hit (current k') = bug_hit (current k)"

lemma same_creds_refl [simp]: "same_creds k k"
  by (simp add: same_creds_def)

lemma same_creds_trans: "same_creds a b \<Longrightarrow> same_creds b c \<Longrightarrow> same_creds a c"
  by (simp add: same_creds_def)

lemma same_creds_current [cred_frame]: "same_creds k k' \<Longrightarrow> current_cred k' = current_cred k"
  by (auto simp: same_creds_def current_cred_def split: option.splits)

lemma same_creds_capable:
  "same_creds k k' \<Longrightarrow> cap_capable kc k' c cap = cap_capable kc k c cap"
  by (simp add: cap_capable_def in_egroup_p_def same_creds_current)

lemma same_creds_issecure: "same_creds k k' \<Longrightarrow> issecure x k' = issecure x k"
  by (simp add: issecure_def same_creds_current)

lemma capable_cases:
  assumes "capable kc cap k = (b, k')" "cap_valid cap"
  shows "same_creds k k'" "b \<longleftrightarrow> cap_capable kc k (current_cred k) cap"
  using assms by (auto simp: capable_def same_creds_def split: if_splits)

lemma fst_capable [simp]:
  "cap_valid cap \<Longrightarrow> fst (capable kc cap k) = cap_capable kc k (current_cred k) cap"
  by (simp add: capable_def)

lemma same_creds_capable_snd [simp]: "cap_valid cap \<Longrightarrow> same_creds k (snd (capable kc cap k))"
  by (simp add: capable_def same_creds_def)

lemma CAP_valid [simp]:
  "cap_valid CAP_SETGID" "cap_valid CAP_SETUID" "cap_valid CAP_SETPCAP" "cap_valid CAP_CHOWN"
  "cap_valid CAP_DAC_OVERRIDE" "cap_valid CAP_DAC_READ_SEARCH" "cap_valid CAP_FOWNER"
  "cap_valid CAP_FSETID" "cap_valid CAP_SYS_PTRACE" "cap_valid CAP_SYS_TIME" "cap_valid CAP_SYS_NICE"
  "cap_valid CAP_SYS_ADMIN" "cap_valid CAP_SETFCAP" "cap_valid CAP_SYS_RAWIO"
  by (simp_all add: cap_valid_def CAP_numbers)

lemma kbind_Inr:
  "kbind m f k = (r, k') \<longleftrightarrow>
     (\<exists>e. m k = (Inl e, k') \<and> r = Inl e) \<or> (\<exists>v k1. m k = (Inr v, k1) \<and> f v k1 = (r, k'))"
  by (auto simp: kbind_def split: prod.splits sum.splits)

lemma require_or_else:
  assumes "require (or_else b (capable kc cap)) e k = (r, k')" "cap_valid cap"
  shows "same_creds k k'" "r = (if b \<or> cap_capable kc k (current_cred k) cap then Inr () else Inl e)"
  using assms by (auto simp: require_def or_else_def capable_def same_creds_def split: if_splits)

lemma require_capable:
  assumes "require (capable kc cap) e k = (r, k')" "cap_valid cap"
  shows "same_creds k k'" "r = (if cap_capable kc k (current_cred k) cap then Inr () else Inl e)"
  using assms by (auto simp: require_def capable_def same_creds_def split: if_splits)

lemma require_capable_conj:
  "require (capable kc cap) e k = (r, k') \<Longrightarrow> cap_valid cap \<Longrightarrow>
     same_creds k k' \<and> r = (if cap_capable kc k (current_cred k) cap then Inr () else Inl e)"
  using require_capable by blast

lemma with_new_creds_eq:
  "with_new_creds env body k = (r, k') \<longleftrightarrow>
     (\<not> cred_alloc env \<and> r = Inl ENOMEM \<and> k' = k) \<or>
     (cred_alloc env \<and> body (current_cred k) (current_cred k) k = (r, k'))"
  by (auto simp: with_new_creds_def prepare_creds_def)

lemma commit_creds_result [simp]: "fst (commit_creds new k) = Inr 0"
  by (simp add: commit_creds_def Let_def)

lemma commit_creds_installs [cred_frame, simp]:
  "real_cred (current (snd (commit_creds new k))) = new"
  "overriding (current (snd (commit_creds new k))) = None"
  "current_cred (snd (commit_creds new k)) = new"
  by (simp_all add: commit_creds_def Let_def current_cred_def)

lemma commit_creds_eq:
  "commit_creds new k = (r, k') \<Longrightarrow> r = Inr 0 \<and> current_cred k' = new \<and> real_cred (current k') = new"
  using commit_creds_result [of new k] commit_creds_installs [of new k] by (metis fst_conv snd_conv)

lemma commit_creds_no_bug:
  "overriding (current k) = None \<Longrightarrow> bug_hit (current (snd (commit_creds new k))) = bug_hit (current k)"
  by (simp add: commit_creds_def Let_def)

text \<open>Committing moves one process from the old to the new user account.\<close>

lemma commit_creds_processes:
  "processes (snd (commit_creds new k)) u = processes k u
     + (if cr_user new \<noteq> cr_user (real_cred (current k))
        then (if u = cr_user new then 1 else 0) - (if u = cr_user (real_cred (current k)) then 1 else 0)
        else 0)"
  by (simp add: commit_creds_def Let_def bug_def)

lemma commit_creds_unchanged_flags:
  "t_is_init (current (snd (commit_creds new k))) = t_is_init (current k)"
  "nproc_limit (current (snd (commit_creds new k))) = nproc_limit (current k)"
  by (simp_all add: commit_creds_def Let_def bug_def)

section \<open>Group membership after setgroups\<close>

lemma set_groups_membership:
  assumes "gi_wf gi" "gid_window grp (gi_list gi)"
  shows "groups_search (Some (cr_groups (set_groups new gi))) grp \<longleftrightarrow> grp \<in> set (gi_list gi)"
proof -
  note s = groups_sort_correct [OF assms(1)]
  have "set (gi_list (groups_sort gi)) = set (gi_list gi)"
    using s(3) by (metis set_mset_mset)
  with s assms(2) show ?thesis
    by (simp add: set_groups_def groups_search_correct gid_window_def)
qed

lemma sys_setgroups_Inr:
  assumes "sys_setgroups kc env kmalloc get_page n grouplist k = (Inr r, k')"
  obtains gi gi' pages where "groups_alloc kmalloc get_page 0 (nat n) = (Some gi, pages)" "0 \<le> n"
    "groups_from_user gi grouplist = Inr gi'"
    "current_cred k' = set_groups (current_cred k) gi'" "cap_capable kc k (current_cred k) CAP_SETGID"
proof -
  obtain k1 where req: "require (capable kc CAP_SETGID) EPERM k = (Inr (), k1)"
    and body: "(if n < 0 \<or> int NGROUPS_MAX < n then kthrow EINVAL
       else (case fst (groups_alloc kmalloc get_page 0 (nat n)) of None \<Rightarrow> kthrow ENOMEM
             | Some gi \<Rightarrow> (case groups_from_user gi grouplist of Inl e \<Rightarrow> kthrow e
                  | Inr gi' \<Rightarrow> set_current_groups env gi'))) k1 = (Inr r, k')"
    using assms by (auto simp: sys_setgroups_def kbind_Inr)
  note k1 = require_capable [OF req]
  from body obtain gi pages gi' where *: "groups_alloc kmalloc get_page 0 (nat n) = (Some gi, pages)"
    "0 \<le> n" "groups_from_user gi grouplist = Inr gi'" "set_current_groups env gi' k1 = (Inr r, k')"
    by (cases "groups_alloc kmalloc get_page 0 (nat n)")
      (auto simp: kthrow_def split: if_splits option.splits sum.splits)
  from *(4) have "current_cred k' = set_groups (current_cred k1) gi'"
    by (auto simp: set_current_groups_def with_new_creds_def prepare_creds_def split: if_splits)
      (metis commit_creds_installs(3) snd_conv)
  with * k1 that show thesis
    by (auto simp: same_creds_current split: if_splits)
qed

section \<open>Properties of the group calls\<close>

lemma sys_setgroups_gids:
  assumes "sys_setgroups kc env kmalloc get_page n grouplist k = (Inr r, k')"
    and "\<And>small. kmalloc = Some small \<Longrightarrow> length small = NGROUPS_SMALL"
    and "\<And>i b. get_page i = Some b \<Longrightarrow> length b = NGROUPS_PER_BLOCK"
  obtains gi where "gi_wf gi" "current_cred k' = set_groups (current_cred k) gi" "0 \<le> n" "ngroups gi = nat n"
    "map Some (gi_list gi) = map grouplist [0..<nat n]"
proof -
  from assms(1) obtain gi gi' pages where *: "groups_alloc kmalloc get_page 0 (nat n) = (Some gi, pages)" "0 \<le> n"
    "groups_from_user gi grouplist = Inr gi'" "current_cred k' = set_groups (current_cred k) gi'"
    by (rule sys_setgroups_Inr)
  have "gi_wf gi" "ngroups gi = nat n"
    using groups_alloc_wf [OF *(1)] assms(2,3) by auto
  with groups_from_user_Inr [OF *(3)] show thesis
    by (intro that [of gi']) (use * in auto)
qed

text \<open>
  C34. After a successful setgroups, exactly the listed groups and the file-system group count as
  the caller's groups, for group ids that differ by less than 2^31 from every listed one.
\<close>

theorem setgroups_membership:
  assumes "sys_setgroups kc env kmalloc get_page n grouplist k = (Inr r, k')"
    and "\<And>small. kmalloc = Some small \<Longrightarrow> length small = NGROUPS_SMALL"
    and "\<And>i b. get_page i = Some b \<Longrightarrow> length b = NGROUPS_PER_BLOCK"
    and "gid_window grp (map (the \<circ> grouplist) [0..<nat n])"
  shows "in_group_p grp k' \<longleftrightarrow>
    grp = cr_fsgid (current_cred k) \<or> Some grp \<in> set (map grouplist [0..<nat n])"
proof -
  from assms(1-3) obtain gi where gi: "gi_wf gi" "current_cred k' = set_groups (current_cred k) gi"
    "map Some (gi_list gi) = map grouplist [0..<nat n]"
    by (rule sys_setgroups_gids)
  have "map (the \<circ> grouplist) [0..<nat n] = map the (map grouplist [0..<nat n])"
    by (simp only: map_map)
  also have "\<dots> = gi_list gi" by (simp only: gi(3) [symmetric] map_map) (simp add: comp_def)
  finally have "gid_window grp (gi_list gi)" using assms(4) by simp
  moreover have "Some grp \<in> set (map grouplist [0..<nat n]) \<longleftrightarrow> grp \<in> set (gi_list gi)"
    by (simp only: gi(3) [symmetric]) auto
  moreover have "cr_fsgid (current_cred k') = cr_fsgid (current_cred k)"
    "cr_groups (current_cred k') = cr_groups (set_groups (current_cred k) gi)"
    by (simp_all add: gi(2) set_groups_def)
  ultimately show ?thesis
    using set_groups_membership [OF gi(1)] by (simp add: in_group_p_def Let_def)
qed

text \<open>
  What setgroups stored, getgroups returns: the same ids with the same multiplicities, in
  ascending order, and their number, when the caller's buffer holds them.
\<close>

theorem getgroups_after_setgroups:
  assumes "sys_setgroups kc env kmalloc get_page n grouplist k = (Inr r, k')"
    and "\<And>small. kmalloc = Some small \<Longrightarrow> length small = NGROUPS_SMALL"
    and "\<And>i b. get_page i = Some b \<Longrightarrow> length b = NGROUPS_PER_BLOCK"
    and "n \<le> room" "0 < room" "\<forall>i < nat n. buf i \<noteq> None"
  shows "\<exists>buf' gids. sys_getgroups k' room buf = (Inr n, buf') \<and> map buf' [0..<nat n] = map Some gids \<and>
    sorted gids \<and> mset (map Some gids) = mset (map grouplist [0..<nat n])"
proof -
  from assms(1-3) obtain gi where gi: "gi_wf gi" "current_cred k' = set_groups (current_cred k) gi" "0 \<le> n"
    "ngroups gi = nat n" "map Some (gi_list gi) = map grouplist [0..<nat n]"
    by (rule sys_setgroups_gids)
  note s = groups_sort_correct [OF gi(1)]
  have cg: "cr_groups (current_cred k') = groups_sort gi" by (simp add: gi(2) set_groups_def)
  obtain buf' where "groups_to_user buf (groups_sort gi) = (None, buf')"
    "map buf' [0..<nat n] = map Some (gi_list (groups_sort gi))"
    using groups_to_user_ok [OF s(1), of buf] s(2) gi(4) assms(6) by auto
  moreover have "mset (map Some (gi_list (groups_sort gi))) = mset (map grouplist [0..<nat n])"
    using s(3) gi(5) by (metis mset_map)
  ultimately show ?thesis
    using s gi(3,4) assms(4,5) by (auto simp: sys_getgroups_def Let_def cg)
qed

definition three_gids :: user_gids where
  "three_gids i = (if i = 0 then Some 3003 else if i = 1 then Some 1015 else if i = 2 then Some 3001 else None)"

lemma setgroups_three_gids:
  "\<exists>k'. sys_setgroups victory_config alloc_ok (Some (replicate 32 0)) (\<lambda>_. None) 3 three_gids
           (running (init_cred victory_config)) = (Inr 0, k')"
proof -
  let ?k = "running (init_cred victory_config)"
  have "fst (capable victory_config CAP_SETGID ?k)" by code_simp
  then obtain k1 where k1: "capable victory_config CAP_SETGID ?k = (True, k1)" by (metis prod.collapse)
  obtain gi where gi: "fst (groups_alloc (Some (replicate 32 0)) (\<lambda>_. None) 0 3) = Some gi" "blocks gi = [replicate 32 0]"
    "ngroups gi = 3"
    by (simp add: groups_alloc_def NGROUPS_SMALL_def Let_def)
  have "groups_from_user gi three_gids = Inr (gi\<lparr>blocks := [[3003, 1015, 3001] @ replicate 29 0]\<rparr>)"
    by (simp add: groups_from_user_def gi NGROUPS_PER_BLOCK_def three_gids_def numeral_3_eq_3)
  with k1 gi(1) have "fst (sys_setgroups victory_config alloc_ok (Some (replicate 32 0)) (\<lambda>_. None) 3 three_gids ?k) = Inr 0"
    by (simp add: sys_setgroups_def kbind_def require_def NGROUPS_MAX_def set_current_groups_def
        with_new_creds_def prepare_creds_def alloc_ok_def)
  then show ?thesis by (metis prod.collapse)
qed

theorem setgroups_membership_witness:
  "\<exists>k'. sys_setgroups victory_config alloc_ok (Some (replicate 32 0)) (\<lambda>_. None) 3 three_gids
           (running (init_cred victory_config)) = (Inr 0, k') \<and> in_group_p 1015 k' \<and> \<not> in_group_p 1016 k'"
proof -
  let ?c = "sys_setgroups victory_config alloc_ok (Some (replicate 32 0)) (\<lambda>_. None) 3 three_gids
           (running (init_cred victory_config))"
  obtain k' where k': "?c = (Inr 0, k')" using setgroups_three_gids by blast
  have u: "[0..<nat 3] = [0, 1, 2]" "cr_fsgid (current_cred (running (init_cred victory_config))) = 0" by code_simp+
  have "in_group_p g k' \<longleftrightarrow> g = 0 \<or> Some g \<in> set (map three_gids [0..<nat 3])" if "g = 1015 \<or> g = 1016" for g
    unfolding u(2) [symmetric]
    by (rule setgroups_membership [OF k'])
      (use that in \<open>auto simp: NGROUPS_SMALL_def gid_window_def u three_gids_def\<close>)
  from this [of 1015] this [of 1016] k' show ?thesis by (auto simp: u three_gids_def)
qed

theorem getgroups_after_setgroups_witness:
  "\<exists>k' buf' gids. sys_setgroups victory_config alloc_ok (Some (replicate 32 0)) (\<lambda>_. None) 3 three_gids
           (running (init_cred victory_config)) = (Inr 0, k') \<and>
     sys_getgroups k' 8 (\<lambda>_. Some 0) = (Inr 3, buf') \<and> map buf' [0, 1, 2] = map Some gids \<and> sorted gids"
proof -
  let ?c = "sys_setgroups victory_config alloc_ok (Some (replicate 32 0)) (\<lambda>_. None) 3 three_gids
           (running (init_cred victory_config))"
  obtain k' where k': "?c = (Inr 0, k')" using setgroups_three_gids by blast
  have u: "[0..<nat 3] = [0, 1, 2]" by code_simp
  have "\<exists>buf' gids. sys_getgroups k' 8 (\<lambda>_. Some 0) = (Inr 3, buf') \<and> map buf' [0..<nat 3] = map Some gids \<and>
    sorted gids \<and> mset (map Some gids) = mset (map three_gids [0..<nat 3])"
    by (rule getgroups_after_setgroups [OF k']) (auto simp: NGROUPS_SMALL_def)
  with k' show ?thesis unfolding u by blast
qed

end
