(* ===== verification/Commoncap.thy ===== *)
theory Commoncap
  imports Credentials
begin

text \<open>
  The capability module, security/commoncap.c: capget and capset validation, the credentials of
  execve, the fix-up after a change of user id, the prctl interface, and the permission hooks.
  A hook that returns 0 or an error is a \<open>kop\<close>; \<open>capable\<close> may mark the task, so the hooks pass
  the kernel state on. Auditing is off, as in the board's configuration, and printk is left out.
\<close>

section \<open>Simple hooks\<close>

definition cap_netlink_send :: "kernel \<Rightarrow> kernel_cap_t" where
  "cap_netlink_send k = cap_effective (current_cred k)"

definition cap_netlink_recv :: "kernel_cap_t \<Rightarrow> nat \<Rightarrow> unit ret" where
  "cap_netlink_recv eff_cap cap = (if \<not> cap_raised eff_cap cap then Inl EPERM else Inr ())"

definition cap_settime :: "kconfig \<Rightarrow> unit kop" where
  "cap_settime kc = require (capable kc CAP_SYS_TIME) EPERM"

text \<open>\<open>child\<close> and \<open>parent\<close> are the objective credentials of the other task.\<close>

definition cap_ptrace_access_check :: "kconfig \<Rightarrow> cred \<Rightarrow> unit kop" where
  "cap_ptrace_access_check kc child k =
     require (or_else (cap_issubset (cap_permitted child) (cap_permitted (current_cred k)))
                (capable kc CAP_SYS_PTRACE)) EPERM k"

definition cap_ptrace_traceme :: "kconfig \<Rightarrow> cred \<Rightarrow> unit kop" where
  "cap_ptrace_traceme kc parent k =
     (if \<not> cap_issubset (cap_permitted (current_cred k)) (cap_permitted parent) \<and>
         \<not> cap_capable kc k parent CAP_SYS_PTRACE
      then (Inl EPERM, k) else (Inr (), k))"

definition cap_capget :: "cred \<Rightarrow> kernel_cap_t \<times> kernel_cap_t \<times> kernel_cap_t" where
  "cap_capget target = (cap_effective target, cap_inheritable target, cap_permitted target)"

definition cap_safe_nice :: "kconfig \<Rightarrow> cred \<Rightarrow> unit kop" where
  "cap_safe_nice kc p k =
     require (or_else (cap_issubset (cap_permitted p) (cap_permitted (current_cred k)))
                (capable kc CAP_SYS_NICE)) EPERM k"

definition cap_task_setscheduler :: "kconfig \<Rightarrow> cred \<Rightarrow> unit kop" where
  "cap_task_setscheduler kc p = (if file_capabilities kc then cap_safe_nice kc p else kreturn ())"

definition cap_task_setioprio :: "kconfig \<Rightarrow> cred \<Rightarrow> unit kop" where
  "cap_task_setioprio kc p = (if file_capabilities kc then cap_safe_nice kc p else kreturn ())"

definition cap_task_setnice :: "kconfig \<Rightarrow> cred \<Rightarrow> unit kop" where
  "cap_task_setnice kc p = (if file_capabilities kc then cap_safe_nice kc p else kreturn ())"

definition XATTR_SECURITY_PREFIX :: string where "XATTR_SECURITY_PREFIX = ''security.''"
definition XATTR_NAME_CAPS :: string where "XATTR_NAME_CAPS = ''security.capability''"

definition cap_inode_setxattr :: "kconfig \<Rightarrow> string \<Rightarrow> unit kop" where
  "cap_inode_setxattr kc name =
     (if name = XATTR_NAME_CAPS then require (capable kc CAP_SETFCAP) EPERM
      else if take (length XATTR_SECURITY_PREFIX) name = XATTR_SECURITY_PREFIX
      then require (capable kc CAP_SYS_ADMIN) EPERM
      else kreturn ())"

definition cap_inode_removexattr :: "kconfig \<Rightarrow> string \<Rightarrow> unit kop" where
  "cap_inode_removexattr kc name =
     (if name = XATTR_NAME_CAPS then require (capable kc CAP_SETFCAP) EPERM
      else if take (length XATTR_SECURITY_PREFIX) name = XATTR_SECURITY_PREFIX
      then require (capable kc CAP_SYS_ADMIN) EPERM
      else kreturn ())"

definition cap_syslog :: "kconfig \<Rightarrow> int \<Rightarrow> unit kop" where
  "cap_syslog kc type =
     (if type \<noteq> 3 \<and> type \<noteq> 10 then require (capable kc CAP_SYS_ADMIN) EPERM else kreturn ())"

text \<open>\<open>vm_enough\<close> stands for \<open>__vm_enough_memory\<close>, which is told whether the task is privileged.\<close>

definition cap_vm_enough_memory :: "kconfig \<Rightarrow> (bool \<Rightarrow> unit ret) \<Rightarrow> kernel \<Rightarrow> unit ret" where
  "cap_vm_enough_memory kc vm_enough k =
     vm_enough (cap_capable kc k (current_cred k) CAP_SYS_ADMIN)"

definition cap_file_mmap :: "kconfig \<Rightarrow> u32 \<Rightarrow> u32 \<Rightarrow> unit kop" where
  "cap_file_mmap kc dac_mmap_min_addr addr k =
     (if addr < dac_mmap_min_addr
      then if cap_capable kc k (current_cred k) CAP_SYS_RAWIO
           then (Inr (), k\<lparr>current := (current k)\<lparr>pf_superpriv := True\<rparr>\<rparr>)
           else (Inl EPERM, k)
      else (Inr (), k))"

section \<open>capset\<close>

definition cap_inh_is_capped :: "kconfig \<Rightarrow> kernel \<Rightarrow> bool" where
  "cap_inh_is_capped kc k =
     (if file_capabilities kc \<and> cap_capable kc k (current_cred k) CAP_SETPCAP then False else True)"

definition cap_capset ::
  "kconfig \<Rightarrow> kernel \<Rightarrow> cred \<Rightarrow> cred \<Rightarrow> kernel_cap_t \<Rightarrow> kernel_cap_t \<Rightarrow> kernel_cap_t \<Rightarrow> cred ret" where
  "cap_capset kc k new old effective inheritable permitted =
     (if cap_inh_is_capped kc k \<and>
         \<not> cap_issubset inheritable (cap_combine (cap_inheritable old) (cap_permitted old))
      then Inl EPERM
      else if \<not> cap_issubset inheritable (cap_combine (cap_inheritable old) (cap_bset old))
      then Inl EPERM
      else if \<not> cap_issubset permitted (cap_permitted old) then Inl EPERM
      else if \<not> cap_issubset effective permitted then Inl EPERM
      else Inr (new\<lparr>cap_effective := effective, cap_inheritable := inheritable,
                    cap_permitted := permitted\<rparr>))"

section \<open>execve\<close>

text \<open>
  The value of the capability attribute as read from disk: the length \<open>getxattr\<close> returned and
  the fields of \<open>struct vfs_cap_data\<close> after conversion from little endian.
\<close>

record vfs_cap_data =
  vc_size :: nat
  vc_magic_etc :: u32
  vc_permitted0 :: u32
  vc_inheritable0 :: u32
  vc_permitted1 :: u32
  vc_inheritable1 :: u32

record cpu_vfs_cap_data =
  magic_etc :: u32
  vfs_permitted :: kernel_cap_t
  vfs_inheritable :: kernel_cap_t

text \<open>
  The part of \<open>struct linux_binprm\<close> that decides on credentials. \<open>bprm_xattr\<close> is the answer of
  the inode's \<open>getxattr\<close>, \<open>None\<close> when the file system has none.
\<close>

record linux_binprm =
  bprm_cred :: cred
  bprm_cap_effective :: bool
  bprm_unsafe :: u32
  bprm_nosuid :: bool
  bprm_has_f_op :: bool
  bprm_mode :: u16
  bprm_i_uid :: uid_t
  bprm_i_gid :: gid_t
  bprm_xattr :: "(errno + vfs_cap_data) option"

definition cap_inode_need_killpriv :: "kconfig \<Rightarrow> int option \<Rightarrow> int" where
  "cap_inode_need_killpriv kc getxattr =
     (if \<not> file_capabilities kc then 0
      else case getxattr of None \<Rightarrow> 0 | Some error \<Rightarrow> if error \<le> 0 then 0 else 1)"

definition cap_inode_killpriv :: "kconfig \<Rightarrow> unit ret option \<Rightarrow> unit ret" where
  "cap_inode_killpriv kc removexattr =
     (if \<not> file_capabilities kc then Inr ()
      else case removexattr of None \<Rightarrow> Inr () | Some r \<Rightarrow> r)"

definition bprm_clear_caps :: "linux_binprm \<Rightarrow> linux_binprm" where
  "bprm_clear_caps bprm =
     bprm\<lparr>bprm_cred := (bprm_cred bprm)\<lparr>cap_permitted := cap_empty_set\<rparr>, bprm_cap_effective := False\<rparr>"

definition VFS_CAP_FLAGS_EFFECTIVE :: u32 where "VFS_CAP_FLAGS_EFFECTIVE = 1"
definition VFS_CAP_REVISION_MASK :: u32 where "VFS_CAP_REVISION_MASK = 0xFF000000"
definition VFS_CAP_REVISION_1 :: u32 where "VFS_CAP_REVISION_1 = 0x01000000"
definition VFS_CAP_REVISION_2 :: u32 where "VFS_CAP_REVISION_2 = 0x02000000"
definition XATTR_CAPS_SZ_1 :: nat where "XATTR_CAPS_SZ_1 = 12"
definition XATTR_CAPS_SZ_2 :: nat where "XATTR_CAPS_SZ_2 = 20"

text \<open>The loop over the two words computes both; the result is the credentials, the effective
  flag and the error.\<close>

definition bprm_caps_from_vfs_caps ::
  "cpu_vfs_cap_data \<Rightarrow> cred \<Rightarrow> bool \<Rightarrow> cred \<times> bool \<times> unit ret" where
  "bprm_caps_from_vfs_caps fcaps new effective =
     (let effective = (effective \<or> magic_etc fcaps AND VFS_CAP_FLAGS_EFFECTIVE \<noteq> 0);
          word = (\<lambda>i. (cap_word (cap_bset new) i AND cap_word (vfs_permitted fcaps) i) OR
                      (cap_word (cap_inheritable new) i AND cap_word (vfs_inheritable fcaps) i));
          new' = new\<lparr>cap_permitted := Kernel_cap (word 0) (word 1)\<rparr>;
          lacking = list_ex (\<lambda>i. cap_word (vfs_permitted fcaps) i
                                 AND NOT (cap_word (cap_permitted new') i) \<noteq> 0) [0, 1]
      in (new', effective, if effective \<and> lacking then Inl EPERM else Inr ()))"

definition get_vfs_caps_from_disk ::
  "kconfig \<Rightarrow> (errno + vfs_cap_data) option \<Rightarrow> cpu_vfs_cap_data ret" where
  "get_vfs_caps_from_disk kc getxattr =
     (if \<not> file_capabilities kc then Inl ENODATA
      else case getxattr of
        None \<Rightarrow> Inl ENODATA
      | Some (Inl e) \<Rightarrow> if e = ENODATA \<or> e = EOPNOTSUPP then Inl ENODATA else Inl e
      | Some (Inr c) \<Rightarrow>
          if vc_size c < 4 then Inl EINVAL
          else let m = vc_magic_etc c in
            if m AND VFS_CAP_REVISION_MASK = VFS_CAP_REVISION_1
            then if vc_size c \<noteq> XATTR_CAPS_SZ_1 then Inl EINVAL
                 else Inr \<lparr>magic_etc = m, vfs_permitted = Kernel_cap (vc_permitted0 c) 0,
                           vfs_inheritable = Kernel_cap (vc_inheritable0 c) 0\<rparr>
            else if m AND VFS_CAP_REVISION_MASK = VFS_CAP_REVISION_2
            then if vc_size c \<noteq> XATTR_CAPS_SZ_2 then Inl EINVAL
                 else Inr \<lparr>magic_etc = m,
                           vfs_permitted = Kernel_cap (vc_permitted0 c) (vc_permitted1 c),
                           vfs_inheritable = Kernel_cap (vc_inheritable0 c) (vc_inheritable1 c)\<rparr>
            else Inl EINVAL)"

definition get_file_caps :: "kconfig \<Rightarrow> linux_binprm \<Rightarrow> bool \<Rightarrow> unit ret \<times> linux_binprm \<times> bool" where
  "get_file_caps kc bprm effective =
     (let bprm = bprm_clear_caps bprm in
      if \<not> file_capabilities kc then (Inr (), bprm, effective)
      else if \<not> file_caps_enabled kc then (Inr (), bprm, effective)
      else if bprm_nosuid bprm then (Inr (), bprm, effective)
      else case get_vfs_caps_from_disk kc (bprm_xattr bprm) of
        Inl e \<Rightarrow> if e = ENODATA then (Inr (), bprm, effective)
                 else (Inl e, bprm_clear_caps bprm, effective)
      | Inr vcaps \<Rightarrow>
          (case bprm_caps_from_vfs_caps vcaps (bprm_cred bprm) effective of
             (new, effective', rc) \<Rightarrow>
               let bprm = bprm\<lparr>bprm_cred := new\<rparr>
               in (rc, if is_err rc then bprm_clear_caps bprm else bprm, effective')))"

definition cap_limit_ptraced_target :: "kconfig \<Rightarrow> kernel \<Rightarrow> bool \<times> kernel" where
  "cap_limit_ptraced_target kc k =
     (if \<not> file_capabilities kc
      then (case capable kc CAP_SETPCAP k of (True, k') \<Rightarrow> (False, k') | (False, k') \<Rightarrow> (True, k'))
      else (True, k))"

definition LSM_UNSAFE_SHARE :: u32 where "LSM_UNSAFE_SHARE = 1"
definition LSM_UNSAFE_PTRACE :: u32 where "LSM_UNSAFE_PTRACE = 2"
definition LSM_UNSAFE_PTRACE_CAP :: u32 where "LSM_UNSAFE_PTRACE_CAP = 4"

text \<open>The block that raises the capabilities of a root program.\<close>

definition bprm_raise_root :: "kernel \<Rightarrow> cred \<Rightarrow> cred \<Rightarrow> bool \<Rightarrow> cred \<times> bool" where
  "bprm_raise_root k old new effective =
     (if \<not> issecure SECURE_NOROOT k
      then if effective \<and> cr_uid new \<noteq> 0 \<and> cr_euid new = 0 then (new, effective)
           else ((if cr_euid new = 0 \<or> cr_uid new = 0
                  then new\<lparr>cap_permitted := cap_combine (cap_bset old) (cap_inheritable old)\<rparr>
                  else new),
                 (if cr_euid new = 0 then True else effective))
      else (new, effective))"

text \<open>The block that downgrades the credentials of a program that is traced or shares state.\<close>

definition bprm_downgrade :: "kconfig \<Rightarrow> linux_binprm \<Rightarrow> cred \<Rightarrow> cred \<Rightarrow> kernel \<Rightarrow> cred \<times> kernel" where
  "bprm_downgrade kc bprm old new k =
     (if (cr_euid new \<noteq> cr_uid old \<or> cr_egid new \<noteq> cr_gid old \<or>
          \<not> cap_issubset (cap_permitted new) (cap_permitted old)) \<and>
         bprm_unsafe bprm AND NOT LSM_UNSAFE_PTRACE_CAP \<noteq> 0
      then (case capable kc CAP_SETUID k of
              (may_setuid, k1) \<Rightarrow>
                let new = (if \<not> may_setuid
                           then new\<lparr>cr_euid := cr_uid new, cr_egid := cr_gid new\<rparr> else new)
                in (case cap_limit_ptraced_target kc k1 of
                      (limit, k2) \<Rightarrow>
                        (if limit
                         then new\<lparr>cap_permitted :=
                                cap_intersect (cap_permitted new) (cap_permitted old)\<rparr>
                         else new, k2)))
      else (new, k))"

definition cap_bprm_set_creds :: "kconfig \<Rightarrow> linux_binprm \<Rightarrow> linux_binprm kop" where
  "cap_bprm_set_creds kc bprm k =
     (let old = current_cred k in
      case get_file_caps kc bprm False of
        (Inl e, _, _) \<Rightarrow> (Inl e, k)
      | (Inr _, bprm, effective) \<Rightarrow>
          (case bprm_raise_root k old (bprm_cred bprm) effective of
             (new, effective) \<Rightarrow>
               (case bprm_downgrade kc bprm old new k of
                  (new, k) \<Rightarrow>
                    let new = new\<lparr>cr_suid := cr_euid new, cr_fsuid := cr_euid new\<rparr>;
                        new = new\<lparr>cr_sgid := cr_egid new, cr_fsgid := cr_egid new\<rparr>;
                        new = (if \<not> t_is_init (current k)
                               then if effective
                                    then new\<lparr>cap_effective := cap_permitted new\<rparr>
                                    else new\<lparr>cap_effective := cap_empty_set\<rparr>
                               else new);
                        new = new\<lparr>cr_securebits :=
                                cr_securebits new AND NOT (issecure_mask SECURE_KEEP_CAPS)\<rparr>
                    in (Inr (bprm\<lparr>bprm_cred := new, bprm_cap_effective := effective\<rparr>), k))))"

definition cap_bprm_secureexec :: "linux_binprm \<Rightarrow> kernel \<Rightarrow> bool" where
  "cap_bprm_secureexec bprm k =
     (let c = current_cred k in
      if cr_uid c \<noteq> 0 \<and> bprm_cap_effective bprm then True
      else if cr_uid c \<noteq> 0 \<and> \<not> cap_isclear (cap_permitted c) then True
      else cr_euid c \<noteq> cr_uid c \<or> cr_egid c \<noteq> cr_gid c)"


definition prepare_binprm :: "kconfig \<Rightarrow> linux_binprm \<Rightarrow> linux_binprm kop" where
  "prepare_binprm kc bprm k =
     (if \<not> bprm_has_f_op bprm then (Inl EACCES, k)
      else let new = (bprm_cred bprm)\<lparr>cr_euid := cr_euid (current_cred k),
                                      cr_egid := cr_egid (current_cred k)\<rparr>;
               new = (if \<not> bprm_nosuid bprm \<and> bprm_mode bprm AND S_ISUID \<noteq> 0
                      then new\<lparr>cr_euid := bprm_i_uid bprm\<rparr> else new);
               new = (if \<not> bprm_nosuid bprm \<and>
                         bprm_mode bprm AND (S_ISGID OR S_IXGRP) = (S_ISGID OR S_IXGRP)
                      then new\<lparr>cr_egid := bprm_i_gid bprm\<rparr> else new)
           in cap_bprm_set_creds kc (bprm\<lparr>bprm_cred := new\<rparr>) k)"

definition prepare_bprm_creds :: "alloc_env \<Rightarrow> linux_binprm \<Rightarrow> linux_binprm kop" where
  "prepare_bprm_creds env bprm k =
     (case prepare_creds env k of
        None \<Rightarrow> (Inl ENOMEM, k)
      | Some c \<Rightarrow> (Inr (bprm\<lparr>bprm_cred := c\<rparr>), k))"

definition install_exec_creds :: "linux_binprm \<Rightarrow> int kop" where
  "install_exec_creds bprm = commit_creds (bprm_cred bprm)"

text \<open>The credential side of an execve that reaches its point of no return.\<close>

definition exec_creds :: "kconfig \<Rightarrow> alloc_env \<Rightarrow> linux_binprm \<Rightarrow> int kop" where
  "exec_creds kc env bprm =
     kbind (prepare_bprm_creds env bprm) (\<lambda>bprm.
     kbind (prepare_binprm kc bprm) install_exec_creds)"

section \<open>Fix-up after a change of user ids\<close>

definition LSM_SETID_ID :: nat where "LSM_SETID_ID = 1"
definition LSM_SETID_RE :: nat where "LSM_SETID_RE = 2"
definition LSM_SETID_RES :: nat where "LSM_SETID_RES = 4"
definition LSM_SETID_FS :: nat where "LSM_SETID_FS = 8"

lemmas LSM_SETID_numbers = LSM_SETID_ID_def LSM_SETID_RE_def LSM_SETID_RES_def LSM_SETID_FS_def

definition cap_emulate_setxuid :: "kernel \<Rightarrow> cred \<Rightarrow> cred \<Rightarrow> cred" where
  "cap_emulate_setxuid k new old =
     (let new = (if (cr_uid old = 0 \<or> cr_euid old = 0 \<or> cr_suid old = 0) \<and>
                    (cr_uid new \<noteq> 0 \<and> cr_euid new \<noteq> 0 \<and> cr_suid new \<noteq> 0) \<and>
                    \<not> issecure SECURE_KEEP_CAPS k
                 then new\<lparr>cap_permitted := cap_empty_set, cap_effective := cap_empty_set\<rparr> else new);
          new = (if cr_euid old = 0 \<and> cr_euid new \<noteq> 0
                 then new\<lparr>cap_effective := cap_empty_set\<rparr> else new);
          new = (if cr_euid old \<noteq> 0 \<and> cr_euid new = 0
                 then new\<lparr>cap_effective := cap_permitted new\<rparr> else new)
      in new)"

definition cap_task_fix_setuid :: "kernel \<Rightarrow> cred \<Rightarrow> cred \<Rightarrow> nat \<Rightarrow> cred ret" where
  "cap_task_fix_setuid k new old flags =
     (if flags = LSM_SETID_RE \<or> flags = LSM_SETID_ID \<or> flags = LSM_SETID_RES
      then Inr (if \<not> issecure SECURE_NO_SETUID_FIXUP k then cap_emulate_setxuid k new old else new)
      else if flags = LSM_SETID_FS
      then Inr (if \<not> issecure SECURE_NO_SETUID_FIXUP k
                then let new = (if cr_fsuid old = 0 \<and> cr_fsuid new \<noteq> 0
                                then new\<lparr>cap_effective := cap_drop_fs_set (cap_effective new)\<rparr>
                                else new);
                         new = (if cr_fsuid old \<noteq> 0 \<and> cr_fsuid new = 0
                                then new\<lparr>cap_effective :=
                                       cap_raise_fs_set (cap_effective new) (cap_permitted new)\<rparr>
                                else new)
                     in new
                else new)
      else Inl EINVAL)"

section \<open>prctl\<close>

definition PR_GET_KEEPCAPS :: int where "PR_GET_KEEPCAPS = 7"
definition PR_SET_KEEPCAPS :: int where "PR_SET_KEEPCAPS = 8"
definition PR_CAPBSET_READ :: int where "PR_CAPBSET_READ = 23"
definition PR_CAPBSET_DROP :: int where "PR_CAPBSET_DROP = 24"
definition PR_GET_SECUREBITS :: int where "PR_GET_SECUREBITS = 27"
definition PR_SET_SECUREBITS :: int where "PR_SET_SECUREBITS = 28"

lemmas PR_numbers = PR_GET_KEEPCAPS_def PR_SET_KEEPCAPS_def PR_CAPBSET_READ_def
  PR_CAPBSET_DROP_def PR_GET_SECUREBITS_def PR_SET_SECUREBITS_def

definition cap_prctl_drop :: "kconfig \<Rightarrow> cred \<Rightarrow> u32 \<Rightarrow> cred kop" where
  "cap_prctl_drop kc new cap =
     kbind (require (capable kc CAP_SETPCAP) EPERM) (\<lambda>_.
       if \<not> cap_valid (unat cap) then kthrow EINVAL
       else kreturn (new\<lparr>cap_bset := cap_lower (cap_bset new) (unat cap)\<rparr>))"

definition cap_task_prctl :: "kconfig \<Rightarrow> alloc_env \<Rightarrow> int \<Rightarrow> u32 \<Rightarrow> int kop" where
  "cap_task_prctl kc env opt arg2 =
     with_new_creds env (\<lambda>old new k.
       if opt = PR_CAPBSET_READ
       then if \<not> cap_valid (unat arg2) then (Inl EINVAL, k)
            else (Inr (if cap_raised (cap_bset new) (unat arg2) then 1 else 0), k)
       else if file_capabilities kc \<and> opt = PR_CAPBSET_DROP
       then kbind (cap_prctl_drop kc new arg2) commit_creds k
       else if file_capabilities kc \<and> opt = PR_SET_SECUREBITS
       then if drop_bit 1 (cr_securebits new AND SECURE_ALL_LOCKS) AND (cr_securebits new XOR arg2) \<noteq> 0
               \<or> cr_securebits new AND SECURE_ALL_LOCKS AND NOT arg2 \<noteq> 0
               \<or> arg2 AND NOT (SECURE_ALL_LOCKS OR SECURE_ALL_BITS) \<noteq> 0
               \<or> \<not> cap_capable kc k (current_cred k) CAP_SETPCAP
            then (Inl EPERM, k)
            else commit_creds (new\<lparr>cr_securebits := arg2\<rparr>) k
       else if file_capabilities kc \<and> opt = PR_GET_SECUREBITS
       then (Inr (sint (cr_securebits new)), k)
       else if opt = PR_GET_KEEPCAPS
       then (Inr (if issecure SECURE_KEEP_CAPS k then 1 else 0), k)
       else if opt = PR_SET_KEEPCAPS
       then if arg2 > 1 then (Inl EINVAL, k)
            else if issecure SECURE_KEEP_CAPS_LOCKED k then (Inl EPERM, k)
            else if arg2 \<noteq> 0
            then commit_creds (new\<lparr>cr_securebits :=
                   cr_securebits new OR issecure_mask SECURE_KEEP_CAPS\<rparr>) k
            else commit_creds (new\<lparr>cr_securebits :=
                   cr_securebits new AND NOT (issecure_mask SECURE_KEEP_CAPS)\<rparr>) k
       else (Inl ENOSYS, k))"

section \<open>Validation of capset\<close>

lemma cap_capset_iff:
  "cap_capset kc k new old e i p = Inr c \<longleftrightarrow>
     c = new\<lparr>cap_effective := e, cap_inheritable := i, cap_permitted := p\<rparr> \<and>
     caps e \<subseteq> caps p \<and> caps p \<subseteq> caps (cap_permitted old) \<and>
     caps i \<subseteq> caps (cap_inheritable old) \<union> caps (cap_bset old) \<and>
     (cap_inh_is_capped kc k \<longrightarrow> caps i \<subseteq> caps (cap_inheritable old) \<union> caps (cap_permitted old))"
  by (auto simp: cap_capset_def cap_issubset_iff caps_combine)

section \<open>The setuid fix-up\<close>

lemma cap_task_fix_setuid_Inr:
  assumes "cap_task_fix_setuid k new old flags = Inr c"
    and "cap_issubset (cap_effective new) (cap_permitted new)"
  shows "c = new\<lparr>cap_permitted := cap_permitted c, cap_effective := cap_effective c\<rparr>"
    "cap_issubset (cap_permitted c) (cap_permitted new)"
    "cap_issubset (cap_effective c) (cap_permitted c)"
  using assms kcap.raise_within [OF assms(2), of CAP_FS_SET] kcap.remove_within [OF assms(2), of CAP_FS_SET]
  by (auto simp: cap_task_fix_setuid_def cap_emulate_setxuid_def Let_def cap_issubset_iff
      cap_raise_fs_set_def cap_drop_fs_set_def split: if_splits)

lemma cap_task_fix_setuid_total:
  "flags \<in> {LSM_SETID_ID, LSM_SETID_RE, LSM_SETID_RES, LSM_SETID_FS} \<Longrightarrow>
     \<exists>c. cap_task_fix_setuid k new old flags = Inr c"
  by (auto simp: cap_task_fix_setuid_def)

lemma fix_setuid_drops_all:
  assumes "flags \<in> {LSM_SETID_ID, LSM_SETID_RE, LSM_SETID_RES}"
    and "\<not> issecure SECURE_NO_SETUID_FIXUP k" "\<not> issecure SECURE_KEEP_CAPS k"
    and "cr_uid old = 0 \<or> cr_euid old = 0 \<or> cr_suid old = 0"
    and "cr_uid new \<noteq> 0" "cr_euid new \<noteq> 0" "cr_suid new \<noteq> 0"
  shows "cap_task_fix_setuid k new old flags
           = Inr (new\<lparr>cap_permitted := cap_empty_set, cap_effective := cap_empty_set\<rparr>)"
proof -
  have "cap_emulate_setxuid k new old = new\<lparr>cap_permitted := cap_empty_set, cap_effective := cap_empty_set\<rparr>"
    using assms(3-7) by (simp add: cap_emulate_setxuid_def Let_def)
  then show ?thesis
    using assms(1,2) by (simp add: cap_task_fix_setuid_def disj_commute disj_left_commute)
qed

section \<open>The credentials of execve\<close>

text \<open>What execve may change in the credentials before it downgrades them.\<close>

lemma bprm_caps_from_vfs_caps_formula:
  "fst (bprm_caps_from_vfs_caps fcaps new eff) =
     new\<lparr>cap_permitted := cap_combine (cap_intersect (cap_bset new) (vfs_permitted fcaps))
                            (cap_intersect (cap_inheritable new) (vfs_inheritable fcaps))\<rparr>"
  by (simp add: bprm_caps_from_vfs_caps_def Let_def cap_combine_def cap_intersect_def CAP_BOP_ALL_def
      cap_word_def)

lemma get_file_caps_bound:
  assumes "get_file_caps kc bprm eff = (Inr u, bprm', eff')"
  shows "\<exists>P. bprm' = bprm\<lparr>bprm_cred := (bprm_cred bprm)\<lparr>cap_permitted := P\<rparr>,
                       bprm_cap_effective := False\<rparr> \<and>
     caps P \<subseteq> caps (cap_bset (bprm_cred bprm)) \<union> caps (cap_inheritable (bprm_cred bprm))"
proof -
  let ?c = "(bprm_cred bprm)\<lparr>cap_permitted := cap_empty_set\<rparr>"
  consider (empty) "bprm' = bprm_clear_caps bprm"
    | (vfs) fcaps where "bprm' = bprm\<lparr>bprm_cap_effective := False,
                                       bprm_cred := fst (bprm_caps_from_vfs_caps fcaps ?c eff)\<rparr>"
    using assms
    by (auto simp: get_file_caps_def Let_def bprm_clear_caps_def is_err_def case_prod_beta
        split: if_splits sum.splits)
  then show ?thesis
  proof cases
    case empty
    then show ?thesis by (auto simp: bprm_clear_caps_def intro!: exI [of _ cap_empty_set])
  next
    case (vfs fcaps)
    let ?P = "cap_combine (cap_intersect (cap_bset ?c) (vfs_permitted fcaps))
                          (cap_intersect (cap_inheritable ?c) (vfs_inheritable fcaps))"
    have "bprm' = bprm\<lparr>bprm_cred := (bprm_cred bprm)\<lparr>cap_permitted := ?P\<rparr>,
                         bprm_cap_effective := False\<rparr>"
      by (simp add: vfs bprm_caps_from_vfs_caps_formula)
    moreover have "caps ?P \<subseteq> caps (cap_bset (bprm_cred bprm)) \<union> caps (cap_inheritable (bprm_cred bprm))"
      by (auto simp: caps_combine caps_intersect)
    ultimately show ?thesis by blast
  qed
qed

lemma bprm_raise_root_bound:
  assumes "bprm_raise_root k old new eff = (new', eff')"
  shows "\<exists>P. new' = new\<lparr>cap_permitted := P\<rparr> \<and>
     caps P \<subseteq> caps (cap_permitted new) \<union> caps (cap_bset old) \<union> caps (cap_inheritable old)"
proof -
  have "new' = new\<lparr>cap_permitted := cap_permitted new\<rparr> \<or>
      new' = new\<lparr>cap_permitted := cap_combine (cap_bset old) (cap_inheritable old)\<rparr>"
    using assms by (auto simp: bprm_raise_root_def split: if_splits)
  then show ?thesis
    by (elim disjE) (force simp: caps_combine)+
qed

lemma cap_limit_ptraced_target_cases:
  assumes "cap_limit_ptraced_target kc k = (limit, k')"
  shows "same_creds k k'"
    "limit \<longleftrightarrow> file_capabilities kc \<or> \<not> cap_capable kc k (current_cred k) CAP_SETPCAP"
  using assms capable_cases [of kc CAP_SETPCAP k]
  by (force simp: cap_limit_ptraced_target_def split: if_splits prod.splits bool.splits)+

lemma bprm_downgrade_bound:
  assumes "bprm_downgrade kc bprm old new k = (new', k')"
  shows "same_creds k k'"
    "\<exists>P u g. new' = new\<lparr>cap_permitted := P, cr_euid := u, cr_egid := g\<rparr> \<and> caps P \<subseteq> caps (cap_permitted new)"
proof -
  obtain b k1 where c: "capable kc CAP_SETUID k = (b, k1)" by fastforce
  obtain l k2 where l: "cap_limit_ptraced_target kc k1 = (l, k2)" by fastforce
  show "same_creds k k'"
    using assms c l capable_cases(1) [OF c] cap_limit_ptraced_target_cases(1) [OF l]
    by (auto simp: bprm_downgrade_def Let_def intro: same_creds_trans split: if_splits)
  show "\<exists>P u g. new' = new\<lparr>cap_permitted := P, cr_euid := u, cr_egid := g\<rparr> \<and> caps P \<subseteq> caps (cap_permitted new)"
  proof (intro exI conjI)
    show "new' = new\<lparr>cap_permitted := cap_permitted new', cr_euid := cr_euid new', cr_egid := cr_egid new'\<rparr>"
      using assms c l by (auto simp: bprm_downgrade_def Let_def split: if_splits)
    show "caps (cap_permitted new') \<subseteq> caps (cap_permitted new)"
      using assms c l by (auto simp: bprm_downgrade_def Let_def caps_intersect split: if_splits)
  qed
qed

lemma bprm_downgrade_traced:
  assumes "bprm_downgrade kc bprm old new k = (new', k')"
    and "bprm_unsafe bprm AND NOT LSM_UNSAFE_PTRACE_CAP \<noteq> 0"
    and "\<not> cap_capable kc k (current_cred k) CAP_SETUID"
    and "file_capabilities kc \<or> \<not> cap_capable kc k (current_cred k) CAP_SETPCAP"
    and "cr_uid new = cr_uid old" "cr_gid new = cr_gid old"
  shows "caps (cap_permitted new') \<subseteq> caps (cap_permitted old)"
    "cr_euid new' = cr_uid old" "cr_egid new' = cr_gid old"
proof -
  obtain b k1 where c: "capable kc CAP_SETUID k = (b, k1)" by fastforce
  obtain l k2 where l: "cap_limit_ptraced_target kc k1 = (l, k2)" by fastforce
  have "\<not> b" "l"
    using capable_cases [OF c] cap_limit_ptraced_target_cases(2) [OF l] assms(3,4)
    by (simp_all add: same_creds_capable same_creds_current)
  then have "new' = (if cr_euid new \<noteq> cr_uid old \<or> cr_egid new \<noteq> cr_gid old \<or>
                        \<not> cap_issubset (cap_permitted new) (cap_permitted old)
      then new\<lparr>cr_euid := cr_uid new, cr_egid := cr_gid new,
               cap_permitted := cap_intersect (cap_permitted new) (cap_permitted old)\<rparr> else new)"
    using assms(1,2) c l by (auto simp: bprm_downgrade_def split: if_splits)
  then show "caps (cap_permitted new') \<subseteq> caps (cap_permitted old)"
    "cr_euid new' = cr_uid old" "cr_egid new' = cr_gid old"
    using assms(5,6) by (auto simp: cap_issubset_iff caps_intersect)
qed

text \<open>What \<open>cap_bprm_set_creds\<close> returns, as a function of the three blocks before it.\<close>

lemma cap_bprm_set_creds_Inr:
  assumes "cap_bprm_set_creds kc bprm k = (Inr b, k')"
  obtains b1 eff1 new1 eff new2 where
    "get_file_caps kc bprm False = (Inr (), b1, eff1)"
    "bprm_raise_root k (current_cred k) (bprm_cred b1) eff1 = (new1, eff)"
    "bprm_downgrade kc b1 (current_cred k) new1 k = (new2, k')"
    "bprm_cred b = new2\<lparr>cr_suid := cr_euid new2, cr_fsuid := cr_euid new2,
       cr_sgid := cr_egid new2, cr_fsgid := cr_egid new2,
       cap_effective := (if t_is_init (current k') then cap_effective new2
                         else if eff then cap_permitted new2 else cap_empty_set),
       cr_securebits := cr_securebits new2 AND NOT (issecure_mask SECURE_KEEP_CAPS)\<rparr>"
proof -
  obtain r b1 eff1 where 1: "get_file_caps kc bprm False = (r, b1, eff1)" by (metis prod_cases3)
  obtain new1 eff where 2: "bprm_raise_root k (current_cred k) (bprm_cred b1) eff1 = (new1, eff)" by fastforce
  obtain new2 k2 where 3: "bprm_downgrade kc b1 (current_cred k) new1 k = (new2, k2)" by fastforce
  show ?thesis
    using assms 1 2 3 by (intro that [of b1 eff1 new1 eff new2])
      (auto simp: cap_bprm_set_creds_def Let_def split: sum.splits)
qed

lemma cap_bprm_set_creds_bound:
  assumes ok: "cap_bprm_set_creds kc bprm k = (Inr b, k')"
    and start: "cap_bset (bprm_cred bprm) = cap_bset (current_cred k)"
      "cap_inheritable (bprm_cred bprm) = cap_inheritable (current_cred k)"
  shows "same_creds k k'"
    "caps (cap_permitted (bprm_cred b)) \<subseteq> caps (cap_bset (current_cred k)) \<union> caps (cap_inheritable (current_cred k))"
    "\<exists>P E u g. bprm_cred b = (bprm_cred bprm)\<lparr>cr_euid := u, cr_suid := u, cr_fsuid := u,
        cr_egid := g, cr_sgid := g, cr_fsgid := g, cap_permitted := P, cap_effective := E,
        cr_securebits := cr_securebits (bprm_cred bprm) AND NOT (issecure_mask SECURE_KEEP_CAPS)\<rparr> \<and>
        (t_is_init (current k) \<or> E = P \<or> E = cap_empty_set)"
proof -
  from ok obtain b1 eff1 new1 eff new2 where
    1: "get_file_caps kc bprm False = (Inr (), b1, eff1)" and
    2: "bprm_raise_root k (current_cred k) (bprm_cred b1) eff1 = (new1, eff)" and
    3: "bprm_downgrade kc b1 (current_cred k) new1 k = (new2, k')" and
    4: "bprm_cred b = new2\<lparr>cr_suid := cr_euid new2, cr_fsuid := cr_euid new2,
       cr_sgid := cr_egid new2, cr_fsgid := cr_egid new2,
       cap_effective := (if t_is_init (current k') then cap_effective new2
                         else if eff then cap_permitted new2 else cap_empty_set),
       cr_securebits := cr_securebits new2 AND NOT (issecure_mask SECURE_KEEP_CAPS)\<rparr>"
    by (rule cap_bprm_set_creds_Inr)
  show same: "same_creds k k'" by (rule bprm_downgrade_bound(1) [OF 3])
  from get_file_caps_bound [OF 1] obtain P1 where
    P1: "bprm_cred b1 = (bprm_cred bprm)\<lparr>cap_permitted := P1\<rparr>"
      "caps P1 \<subseteq> caps (cap_bset (current_cred k)) \<union> caps (cap_inheritable (current_cred k))"
    using start by auto
  from bprm_raise_root_bound [OF 2] P1 obtain P2 where
    P2: "new1 = (bprm_cred bprm)\<lparr>cap_permitted := P2\<rparr>"
      "caps P2 \<subseteq> caps (cap_bset (current_cred k)) \<union> caps (cap_inheritable (current_cred k))"
    by auto
  from bprm_downgrade_bound(2) [OF 3] P2 obtain P3 u g where
    P3: "new2 = (bprm_cred bprm)\<lparr>cap_permitted := P3, cr_euid := u, cr_egid := g\<rparr>"
      "caps P3 \<subseteq> caps (cap_bset (current_cred k)) \<union> caps (cap_inheritable (current_cred k))"
    by auto
  show "caps (cap_permitted (bprm_cred b)) \<subseteq> caps (cap_bset (current_cred k)) \<union> caps (cap_inheritable (current_cred k))"
    using 4 P3 by simp
  show "\<exists>P E u g. bprm_cred b = (bprm_cred bprm)\<lparr>cr_euid := u, cr_suid := u, cr_fsuid := u,
        cr_egid := g, cr_sgid := g, cr_fsgid := g, cap_permitted := P, cap_effective := E,
        cr_securebits := cr_securebits (bprm_cred bprm) AND NOT (issecure_mask SECURE_KEEP_CAPS)\<rparr> \<and>
        (t_is_init (current k) \<or> E = P \<or> E = cap_empty_set)"
    using same by (intro exI [of _ P3] exI [of _ "cap_effective (bprm_cred b)"] exI [of _ u] exI [of _ g])
      (simp add: 4 P3(1) same_creds_def)
qed

lemma prepare_binprm_Inr:
  assumes "prepare_binprm kc bprm k = (Inr b, k')"
  obtains u g where
    "cap_bprm_set_creds kc (bprm\<lparr>bprm_cred := (bprm_cred bprm)\<lparr>cr_euid := u, cr_egid := g\<rparr>\<rparr>) k = (Inr b, k')"
proof -
  let ?u = "if \<not> bprm_nosuid bprm \<and> bprm_mode bprm AND S_ISUID \<noteq> 0 then bprm_i_uid bprm
            else cr_euid (current_cred k)"
  let ?g = "if \<not> bprm_nosuid bprm \<and> bprm_mode bprm AND (S_ISGID OR S_IXGRP) = (S_ISGID OR S_IXGRP)
            then bprm_i_gid bprm else cr_egid (current_cred k)"
  have eq: "(if P then (if Q then c\<lparr>cr_euid := e, cr_egid := g\<rparr>\<lparr>cr_euid := i\<rparr> else c\<lparr>cr_euid := e, cr_egid := g\<rparr>)
                \<lparr>cr_egid := j\<rparr>
              else if Q then c\<lparr>cr_euid := e, cr_egid := g\<rparr>\<lparr>cr_euid := i\<rparr> else c\<lparr>cr_euid := e, cr_egid := g\<rparr>)
        = c\<lparr>cr_euid := if Q then i else e, cr_egid := if P then j else g\<rparr>"
    for P Q c e g i j by simp
  show thesis
    using assms by (intro that [where u = ?u and g = ?g]) (auto simp: prepare_binprm_def Let_def eq split: if_splits)
qed

lemma exec_creds_Inr:
  assumes "exec_creds kc env bprm k = (Inr r, k')"
  obtains b u g k1 where
    "cap_bprm_set_creds kc (bprm\<lparr>bprm_cred := (current_cred k)\<lparr>cr_euid := u, cr_egid := g\<rparr>\<rparr>) k = (Inr b, k1)"
    "current_cred k' = bprm_cred b" "t_is_init (current k') = t_is_init (current k1)"
proof -
  from assms obtain b k1 where
    *: "prepare_binprm kc (bprm\<lparr>bprm_cred := current_cred k\<rparr>) k = (Inr b, k1)"
      "k' = snd (commit_creds (bprm_cred b) k1)"
    by (auto simp: exec_creds_def kbind_Inr prepare_bprm_creds_def prepare_creds_def install_exec_creds_def
        split: option.splits if_splits) 
  obtain u g where
    "cap_bprm_set_creds kc (bprm\<lparr>bprm_cred := (current_cred k)\<lparr>cr_euid := u, cr_egid := g\<rparr>\<rparr>) k = (Inr b, k1)"
    by (rule prepare_binprm_Inr [OF *(1)]) simp
  then show thesis
    by (rule that) (simp_all add: *(2) commit_creds_unchanged_flags)
qed

text \<open>
  C3. A successful execve never gives a process a permitted capability outside its bounding and
  inheritable sets, keeps those two sets, the real ids and the groups, makes the saved and
  file-system ids follow the effective ones, drops the keep-capabilities flag, and leaves every
  process but init with effective capabilities that are all of its permitted ones or none.
\<close>

theorem exec_creds_bounded:
  assumes "exec_creds kc env bprm k = (Inr r, k')"
  shows "cap_bset (current_cred k') = cap_bset (current_cred k) \<and>
    cap_inheritable (current_cred k') = cap_inheritable (current_cred k) \<and>
    caps (cap_permitted (current_cred k')) \<subseteq> caps (cap_bset (current_cred k)) \<union> caps (cap_inheritable (current_cred k)) \<and>
    (t_is_init (current k) \<or> cap_effective (current_cred k') = cap_permitted (current_cred k') \<or>
       cap_effective (current_cred k') = cap_empty_set) \<and>
    cr_uid (current_cred k') = cr_uid (current_cred k) \<and> cr_gid (current_cred k') = cr_gid (current_cred k) \<and>
    cr_groups (current_cred k') = cr_groups (current_cred k) \<and>
    cr_suid (current_cred k') = cr_euid (current_cred k') \<and> cr_fsuid (current_cred k') = cr_euid (current_cred k') \<and>
    cr_sgid (current_cred k') = cr_egid (current_cred k') \<and> cr_fsgid (current_cred k') = cr_egid (current_cred k') \<and>
    \<not> issecure SECURE_KEEP_CAPS k'"
proof -
  from exec_creds_Inr [OF assms] obtain b u g k1 where
    b: "cap_bprm_set_creds kc (bprm\<lparr>bprm_cred := (current_cred k)\<lparr>cr_euid := u, cr_egid := g\<rparr>\<rparr>) k = (Inr b, k1)"
      "current_cred k' = bprm_cred b" by metis
  have m: "issecure_mask n AND (x AND NOT (issecure_mask n)) = 0" for x n
    by (simp add: bit_eq_iff bit_and_iff bit_not_iff)
  show ?thesis
    using cap_bprm_set_creds_bound(2,3) [OF b(1)] m
    by (auto simp: b(2) issecure_def)
qed

definition su_binary :: "u32 \<Rightarrow> linux_binprm" where
  "su_binary unsafe =
     \<lparr>bprm_cred = init_cred victory_config, bprm_cap_effective = False, bprm_unsafe = unsafe,
      bprm_nosuid = False, bprm_has_f_op = True, bprm_mode = 0x9ED, bprm_i_uid = 0, bprm_i_gid = 0,
      bprm_xattr = None\<rparr>"

theorem exec_creds_bounded_witness:
  "\<exists>k'. exec_creds victory_config alloc_ok (su_binary 0) (running (user_cred 2000)) = (Inr 0, k') \<and>
     caps (cap_permitted (current_cred k')) \<subseteq> caps (cap_init_eff_set) \<union> caps cap_empty_set \<and>
     cr_uid (current_cred k') = 2000"
proof -
  have "fst (exec_creds victory_config alloc_ok (su_binary 0) (running (user_cred 2000))) = Inr 0"
    by code_simp
  then obtain k' where
    k': "exec_creds victory_config alloc_ok (su_binary 0) (running (user_cred 2000)) = (Inr 0, k')"
    by (metis prod.collapse)
  have "cap_bset (current_cred (running (user_cred 2000))) = cap_init_eff_set"
    "cap_inheritable (current_cred (running (user_cred 2000))) = cap_empty_set"
    "cr_uid (current_cred (running (user_cred 2000))) = 2000"
    by code_simp+
  with exec_creds_bounded [OF k'] k' show ?thesis by auto
qed



section \<open>What prctl may change\<close>

lemma SECURE_ALL_eval: "SECURE_ALL_BITS = 0x15" "SECURE_ALL_LOCKS = 0x2A"
  by (simp_all add: SECURE_ALL_BITS_def SECURE_ALL_LOCKS_def issecure_mask_def SECURE_numbers)

text \<open>The first two tests of PR_SET_SECUREBITS keep every lock and every locked bit.\<close>

lemma securebits_locks_kept:
  fixes old new :: u32
  assumes "drop_bit 1 (old AND SECURE_ALL_LOCKS) AND (old XOR new) = 0"
    and "old AND SECURE_ALL_LOCKS AND NOT new = 0"
    and "x \<in> {SECURE_NOROOT, SECURE_NO_SETUID_FIXUP, SECURE_KEEP_CAPS}" "bit old (Suc x)"
  shows "bit new (Suc x)" "bit new x = bit old x"
proof -
  have l: "bit SECURE_ALL_LOCKS (Suc x)" "x < 31"
    using assms(3) by (auto simp: SECURE_ALL_eval SECURE_numbers bit_numeral_rec)
  have "\<not> bit (old AND SECURE_ALL_LOCKS AND NOT new) (Suc x)" using assms(2) by simp
  then show "bit new (Suc x)"
    using l assms(4) by (simp add: bit_and_iff bit_not_iff)
  have "\<not> bit (drop_bit 1 (old AND SECURE_ALL_LOCKS) AND (old XOR new)) x" using assms(1) by simp
  then show "bit new x = bit old x"
    using l assms(4) by (simp add: bit_and_iff bit_xor_iff bit_drop_bit_eq)
qed

lemma cap_prctl_drop_Inr:
  "cap_prctl_drop kc new cap k = (Inr c, k') \<Longrightarrow>
     same_creds k k' \<and> c = new\<lparr>cap_bset := cap_lower (cap_bset new) (unat cap)\<rparr> \<and> cap_valid (unat cap)"
  by (auto simp: cap_prctl_drop_def kbind_Inr kthrow_def kreturn_def
      dest!: require_capable_conj split: if_splits)

lemma cap_prctl_drop_Inl:
  "cap_prctl_drop kc new cap k = (Inl e, k') \<Longrightarrow> same_creds k k'"
  by (auto simp: cap_prctl_drop_def kbind_Inr kthrow_def kreturn_def
      dest!: require_capable_conj split: if_splits)

lemma keepcaps_unlocked:
  fixes old :: u32
  assumes "issecure_mask SECURE_KEEP_CAPS_LOCKED AND old = 0"
  shows "drop_bit 1 (old AND SECURE_ALL_LOCKS) AND (old XOR (old OR issecure_mask SECURE_KEEP_CAPS)) = 0"
    "old AND SECURE_ALL_LOCKS AND NOT (old OR issecure_mask SECURE_KEEP_CAPS) = 0"
    "drop_bit 1 (old AND SECURE_ALL_LOCKS) AND (old XOR (old AND NOT (issecure_mask SECURE_KEEP_CAPS))) = 0"
    "old AND SECURE_ALL_LOCKS AND NOT (old AND NOT (issecure_mask SECURE_KEEP_CAPS)) = 0"
proof -
  have "\<not> bit (issecure_mask SECURE_KEEP_CAPS_LOCKED AND old) 5"
    by (simp only: assms bit_0_eq bot_apply) simp
  then have o5: "\<not> bit old 5"
    unfolding bit_and_iff by (simp add: issecure_mask_def SECURE_numbers bit_numeral_rec)
  have b: "bit (issecure_mask SECURE_KEEP_CAPS :: u32) n \<longleftrightarrow> n = 4" for n
    unfolding issecure_mask_def SECURE_numbers bit_push_bit_iff bit_1_iff by auto
  have l: "\<not> bit SECURE_ALL_LOCKS 4"
    by (simp add: SECURE_ALL_eval bit_numeral_rec)
  show "drop_bit 1 (old AND SECURE_ALL_LOCKS) AND (old XOR (old OR issecure_mask SECURE_KEEP_CAPS)) = 0"
    using o5 by (intro bit_word_eqI) (auto simp: bit_and_iff bit_or_iff bit_xor_iff bit_drop_bit_eq b)
  show "old AND SECURE_ALL_LOCKS AND NOT (old OR issecure_mask SECURE_KEEP_CAPS) = 0"
    by (intro bit_word_eqI) (auto simp: bit_and_iff bit_or_iff bit_not_iff)
  show "drop_bit 1 (old AND SECURE_ALL_LOCKS) AND (old XOR (old AND NOT (issecure_mask SECURE_KEEP_CAPS))) = 0"
    using o5 by (intro bit_word_eqI) (auto simp: bit_and_iff bit_not_iff bit_xor_iff bit_drop_bit_eq b)
  show "old AND SECURE_ALL_LOCKS AND NOT (old AND NOT (issecure_mask SECURE_KEEP_CAPS)) = 0"
    using l by (intro bit_word_eqI) (auto simp: bit_and_iff bit_or_iff bit_not_iff b)
qed

text \<open>What a prctl may do to the credentials.\<close>

definition prctl_step :: "cred \<Rightarrow> cred \<Rightarrow> bool" where
  "prctl_step old new \<longleftrightarrow> new = old \<or>
     (\<exists>c. cap_valid c \<and> new = old\<lparr>cap_bset := cap_lower (cap_bset old) c\<rparr>) \<or>
     (\<exists>s. new = old\<lparr>cr_securebits := s\<rparr> \<and>
          drop_bit 1 (cr_securebits old AND SECURE_ALL_LOCKS) AND (cr_securebits old XOR s) = 0 \<and>
          cr_securebits old AND SECURE_ALL_LOCKS AND NOT s = 0)"

lemma cap_task_prctl_cases:
  assumes "cap_task_prctl kc env opt arg2 k = (r, k')"
  obtains "same_creds k k'"
    | k1 new where "same_creds k k1" "commit_creds new k1 = (r, k')" "prctl_step (current_cred k) new"
proof (cases "cred_alloc env")
  case True
  note body = assms [unfolded cap_task_prctl_def with_new_creds_eq, simplified True, simplified]
  consider (drop) "kbind (cap_prctl_drop kc (current_cred k) arg2) commit_creds k = (r, k')"
    | (bits) s where "commit_creds ((current_cred k)\<lparr>cr_securebits := s\<rparr>) k = (r, k')"
        "drop_bit 1 (cr_securebits (current_cred k) AND SECURE_ALL_LOCKS) AND (cr_securebits (current_cred k) XOR s) = 0"
        "cr_securebits (current_cred k) AND SECURE_ALL_LOCKS AND NOT s = 0"
    | (none) "k' = k"
    using body keepcaps_unlocked [of "cr_securebits (current_cred k)"]
    by (auto simp: issecure_def split: if_splits)
  then show thesis
  proof cases
    case drop
    have "cap_valid c \<Longrightarrow> prctl_step old (old\<lparr>cap_bset := cap_lower (cap_bset old) c\<rparr>)" for c old
      by (auto simp: prctl_step_def)
    with drop show thesis
      by (auto simp: kbind_Inr dest!: cap_prctl_drop_Inr cap_prctl_drop_Inl intro: that)
  next
    case (bits s)
    then show thesis
      by (intro that(2) [of k "(current_cred k)\<lparr>cr_securebits := s\<rparr>"]) (auto simp: prctl_step_def)
  qed (simp add: that(1))
qed (use assms that(1) in \<open>simp add: cap_task_prctl_def with_new_creds_eq\<close>)

lemma cap_task_prctl_step:
  assumes "cap_task_prctl kc env opt arg2 k = (r, k')"
  shows "prctl_step (current_cred k) (current_cred k')"
  using assms
proof (rule cap_task_prctl_cases)
  assume "same_creds k k'"
  then show ?thesis using same_creds_current [of k k'] by (simp add: prctl_step_def)
qed (use commit_creds_eq in auto)

text \<open>
  C25. A capability prctl, whatever it returns, never grows the bounding set, never touches the
  permitted, effective or inheritable sets, and never unlocks a securebits lock nor changes a
  bit whose lock is set.
\<close>

theorem prctl_confined:
  assumes "cap_task_prctl kc env opt arg2 k = (r, k')"
  shows "caps (cap_bset (current_cred k')) \<subseteq> caps (cap_bset (current_cred k)) \<and>
    cap_permitted (current_cred k') = cap_permitted (current_cred k) \<and>
    cap_effective (current_cred k') = cap_effective (current_cred k) \<and>
    cap_inheritable (current_cred k') = cap_inheritable (current_cred k) \<and>
    (\<forall>x \<in> {SECURE_NOROOT, SECURE_NO_SETUID_FIXUP, SECURE_KEEP_CAPS}.
       bit (cr_securebits (current_cred k)) (Suc x) \<longrightarrow>
       bit (cr_securebits (current_cred k')) (Suc x) \<and>
       bit (cr_securebits (current_cred k')) x = bit (cr_securebits (current_cred k)) x)"
proof -
  consider (none) "current_cred k' = current_cred k"
    | (drop) c where "cap_valid c" "current_cred k' = (current_cred k)\<lparr>cap_bset := cap_lower (cap_bset (current_cred k)) c\<rparr>"
    | (bits) s where "current_cred k' = (current_cred k)\<lparr>cr_securebits := s\<rparr>"
        "drop_bit 1 (cr_securebits (current_cred k) AND SECURE_ALL_LOCKS) AND (cr_securebits (current_cred k) XOR s) = 0"
        "cr_securebits (current_cred k) AND SECURE_ALL_LOCKS AND NOT s = 0"
    using cap_task_prctl_step [OF assms] unfolding prctl_step_def by metis
  then show ?thesis
  proof cases
    case (drop c)
    then show ?thesis by (simp add: caps_lower cap_valid_def CAP_LAST_CAP_def subset_iff)
  next
    case (bits s)
    then show ?thesis
      using securebits_locks_kept [OF bits(2,3)] by simp
  qed simp
qed

theorem prctl_confined_witness:
  "\<exists>k'. cap_task_prctl victory_config alloc_ok PR_SET_KEEPCAPS 1
           (running ((init_cred victory_config)\<lparr>cr_securebits := 3\<rparr>)) = (Inr 0, k') \<and>
     bit (cr_securebits (current_cred k')) 0"
proof -
  let ?k = "running ((init_cred victory_config)\<lparr>cr_securebits := 3\<rparr>)"
  have "fst (cap_task_prctl victory_config alloc_ok PR_SET_KEEPCAPS 1 ?k) = Inr 0" by code_simp
  then obtain k' where k': "cap_task_prctl victory_config alloc_ok PR_SET_KEEPCAPS 1 ?k = (Inr 0, k')"
    by (metis prod.collapse)
  have "bit (cr_securebits (current_cred ?k)) 0" "bit (cr_securebits (current_cred ?k)) 1"
    by code_simp+
  with prctl_confined [OF k'] k' show ?thesis by (simp add: SECURE_NOROOT_def)
qed

end
