(* ===== verification/Setid.thy ===== *)
theory Setid
  imports Commoncap
begin

text \<open>
  The system calls that change the credentials of the current process: set*id of kernel/sys.c and
  capget and capset of kernel/capability.c. Each call prepares a copy of the credentials, checks
  and changes it, and commits it, in the order of the source. A sequence of such calls, together
  with setgroups and prctl, is a list of \<open>cred_call\<close>; \<open>run_calls\<close> runs it.

  The calls share one contract, the locale \<open>credential_call\<close>: it is discharged for each call
  below, and what follows from it holds for every sequence of calls.
\<close>

section \<open>set*id\<close>

text \<open>\<open>(uid_t) -1\<close>, the argument that leaves an id as it is.\<close>

abbreviation no_id :: u32 where "no_id \<equiv> - 1"

definition sys_setregid :: "kconfig \<Rightarrow> alloc_env \<Rightarrow> gid_t \<Rightarrow> gid_t \<Rightarrow> int kop" where
  "sys_setregid kc env rgid egid =
     with_new_creds env (\<lambda>old new.
       kbind (if rgid \<noteq> no_id
              then kbind (require (or_else (cr_gid old = rgid \<or> cr_egid old = rgid)
                            (capable kc CAP_SETGID)) EPERM)
                     (\<lambda>_. kreturn (new\<lparr>cr_gid := rgid\<rparr>))
              else kreturn new) (\<lambda>new.
       kbind (if egid \<noteq> no_id
              then kbind (require (or_else (cr_gid old = egid \<or> cr_egid old = egid \<or> cr_sgid old = egid)
                            (capable kc CAP_SETGID)) EPERM)
                     (\<lambda>_. kreturn (new\<lparr>cr_egid := egid\<rparr>))
              else kreturn new) (\<lambda>new.
       let new = (if rgid \<noteq> no_id \<or> (egid \<noteq> no_id \<and> egid \<noteq> cr_gid old)
                  then new\<lparr>cr_sgid := cr_egid new\<rparr> else new)
       in commit_creds (new\<lparr>cr_fsgid := cr_egid new\<rparr>))))"

definition sys_setgid :: "kconfig \<Rightarrow> alloc_env \<Rightarrow> gid_t \<Rightarrow> int kop" where
  "sys_setgid kc env gid =
     with_new_creds env (\<lambda>old new k.
       case capable kc CAP_SETGID k of
         (True, k) \<Rightarrow> commit_creds (new\<lparr>cr_gid := gid, cr_egid := gid, cr_sgid := gid, cr_fsgid := gid\<rparr>) k
       | (False, k) \<Rightarrow>
           if gid = cr_gid old \<or> gid = cr_sgid old
           then commit_creds (new\<lparr>cr_egid := gid, cr_fsgid := gid\<rparr>) k
           else (Inl EPERM, k))"

text \<open>
  \<open>alloc_uid\<close> finds or allocates the account of the new uid; the account is named by its uid, and
  INIT_USER is the account of uid 0. The comparison with the limit is unsigned.
\<close>

definition set_user :: "kconfig \<Rightarrow> alloc_env \<Rightarrow> cred \<Rightarrow> cred kop" where
  "set_user kc env new k =
     (if \<not> uid_alloc env then (Inl EAGAIN, k)
      else if \<not> can_switch_user kc (cr_uid new) (current k) then (Inl EINVAL, k)
      else if int (nproc_limit (current k)) \<le> processes k (cr_uid new) mod 2 ^ 32 \<and> cr_uid new \<noteq> 0
      then (Inl EAGAIN, k)
      else (Inr (new\<lparr>cr_user := cr_uid new\<rparr>), k))"

definition fix_and_commit :: "cred \<Rightarrow> nat \<Rightarrow> cred \<Rightarrow> int kop" where
  "fix_and_commit old flags new k =
     (case cap_task_fix_setuid k new old flags of
        Inl e \<Rightarrow> (Inl e, k)
      | Inr new \<Rightarrow> commit_creds new k)"

definition sys_setreuid :: "kconfig \<Rightarrow> alloc_env \<Rightarrow> uid_t \<Rightarrow> uid_t \<Rightarrow> int kop" where
  "sys_setreuid kc env ruid euid =
     with_new_creds env (\<lambda>old new.
       kbind (if ruid \<noteq> no_id
              then kbind (require (or_else (cr_uid old = ruid \<or> cr_euid old = ruid)
                            (capable kc CAP_SETUID)) EPERM)
                     (\<lambda>_. kreturn (new\<lparr>cr_uid := ruid\<rparr>))
              else kreturn new) (\<lambda>new.
       kbind (if euid \<noteq> no_id
              then kbind (require (or_else (cr_uid old = euid \<or> cr_euid old = euid \<or> cr_suid old = euid)
                            (capable kc CAP_SETUID)) EPERM)
                     (\<lambda>_. kreturn (new\<lparr>cr_euid := euid\<rparr>))
              else kreturn new) (\<lambda>new.
       kbind (if cr_uid new \<noteq> cr_uid old then set_user kc env new else kreturn new) (\<lambda>new.
       let new = (if ruid \<noteq> no_id \<or> (euid \<noteq> no_id \<and> euid \<noteq> cr_uid old)
                  then new\<lparr>cr_suid := cr_euid new\<rparr> else new)
       in fix_and_commit old LSM_SETID_RE (new\<lparr>cr_fsuid := cr_euid new\<rparr>)))))"

definition sys_setuid :: "kconfig \<Rightarrow> alloc_env \<Rightarrow> uid_t \<Rightarrow> int kop" where
  "sys_setuid kc env uid =
     with_new_creds env (\<lambda>old new k.
       kbind (\<lambda>k. case capable kc CAP_SETUID k of
                    (True, k) \<Rightarrow>
                      (let new = new\<lparr>cr_suid := uid, cr_uid := uid\<rparr>
                       in if uid \<noteq> cr_uid old then set_user kc env new k else (Inr new, k))
                  | (False, k) \<Rightarrow>
                      if uid \<noteq> cr_uid old \<and> uid \<noteq> cr_suid new then (Inl EPERM, k) else (Inr new, k))
         (\<lambda>new. fix_and_commit old LSM_SETID_ID (new\<lparr>cr_fsuid := uid, cr_euid := uid\<rparr>)) k)"

text \<open>\<open>id != (uid_t) -1 && id\<close> is none of the three ids the process has.\<close>

definition foreign_id :: "u32 \<Rightarrow> u32 \<Rightarrow> u32 \<Rightarrow> u32 \<Rightarrow> bool" where
  "foreign_id i r e s \<longleftrightarrow> i \<noteq> no_id \<and> i \<noteq> r \<and> i \<noteq> e \<and> i \<noteq> s"

definition sys_setresuid :: "kconfig \<Rightarrow> alloc_env \<Rightarrow> uid_t \<Rightarrow> uid_t \<Rightarrow> uid_t \<Rightarrow> int kop" where
  "sys_setresuid kc env ruid euid suid =
     with_new_creds env (\<lambda>old new k.
       case capable kc CAP_SETUID k of
         (may, k) \<Rightarrow>
           if \<not> may \<and> (foreign_id ruid (cr_uid old) (cr_euid old) (cr_suid old) \<or>
                       foreign_id euid (cr_uid old) (cr_euid old) (cr_suid old) \<or>
                       foreign_id suid (cr_uid old) (cr_euid old) (cr_suid old))
           then (Inl EPERM, k)
           else kbind (if ruid \<noteq> no_id
                       then let new = new\<lparr>cr_uid := ruid\<rparr>
                            in if ruid \<noteq> cr_uid old then set_user kc env new else kreturn new
                       else kreturn new) (\<lambda>new.
                  let new = (if euid \<noteq> no_id then new\<lparr>cr_euid := euid\<rparr> else new);
                      new = (if suid \<noteq> no_id then new\<lparr>cr_suid := suid\<rparr> else new)
                  in fix_and_commit old LSM_SETID_RES (new\<lparr>cr_fsuid := cr_euid new\<rparr>)) k)"

definition sys_setresgid :: "kconfig \<Rightarrow> alloc_env \<Rightarrow> gid_t \<Rightarrow> gid_t \<Rightarrow> gid_t \<Rightarrow> int kop" where
  "sys_setresgid kc env rgid egid sgid =
     with_new_creds env (\<lambda>old new k.
       case capable kc CAP_SETGID k of
         (may, k) \<Rightarrow>
           if \<not> may \<and> (foreign_id rgid (cr_gid old) (cr_egid old) (cr_sgid old) \<or>
                       foreign_id egid (cr_gid old) (cr_egid old) (cr_sgid old) \<or>
                       foreign_id sgid (cr_gid old) (cr_egid old) (cr_sgid old))
           then (Inl EPERM, k)
           else let new = (if rgid \<noteq> no_id then new\<lparr>cr_gid := rgid\<rparr> else new);
                    new = (if egid \<noteq> no_id then new\<lparr>cr_egid := egid\<rparr> else new);
                    new = (if sgid \<noteq> no_id then new\<lparr>cr_sgid := sgid\<rparr> else new)
                in commit_creds (new\<lparr>cr_fsgid := cr_egid new\<rparr>) k)"

text \<open>
  \<open>put_user\<close> at three addresses: each is writable or not. The result is the error and what was
  stored, in order.
\<close>

definition put_ids :: "u32 \<times> bool \<Rightarrow> u32 \<times> bool \<Rightarrow> u32 \<times> bool \<Rightarrow> unit ret \<times> u32 list" where
  "put_ids a b c =
     (if \<not> snd a then (Inl EFAULT, [])
      else if \<not> snd b then (Inl EFAULT, [fst a])
      else if \<not> snd c then (Inl EFAULT, [fst a, fst b])
      else (Inr (), [fst a, fst b, fst c]))"

definition sys_getresuid :: "kernel \<Rightarrow> bool \<Rightarrow> bool \<Rightarrow> bool \<Rightarrow> unit ret \<times> uid_t list" where
  "sys_getresuid k ruid euid suid =
     (let cred = current_cred k in put_ids (cr_uid cred, ruid) (cr_euid cred, euid) (cr_suid cred, suid))"

definition sys_getresgid :: "kernel \<Rightarrow> bool \<Rightarrow> bool \<Rightarrow> bool \<Rightarrow> unit ret \<times> gid_t list" where
  "sys_getresgid k rgid egid sgid =
     (let cred = current_cred k in put_ids (cr_gid cred, rgid) (cr_egid cred, egid) (cr_sgid cred, sgid))"

text \<open>setfsuid and setfsgid report the old id, also when they refuse.\<close>

definition sys_setfsuid :: "kconfig \<Rightarrow> alloc_env \<Rightarrow> uid_t \<Rightarrow> int kop" where
  "sys_setfsuid kc env uid k =
     (case prepare_creds env k of
        None \<Rightarrow> (Inr (sint (cr_fsuid (current_cred k))), k)
      | Some new \<Rightarrow>
          (let old = current_cred k; old_fsuid = cr_fsuid old in
           case or_else (uid = cr_uid old \<or> uid = cr_euid old \<or> uid = cr_suid old \<or> uid = cr_fsuid old)
                  (capable kc CAP_SETUID) k of
             (True, k) \<Rightarrow>
               if uid \<noteq> old_fsuid
               then (case cap_task_fix_setuid k (new\<lparr>cr_fsuid := uid\<rparr>) old LSM_SETID_FS of
                       Inr new \<Rightarrow> (Inr (sint old_fsuid), snd (commit_creds new k))
                     | Inl _ \<Rightarrow> (Inr (sint old_fsuid), k))
               else (Inr (sint old_fsuid), k)
           | (False, k) \<Rightarrow> (Inr (sint old_fsuid), k)))"

definition sys_setfsgid :: "kconfig \<Rightarrow> alloc_env \<Rightarrow> gid_t \<Rightarrow> int kop" where
  "sys_setfsgid kc env gid k =
     (case prepare_creds env k of
        None \<Rightarrow> (Inr (sint (cr_fsgid (current_cred k))), k)
      | Some new \<Rightarrow>
          (let old = current_cred k; old_fsgid = cr_fsgid old in
           case or_else (gid = cr_gid old \<or> gid = cr_egid old \<or> gid = cr_sgid old \<or> gid = cr_fsgid old)
                  (capable kc CAP_SETGID) k of
             (True, k) \<Rightarrow>
               if gid \<noteq> old_fsgid
               then (Inr (sint old_fsgid), snd (commit_creds (new\<lparr>cr_fsgid := gid\<rparr>) k))
               else (Inr (sint old_fsgid), k)
           | (False, k) \<Rightarrow> (Inr (sint old_fsgid), k)))"

section \<open>capget and capset\<close>

text \<open>
  The user's header: the version and pid words, \<open>None\<close> where reading faults, and whether the
  version word can be written. The data area is the list of its accessible entries.
\<close>

record cap_user_header =
  hdr_version :: "u32 option"
  hdr_version_writable :: bool
  hdr_pid :: "int option"

record cap_user_data =
  ud_effective :: u32
  ud_permitted :: u32
  ud_inheritable :: u32

definition LINUX_CAPABILITY_VERSION_1 :: u32 where "LINUX_CAPABILITY_VERSION_1 = 0x19980330"
definition LINUX_CAPABILITY_VERSION_2 :: u32 where "LINUX_CAPABILITY_VERSION_2 = 0x20071026"
definition LINUX_CAPABILITY_VERSION_3 :: u32 where "LINUX_CAPABILITY_VERSION_3 = 0x20080522"

definition cap_validate_magic :: "cap_user_header \<Rightarrow> nat ret \<times> cap_user_header" where
  "cap_validate_magic header =
     (case hdr_version header of
        None \<Rightarrow> (Inl EFAULT, header)
      | Some version \<Rightarrow>
          if version = LINUX_CAPABILITY_VERSION_1 then (Inr 1, header)
          else if version = LINUX_CAPABILITY_VERSION_2 \<or> version = LINUX_CAPABILITY_VERSION_3
          then (Inr 2, header)
          else if \<not> hdr_version_writable header then (Inl EFAULT, header)
          else (Inl EINVAL, header\<lparr>hdr_version := Some LINUX_CAPABILITY_VERSION_3\<rparr>))"

text \<open>\<open>find_task\<close> is the task list: the credentials of a process by its pid.\<close>

definition cap_get_target_pid ::
  "kernel \<Rightarrow> (int \<Rightarrow> cred option) \<Rightarrow> int \<Rightarrow> (kernel_cap_t \<times> kernel_cap_t \<times> kernel_cap_t) ret" where
  "cap_get_target_pid k find_task pid =
     (if pid \<noteq> 0 \<and> pid \<noteq> t_pid (current k)
      then (case find_task pid of None \<Rightarrow> Inl ESRCH | Some c \<Rightarrow> Inr (cap_capget c))
      else Inr (cap_capget (real_cred (current k))))"

definition sys_capget ::
  "kernel \<Rightarrow> (int \<Rightarrow> cred option) \<Rightarrow> cap_user_header \<Rightarrow> nat
     \<Rightarrow> cap_user_data list ret \<times> cap_user_header" where
  "sys_capget k find_task header room =
     (case cap_validate_magic header of
        (Inl e, header) \<Rightarrow> (Inl e, header)
      | (Inr tocopy, header) \<Rightarrow>
          (case hdr_pid header of
             None \<Rightarrow> (Inl EFAULT, header)
           | Some pid \<Rightarrow>
               if pid < 0 then (Inl EINVAL, header)
               else (case cap_get_target_pid k find_task pid of
                       Inl e \<Rightarrow> (Inl e, header)
                     | Inr (pE, pI, pP) \<Rightarrow>
                         if room < tocopy then (Inl EFAULT, header)
                         else (Inr (map (\<lambda>i. \<lparr>ud_effective = cap_word pE i, ud_permitted = cap_word pP i,
                                              ud_inheritable = cap_word pI i\<rparr>) [0..<tocopy]), header))))"

text \<open>The words of one of the three sets, zero beyond the entries copied.\<close>

definition cap_from_user :: "(cap_user_data \<Rightarrow> u32) \<Rightarrow> nat \<Rightarrow> cap_user_data list \<Rightarrow> kernel_cap_t" where
  "cap_from_user field tocopy kdata =
     Kernel_cap (if 0 < tocopy then field (kdata ! 0) else 0) (if 1 < tocopy then field (kdata ! 1) else 0)"

definition sys_capset ::
  "kconfig \<Rightarrow> alloc_env \<Rightarrow> cap_user_header \<Rightarrow> cap_user_data list \<Rightarrow> int kop" where
  "sys_capset kc env header data k =
     (case cap_validate_magic header of
        (Inl e, _) \<Rightarrow> (Inl e, k)
      | (Inr tocopy, _) \<Rightarrow>
          (case hdr_pid header of
             None \<Rightarrow> (Inl EFAULT, k)
           | Some pid \<Rightarrow>
               if pid \<noteq> 0 \<and> pid \<noteq> t_pid (current k) then (Inl EPERM, k)
               else if length data < tocopy then (Inl EFAULT, k)
               else with_new_creds env (\<lambda>old new k.
                      case cap_capset kc k new old (cap_from_user ud_effective tocopy data)
                             (cap_from_user ud_inheritable tocopy data)
                             (cap_from_user ud_permitted tocopy data) of
                        Inl e \<Rightarrow> (Inl e, k)
                      | Inr new \<Rightarrow> commit_creds new k) k))"

section \<open>Sequences of calls\<close>

datatype cred_call =
    Setregid gid_t gid_t
  | Setgid gid_t
  | Setreuid uid_t uid_t
  | Setuid uid_t
  | Setresuid uid_t uid_t uid_t
  | Setresgid gid_t gid_t gid_t
  | Setfsuid uid_t
  | Setfsgid gid_t
  | Setgroups "gid_t list option" "nat \<Rightarrow> gid_t list option" int user_gids
  | Capset cap_user_header "cap_user_data list"
  | Prctl int u32

fun do_call :: "kconfig \<Rightarrow> alloc_env \<Rightarrow> cred_call \<Rightarrow> int kop" where
  "do_call kc env (Setregid r e) = sys_setregid kc env r e"
| "do_call kc env (Setgid g) = sys_setgid kc env g"
| "do_call kc env (Setreuid r e) = sys_setreuid kc env r e"
| "do_call kc env (Setuid u) = sys_setuid kc env u"
| "do_call kc env (Setresuid r e s) = sys_setresuid kc env r e s"
| "do_call kc env (Setresgid r e s) = sys_setresgid kc env r e s"
| "do_call kc env (Setfsuid u) = sys_setfsuid kc env u"
| "do_call kc env (Setfsgid g) = sys_setfsgid kc env g"
| "do_call kc env (Setgroups m p n l) = sys_setgroups kc env m p n l"
| "do_call kc env (Capset h d) = sys_capset kc env h d"
| "do_call kc env (Prctl opt arg2) = cap_task_prctl kc env opt arg2"

fun run_calls :: "kconfig \<Rightarrow> (alloc_env \<times> cred_call) list \<Rightarrow> kernel \<Rightarrow> kernel" where
  "run_calls kc [] k = k"
| "run_calls kc ((env, c) # cs) k = run_calls kc cs (snd (do_call kc env c k))"

section \<open>The contract of the calls\<close>

definition cred_uids :: "cred \<Rightarrow> uid_t set" where
  "cred_uids c = {cr_uid c, cr_euid c, cr_suid c, cr_fsuid c}"

definition cred_gids :: "cred \<Rightarrow> gid_t set" where
  "cred_gids c = {cr_gid c, cr_egid c, cr_sgid c, cr_fsgid c}"

text \<open>The effective capabilities are permitted ones.\<close>

definition cred_ok :: "cred \<Rightarrow> bool" where
  "cred_ok c \<longleftrightarrow> cap_issubset (cap_effective c) (cap_permitted c)"

text \<open>
  What calls may do to credentials: permitted and bounding sets only shrink, the inheritable set
  grows at most within the bounding set, effective stays within permitted, the account follows
  the real uid, and ids change freely only with the capability to do so in the permitted set.
\<close>

definition confined :: "cred \<Rightarrow> cred \<Rightarrow> bool" where
  "confined old new \<longleftrightarrow>
     caps (cap_permitted new) \<subseteq> caps (cap_permitted old) \<and>
     caps (cap_bset new) \<subseteq> caps (cap_bset old) \<and>
     caps (cap_inheritable new) \<subseteq> caps (cap_inheritable old) \<union> caps (cap_bset old) \<and>
     (cr_user old = cr_uid old \<longrightarrow> cr_user new = cr_uid new) \<and>
     (cred_ok old \<longrightarrow> cred_ok new \<and>
       (CAP_SETUID \<notin> caps (cap_permitted old) \<longrightarrow> cred_uids new \<subseteq> cred_uids old) \<and>
       (CAP_SETGID \<notin> caps (cap_permitted old) \<longrightarrow>
          cred_gids new \<subseteq> cred_gids old \<and> cr_groups new = cr_groups old))"

lemma confined_refl [simp]: "confined c c"
  by (simp add: confined_def)

lemma confined_trans:
  assumes ab: "confined a b" and bc: "confined b c"
  shows "confined a c"
proof -
  have P: "caps (cap_permitted b) \<subseteq> caps (cap_permitted a)" "caps (cap_permitted c) \<subseteq> caps (cap_permitted b)"
    and B: "caps (cap_bset b) \<subseteq> caps (cap_bset a)" "caps (cap_bset c) \<subseteq> caps (cap_bset b)"
    and I: "caps (cap_inheritable b) \<subseteq> caps (cap_inheritable a) \<union> caps (cap_bset a)"
      "caps (cap_inheritable c) \<subseteq> caps (cap_inheritable b) \<union> caps (cap_bset b)"
    using ab bc by (simp_all add: confined_def)
  have "caps (cap_permitted c) \<subseteq> caps (cap_permitted a)" "caps (cap_bset c) \<subseteq> caps (cap_bset a)"
    "caps (cap_inheritable c) \<subseteq> caps (cap_inheritable a) \<union> caps (cap_bset a)"
    using P B I by blast+
  moreover have "cred_ok a \<Longrightarrow> CAP_SETUID \<notin> caps (cap_permitted a) \<Longrightarrow> cred_uids c \<subseteq> cred_uids a"
    "cred_ok a \<Longrightarrow> CAP_SETGID \<notin> caps (cap_permitted a) \<Longrightarrow> cred_gids c \<subseteq> cred_gids a"
    using ab bc P(1) by (auto simp: confined_def)
  moreover have "cred_ok a \<Longrightarrow> CAP_SETGID \<notin> caps (cap_permitted a) \<Longrightarrow> cr_groups c = cr_groups a"
    "cred_ok a \<Longrightarrow> cred_ok c" "cr_user a = cr_uid a \<Longrightarrow> cr_user c = cr_uid c"
    using ab bc P(1) by (auto simp: confined_def)
  ultimately show ?thesis by (simp add: confined_def)
qed

locale credential_call =
  fixes call :: "kernel \<Rightarrow> kernel"
  assumes call_confined: "overriding (current k) = None \<Longrightarrow> confined (current_cred k) (current_cred (call k))"
    and call_normal: "overriding (current k) = None \<Longrightarrow> overriding (current (call k)) = None"
    and call_no_bug: "overriding (current k) = None \<Longrightarrow> bug_hit (current (call k)) = bug_hit (current k)"
begin

lemma call_iterated:
  assumes "overriding (current k) = None"
  shows "confined (current_cred k) (current_cred ((call ^^ n) k)) \<and> overriding (current ((call ^^ n) k)) = None \<and>
    bug_hit (current ((call ^^ n) k)) = bug_hit (current k)"
proof (induction n)
  case (Suc n)
  then show ?case
    using call_confined [of "(call ^^ n) k"] call_normal [of "(call ^^ n) k"] call_no_bug [of "(call ^^ n) k"]
    by (auto intro: confined_trans)
qed (simp add: assms)

lemma call_keeps_ids_without_privilege:
  assumes "overriding (current k) = None" "cred_ok (current_cred k)" "caps (cap_permitted (current_cred k)) = {}"
  shows "caps (cap_permitted (current_cred (call k))) = {}" "cred_uids (current_cred (call k)) \<subseteq> cred_uids (current_cred k)"
  using call_confined [OF assms(1)] assms(2,3) by (auto simp: confined_def)

end

lemma credential_call_id: "credential_call (\<lambda>k. k)"
  by unfold_locales auto

lemma credential_call_comp:
  assumes f: "credential_call f" and g: "credential_call g"
  shows "credential_call (\<lambda>k. g (f k))"
proof
  fix k :: kernel
  assume k: "overriding (current k) = None"
  note fk = credential_call.call_normal [OF f k]
  show "confined (current_cred k) (current_cred (g (f k)))"
    by (rule confined_trans [OF credential_call.call_confined [OF f k] credential_call.call_confined [OF g fk]])
  show "overriding (current (g (f k))) = None"
    by (rule credential_call.call_normal [OF g fk])
  show "bug_hit (current (g (f k))) = bug_hit (current k)"
    by (simp add: credential_call.call_no_bug [OF g fk] credential_call.call_no_bug [OF f k])
qed

section \<open>Every call meets the contract\<close>

text \<open>
  An outcome of a call: an error with the credentials untouched, or a commit (or no change) of
  confined credentials.
\<close>

definition cred_outcome :: "kernel \<Rightarrow> 'a ret \<Rightarrow> kernel \<Rightarrow> bool" where
  "cred_outcome k r k' \<longleftrightarrow> same_creds k k' \<or>
     (\<not> is_err r \<and> (\<exists>k1 new. same_creds k k1 \<and> k' = snd (commit_creds new k1) \<and> confined (current_cred k) new))"

lemma cred_outcome_same [intro]: "same_creds k k' \<Longrightarrow> cred_outcome k r k'"
  by (simp add: cred_outcome_def)

lemma credential_callI:
  assumes "\<And>k r k'. call k = (r, k') \<Longrightarrow> cred_outcome k r k'"
  shows "credential_call (\<lambda>k. snd (call k))"
proof -
  have "overriding (current k) = None \<longrightarrow> confined (current_cred k) (current_cred (snd (call k))) \<and>
     overriding (current (snd (call k))) = None \<and>
     bug_hit (current (snd (call k))) = bug_hit (current k)" for k
  proof -
    consider "same_creds k (snd (call k))"
      | k1 new where "same_creds k k1" "snd (call k) = snd (commit_creds new k1)" "confined (current_cred k) new"
      using assms [of k "fst (call k)" "snd (call k)"] by (auto simp: cred_outcome_def)
    then show ?thesis
    proof cases
      case 1
      then show ?thesis using same_creds_current [OF 1] by (simp add: same_creds_def)
    next
      case (2 k1 new)
      then show ?thesis by (simp add: commit_creds_no_bug same_creds_def)
    qed
  qed
  then show ?thesis by unfold_locales auto
qed

lemma cred_outcome_commit:
  assumes "commit_creds new k1 = (r, k')" "same_creds k k1" "confined (current_cred k) new"
  shows "cred_outcome k r k'"
  unfolding cred_outcome_def using assms(2,3) commit_creds_eq [OF assms(1)]
  by (intro disjI2 conjI exI [of _ k1] exI [of _ new]) (simp_all add: assms(1))

lemma cap_capable_setid:
  "cap_capable kc k c CAP_SETUID \<longleftrightarrow> CAP_SETUID \<in> caps (cap_effective c)"
  "cap_capable kc k c CAP_SETGID \<longleftrightarrow> CAP_SETGID \<in> caps (cap_effective c)"
  by (simp_all add: cap_capable_def cap_raised_iff CAP_numbers)

lemma cap_emulate_setxuid_frame:
  "caps (cap_permitted (cap_emulate_setxuid k new old)) \<subseteq> caps (cap_permitted new)"
    "cr_uid (cap_emulate_setxuid k new old) = cr_uid new"
    "cr_euid (cap_emulate_setxuid k new old) = cr_euid new"
    "cr_suid (cap_emulate_setxuid k new old) = cr_suid new"
    "cr_fsuid (cap_emulate_setxuid k new old) = cr_fsuid new"
    "cr_gid (cap_emulate_setxuid k new old) = cr_gid new"
    "cr_egid (cap_emulate_setxuid k new old) = cr_egid new"
    "cr_sgid (cap_emulate_setxuid k new old) = cr_sgid new"
    "cr_fsgid (cap_emulate_setxuid k new old) = cr_fsgid new"
    "cr_groups (cap_emulate_setxuid k new old) = cr_groups new"
    "cr_user (cap_emulate_setxuid k new old) = cr_user new"
    "cap_bset (cap_emulate_setxuid k new old) = cap_bset new"
    "cap_inheritable (cap_emulate_setxuid k new old) = cap_inheritable new"
    "cr_securebits (cap_emulate_setxuid k new old) = cr_securebits new"
  by (simp_all add: cap_emulate_setxuid_def Let_def caps_empty)

lemma cap_task_fix_setuid_frame:
  assumes "cap_task_fix_setuid k new old flags = Inr c"
  shows "caps (cap_permitted c) \<subseteq> caps (cap_permitted new)"
    "cr_uid c = cr_uid new" "cr_euid c = cr_euid new" "cr_suid c = cr_suid new"
    "cr_fsuid c = cr_fsuid new" "cr_gid c = cr_gid new" "cr_egid c = cr_egid new"
    "cr_sgid c = cr_sgid new" "cr_fsgid c = cr_fsgid new" "cr_groups c = cr_groups new"
    "cr_user c = cr_user new" "cap_bset c = cap_bset new" "cap_inheritable c = cap_inheritable new"
    "cr_securebits c = cr_securebits new"
  using assms
  by (auto simp: cap_task_fix_setuid_def Let_def cap_emulate_setxuid_frame subsetD [OF cap_emulate_setxuid_frame(1)]
      split: if_splits)

text \<open>Credentials that differ from the old ones in user ids only, before the capability fix-up.\<close>

definition uid_change :: "bool \<Rightarrow> cred \<Rightarrow> cred \<Rightarrow> bool" where
  "uid_change may old new \<longleftrightarrow>
     cr_gid new = cr_gid old \<and> cr_egid new = cr_egid old \<and> cr_sgid new = cr_sgid old \<and>
     cr_fsgid new = cr_fsgid old \<and> cr_groups new = cr_groups old \<and>
     cap_permitted new = cap_permitted old \<and> cap_effective new = cap_effective old \<and>
     cap_inheritable new = cap_inheritable old \<and> cap_bset new = cap_bset old \<and>
     (cr_user old = cr_uid old \<longrightarrow> cr_user new = cr_uid new) \<and>
     (may \<or> cr_uid new \<in> cred_uids old) \<and> (may \<or> cr_euid new \<in> cred_uids old) \<and>
     (may \<or> cr_suid new \<in> cred_uids old) \<and> (may \<or> cr_fsuid new \<in> cred_uids old)"

definition gid_change :: "bool \<Rightarrow> cred \<Rightarrow> cred \<Rightarrow> bool" where
  "gid_change may old new \<longleftrightarrow>
     cr_uid new = cr_uid old \<and> cr_euid new = cr_euid old \<and> cr_suid new = cr_suid old \<and>
     cr_fsuid new = cr_fsuid old \<and> cr_user new = cr_user old \<and>
     cap_permitted new = cap_permitted old \<and> cap_effective new = cap_effective old \<and>
     cap_inheritable new = cap_inheritable old \<and> cap_bset new = cap_bset old \<and>
     (may \<or> cr_groups new = cr_groups old) \<and>
     (may \<or> cr_gid new \<in> cred_gids old) \<and> (may \<or> cr_egid new \<in> cred_gids old) \<and>
     (may \<or> cr_sgid new \<in> cred_gids old) \<and> (may \<or> cr_fsgid new \<in> cred_gids old)"

lemma own_ids [simp]:
  "cr_uid c \<in> cred_uids c" "cr_euid c \<in> cred_uids c" "cr_suid c \<in> cred_uids c" "cr_fsuid c \<in> cred_uids c"
  "cr_gid c \<in> cred_gids c" "cr_egid c \<in> cred_gids c" "cr_sgid c \<in> cred_gids c" "cr_fsgid c \<in> cred_gids c"
  by (simp_all add: cred_uids_def cred_gids_def)

lemma cred_ok_permitted: "cred_ok c \<Longrightarrow> n \<notin> caps (cap_permitted c) \<Longrightarrow> n \<notin> caps (cap_effective c)"
  by (auto simp: cred_ok_def cap_issubset_iff)

lemma gid_change_confined:
  assumes "gid_change (CAP_SETGID \<in> caps (cap_effective old)) old new"
  shows "confined old new"
proof -
  have "cred_uids new = cred_uids old" "cred_ok new = cred_ok old"
    using assms by (simp_all add: gid_change_def cred_uids_def cred_ok_def)
  moreover have "CAP_SETGID \<notin> caps (cap_effective old) \<Longrightarrow> cred_gids new \<subseteq> cred_gids old"
    using assms by (simp add: gid_change_def cred_gids_def [of new])
  ultimately show ?thesis
    using assms cred_ok_permitted [of old CAP_SETGID] by (auto simp: gid_change_def confined_def)
qed

lemma uid_change_confined:
  assumes "uid_change (CAP_SETUID \<in> caps (cap_effective old)) old new"
    and c: "cap_task_fix_setuid k new old flags = Inr c"
  shows "confined old c"
proof -
  note fr = cap_task_fix_setuid_frame [OF c]
  have "cred_gids c = cred_gids old" using assms(1) by (simp add: cred_gids_def fr uid_change_def)
  moreover have "cred_ok old \<Longrightarrow> cred_ok c"
    using assms(1) cap_task_fix_setuid_Inr(3) [OF c] by (simp add: uid_change_def cred_ok_def)
  moreover have "CAP_SETUID \<notin> caps (cap_effective old) \<Longrightarrow> cred_uids c \<subseteq> cred_uids old"
    using assms(1) by (simp add: uid_change_def fr cred_uids_def [of c])
  ultimately show ?thesis
    using assms(1) fr(1) cred_ok_permitted [of old CAP_SETUID]
    by (simp add: confined_def uid_change_def fr(2-))
qed

lemma fix_and_commit_outcome:
  assumes "fix_and_commit old flags new k1 = (r, k')" "same_creds k k1" "old = current_cred k"
    and "uid_change (CAP_SETUID \<in> caps (cap_effective old)) old new"
  shows "cred_outcome k r k'"
  using assms by (auto simp: fix_and_commit_def intro: cred_outcome_commit uid_change_confined split: sum.splits)

text \<open>One checked id argument.\<close>

lemma checked_id:
  assumes "(if i \<noteq> no_id then kbind (require (or_else b (capable kc cap)) EPERM) (\<lambda>_. kreturn new')
            else kreturn new) k = (r, k')" "cap_valid cap"
  shows "same_creds k k' \<and>
    (r = Inl EPERM \<or> (i = no_id \<and> r = Inr new) \<or>
     (i \<noteq> no_id \<and> r = Inr new' \<and> (b \<or> cap_capable kc k (current_cred k) cap)))"
  using assms require_or_else [of b kc cap EPERM k]
  by (auto simp: kbind_Inr kreturn_def split: if_splits)

lemma set_user_Inr:
  "set_user kc env new k = (r, k') \<Longrightarrow> k' = k \<and> (is_err r \<or> r = Inr (new\<lparr>cr_user := cr_uid new\<rparr>))"
  by (auto simp: set_user_def split: if_splits)

text \<open>A conditional update of one id, as an update with a conditional value.\<close>

lemma if_update_id:
  "(if b then c\<lparr>cr_uid := x\<rparr> else c) = c\<lparr>cr_uid := if b then x else cr_uid c\<rparr>"
  "(if b then c\<lparr>cr_euid := x\<rparr> else c) = c\<lparr>cr_euid := if b then x else cr_euid c\<rparr>"
  "(if b then c\<lparr>cr_suid := x\<rparr> else c) = c\<lparr>cr_suid := if b then x else cr_suid c\<rparr>"
  "(if b then c\<lparr>cr_gid := x\<rparr> else c) = c\<lparr>cr_gid := if b then x else cr_gid c\<rparr>"
  "(if b then c\<lparr>cr_egid := x\<rparr> else c) = c\<lparr>cr_egid := if b then x else cr_egid c\<rparr>"
  "(if b then c\<lparr>cr_sgid := x\<rparr> else c) = c\<lparr>cr_sgid := if b then x else cr_sgid c\<rparr>"
  by simp_all

lemma foreign_id_own:
  "\<not> foreign_id i (cr_uid c) (cr_euid c) (cr_suid c) \<Longrightarrow> i \<noteq> no_id \<Longrightarrow> i \<in> cred_uids c"
  "\<not> foreign_id i (cr_gid c) (cr_egid c) (cr_sgid c) \<Longrightarrow> i \<noteq> no_id \<Longrightarrow> i \<in> cred_gids c"
  by (auto simp: foreign_id_def)

lemma with_new_creds_outcome:
  assumes "with_new_creds env body k = (r, k')"
    and "body (current_cred k) (current_cred k) k = (r, k') \<Longrightarrow> cred_outcome k r k'"
  shows "cred_outcome k r k'"
  using assms by (auto simp: with_new_creds_eq)

lemma gid_change_outcome:
  assumes "commit_creds new k1 = (r, k')" "same_creds k k1"
    and "gid_change (CAP_SETGID \<in> caps (cap_effective (current_cred k))) (current_cred k) new"
  shows "cred_outcome k r k'"
  by (rule cred_outcome_commit [OF assms(1,2) gid_change_confined [OF assms(3)]])

lemma sys_setregid_outcome:
  assumes "sys_setregid kc env rgid egid k = (r, k')"
  shows "cred_outcome k r k'"
  using assms unfolding sys_setregid_def
proof (rule with_new_creds_outcome, unfold kbind_Inr, elim disjE exE conjE)
  let ?old = "current_cred k"
  let ?may = "CAP_SETGID \<in> caps (cap_effective ?old)"
  fix n1 k1 n2 k2
  assume 1: "(if rgid \<noteq> no_id then kbind (require (or_else (cr_gid ?old = rgid \<or> cr_egid ?old = rgid) (capable kc CAP_SETGID)) EPERM)
      (\<lambda>_. kreturn (?old\<lparr>cr_gid := rgid\<rparr>)) else kreturn ?old) k = (Inr n1, k1)"
    and 2: "(if egid \<noteq> no_id then kbind (require (or_else (cr_gid ?old = egid \<or> cr_egid ?old = egid \<or> cr_sgid ?old = egid)
      (capable kc CAP_SETGID)) EPERM) (\<lambda>_. kreturn (n1\<lparr>cr_egid := egid\<rparr>)) else kreturn n1) k1 = (Inr n2, k2)"
    and 3: "(let new = (if rgid \<noteq> no_id \<or> (egid \<noteq> no_id \<and> egid \<noteq> cr_gid ?old) then n2\<lparr>cr_sgid := cr_egid n2\<rparr> else n2)
       in commit_creds (new\<lparr>cr_fsgid := cr_egid new\<rparr>)) k2 = (r, k')"
  have s: "same_creds k k1" "same_creds k1 k2"
    using checked_id [OF 1] checked_id [OF 2] by auto
  have n1: "n1 = ?old\<lparr>cr_gid := if rgid \<noteq> no_id then rgid else cr_gid ?old\<rparr>" "rgid = no_id \<or> ?may \<or> rgid \<in> cred_gids ?old"
    using checked_id [OF 1] by (auto simp: cap_capable_setid)
  have n2: "n2 = n1\<lparr>cr_egid := if egid \<noteq> no_id then egid else cr_egid n1\<rparr>" "egid = no_id \<or> ?may \<or> egid \<in> cred_gids ?old"
    using checked_id [OF 2] by (auto simp: cap_capable_setid same_creds_current [OF s(1)])
  let ?n3 = "n2\<lparr>cr_sgid := if rgid \<noteq> no_id \<or> (egid \<noteq> no_id \<and> egid \<noteq> cr_gid ?old) then cr_egid n2 else cr_sgid n2,
     cr_fsgid := cr_egid n2\<rparr>"
  have "commit_creds ?n3 k2 = (r, k')"
    using 3 by (simp only: Let_def if_update_id) simp
  moreover have "gid_change ?may ?old ?n3"
    unfolding gid_change_def n2(1) n1(1) using n1(2) n2(2) by auto
  ultimately show "cred_outcome k r k'"
    using gid_change_outcome same_creds_trans [OF s] by blast
qed (auto dest!: checked_id intro: same_creds_trans)

lemma sys_setgid_outcome:
  assumes "sys_setgid kc env gid k = (r, k')"
  shows "cred_outcome k r k'"
  using assms unfolding sys_setgid_def
proof (rule with_new_creds_outcome)
  let ?old = "current_cred k"
  let ?may = "CAP_SETGID \<in> caps (cap_effective ?old)"
  obtain b k1 where c: "capable kc CAP_SETGID k = (b, k1)" by fastforce
  have s: "same_creds k k1" "b = ?may" using capable_cases [OF c] by (simp_all add: cap_capable_setid)
  assume "(case capable kc CAP_SETGID k of
         (True, k) \<Rightarrow> commit_creds (?old\<lparr>cr_gid := gid, cr_egid := gid, cr_sgid := gid, cr_fsgid := gid\<rparr>) k
       | (False, k) \<Rightarrow> if gid = cr_gid ?old \<or> gid = cr_sgid ?old
           then commit_creds (?old\<lparr>cr_egid := gid, cr_fsgid := gid\<rparr>) k else (Inl EPERM, k)) = (r, k')"
  then consider n where "commit_creds n k1 = (r, k')" "gid_change ?may ?old n" | "k' = k1"
    using c s(2) by (auto simp: gid_change_def split: bool.splits if_splits)
  then show "cred_outcome k r k'"
    using s(1) gid_change_outcome by cases blast+
qed

lemma sys_setresgid_outcome:
  assumes "sys_setresgid kc env rgid egid sgid k = (r, k')"
  shows "cred_outcome k r k'"
  using assms unfolding sys_setresgid_def
proof (rule with_new_creds_outcome)
  let ?old = "current_cred k"
  let ?may = "CAP_SETGID \<in> caps (cap_effective ?old)"
  let ?foreign = "foreign_id rgid (cr_gid ?old) (cr_egid ?old) (cr_sgid ?old) \<or>
                  foreign_id egid (cr_gid ?old) (cr_egid ?old) (cr_sgid ?old) \<or>
                  foreign_id sgid (cr_gid ?old) (cr_egid ?old) (cr_sgid ?old)"
  obtain b k1 where c: "capable kc CAP_SETGID k = (b, k1)" by fastforce
  have s: "same_creds k k1" "b = ?may" using capable_cases [OF c] by (simp_all add: cap_capable_setid)
  let ?n = "?old\<lparr>cr_gid := if rgid \<noteq> no_id then rgid else cr_gid ?old,
     cr_egid := if egid \<noteq> no_id then egid else cr_egid ?old,
     cr_sgid := if sgid \<noteq> no_id then sgid else cr_sgid ?old,
     cr_fsgid := if egid \<noteq> no_id then egid else cr_egid ?old\<rparr>"
  assume "(case capable kc CAP_SETGID k of (may, k) \<Rightarrow>
       if \<not> may \<and> ?foreign then (Inl EPERM, k)
       else let new = (if rgid \<noteq> no_id then ?old\<lparr>cr_gid := rgid\<rparr> else ?old);
                new = (if egid \<noteq> no_id then new\<lparr>cr_egid := egid\<rparr> else new);
                new = (if sgid \<noteq> no_id then new\<lparr>cr_sgid := sgid\<rparr> else new)
            in commit_creds (new\<lparr>cr_fsgid := cr_egid new\<rparr>) k) = (r, k')"
  then have "(if \<not> ?may \<and> ?foreign then (Inl EPERM, k1) else commit_creds ?n k1) = (r, k')"
    by (simp add: c s(2) Let_def if_update_id cong: if_cong)
  moreover have "gid_change ?may ?old ?n" if "\<not> (\<not> ?may \<and> ?foreign)"
    unfolding gid_change_def using that foreign_id_own(2) [of _ ?old] by auto
  ultimately show "cred_outcome k r k'"
    using s(1) gid_change_outcome by (auto split: if_splits)
qed

lemma user_step:
  "(if b then set_user kc env new else kreturn new) k = (r, k') \<Longrightarrow>
     k' = k \<and> (is_err r \<or> r = Inr (new\<lparr>cr_user := if b then cr_uid new else cr_user new\<rparr>))"
  by (auto simp: kreturn_def dest: set_user_Inr split: if_splits)

lemma sys_setreuid_outcome:
  assumes "sys_setreuid kc env ruid euid k = (r, k')"
  shows "cred_outcome k r k'"
  using assms unfolding sys_setreuid_def
proof (rule with_new_creds_outcome, unfold kbind_Inr, elim disjE exE conjE)
  let ?old = "current_cred k"
  let ?may = "CAP_SETUID \<in> caps (cap_effective ?old)"
  fix n1 k1 n2 k2 n3 k3
  assume 1: "(if ruid \<noteq> no_id then kbind (require (or_else (cr_uid ?old = ruid \<or> cr_euid ?old = ruid) (capable kc CAP_SETUID)) EPERM)
      (\<lambda>_. kreturn (?old\<lparr>cr_uid := ruid\<rparr>)) else kreturn ?old) k = (Inr n1, k1)"
    and 2: "(if euid \<noteq> no_id then kbind (require (or_else (cr_uid ?old = euid \<or> cr_euid ?old = euid \<or> cr_suid ?old = euid)
      (capable kc CAP_SETUID)) EPERM) (\<lambda>_. kreturn (n1\<lparr>cr_euid := euid\<rparr>)) else kreturn n1) k1 = (Inr n2, k2)"
    and 3: "(if cr_uid n2 \<noteq> cr_uid ?old then set_user kc env n2 else kreturn n2) k2 = (Inr n3, k3)"
    and 4: "(let new = (if ruid \<noteq> no_id \<or> (euid \<noteq> no_id \<and> euid \<noteq> cr_uid ?old) then n3\<lparr>cr_suid := cr_euid n3\<rparr> else n3)
       in fix_and_commit ?old LSM_SETID_RE (new\<lparr>cr_fsuid := cr_euid new\<rparr>)) k3 = (r, k')"
  have s: "same_creds k k1" "same_creds k1 k2" "k3 = k2"
    using checked_id [OF 1] checked_id [OF 2] user_step [OF 3] by auto
  have n1: "n1 = ?old\<lparr>cr_uid := if ruid \<noteq> no_id then ruid else cr_uid ?old\<rparr>" "ruid = no_id \<or> ?may \<or> ruid \<in> cred_uids ?old"
    using checked_id [OF 1] by (auto simp: cap_capable_setid)
  have n2: "n2 = n1\<lparr>cr_euid := if euid \<noteq> no_id then euid else cr_euid n1\<rparr>" "euid = no_id \<or> ?may \<or> euid \<in> cred_uids ?old"
    using checked_id [OF 2] by (auto simp: cap_capable_setid same_creds_current [OF s(1)])
  have n3: "n3 = n2\<lparr>cr_user := if cr_uid n2 \<noteq> cr_uid ?old then cr_uid n2 else cr_user n2\<rparr>"
    using user_step [OF 3] by auto
  let ?n4 = "n3\<lparr>cr_suid := if ruid \<noteq> no_id \<or> (euid \<noteq> no_id \<and> euid \<noteq> cr_uid ?old) then cr_euid n3 else cr_suid n3,
     cr_fsuid := cr_euid n3\<rparr>"
  have "fix_and_commit ?old LSM_SETID_RE ?n4 k3 = (r, k')"
    using 4 by (simp only: Let_def if_update_id) simp
  moreover have "uid_change ?may ?old ?n4"
    unfolding uid_change_def n3 n2(1) n1(1) using n1(2) n2(2) by auto
  ultimately show "cred_outcome k r k'"
    using fix_and_commit_outcome same_creds_trans [OF s(1,2)] s(3) by blast
qed (auto dest!: checked_id user_step intro: same_creds_trans)

lemma sys_setuid_outcome:
  assumes "sys_setuid kc env uid k = (r, k')"
  shows "cred_outcome k r k'"
  using assms unfolding sys_setuid_def
proof (rule with_new_creds_outcome)
  let ?old = "current_cred k"
  let ?may = "CAP_SETUID \<in> caps (cap_effective ?old)"
  obtain b k1 where c: "capable kc CAP_SETUID k = (b, k1)" by fastforce
  have s: "same_creds k k1" "b = ?may" using capable_cases [OF c] by (simp_all add: cap_capable_setid)
  let ?set = "\<lambda>k. case capable kc CAP_SETUID k of
         (True, k) \<Rightarrow> (let new = ?old\<lparr>cr_suid := uid, cr_uid := uid\<rparr>
                       in if uid \<noteq> cr_uid ?old then set_user kc env new k else (Inr new, k))
       | (False, k) \<Rightarrow> if uid \<noteq> cr_uid ?old \<and> uid \<noteq> cr_suid ?old then (Inl EPERM, k) else (Inr ?old, k)"
  assume "kbind ?set (\<lambda>new. fix_and_commit ?old LSM_SETID_ID (new\<lparr>cr_fsuid := uid, cr_euid := uid\<rparr>)) k = (r, k')"
  then consider (err) e where "?set k = (Inl e, k')"
    | (ok) new k2 where "?set k = (Inr new, k2)"
        "fix_and_commit ?old LSM_SETID_ID (new\<lparr>cr_fsuid := uid, cr_euid := uid\<rparr>) k2 = (r, k')"
    by (auto simp only: kbind_Inr)
  then show "cred_outcome k r k'"
  proof cases
    case err
    then have "k' = k1"
      using c by (auto simp: Let_def dest: set_user_Inr split: bool.splits if_splits)
    with s show ?thesis by auto
  next
    case (ok new k2)
    then have k2: "k2 = k1"
      using c by (auto simp: Let_def dest: set_user_Inr split: bool.splits if_splits)
    have "uid_change ?may ?old (new\<lparr>cr_fsuid := uid, cr_euid := uid\<rparr>)"
      using ok(1) c s(2) by (auto simp: uid_change_def Let_def dest!: set_user_Inr split: bool.splits if_splits)
    with ok(2) s(1) k2 show ?thesis using fix_and_commit_outcome by blast
  qed
qed

lemma sys_setresuid_outcome:
  assumes "sys_setresuid kc env ruid euid suid k = (r, k')"
  shows "cred_outcome k r k'"
  using assms unfolding sys_setresuid_def
proof (rule with_new_creds_outcome)
  let ?old = "current_cred k"
  let ?may = "CAP_SETUID \<in> caps (cap_effective ?old)"
  let ?foreign = "foreign_id ruid (cr_uid ?old) (cr_euid ?old) (cr_suid ?old) \<or>
                  foreign_id euid (cr_uid ?old) (cr_euid ?old) (cr_suid ?old) \<or>
                  foreign_id suid (cr_uid ?old) (cr_euid ?old) (cr_suid ?old)"
  obtain b k1 where c: "capable kc CAP_SETUID k = (b, k1)" by fastforce
  have s: "same_creds k k1" "b = ?may" using capable_cases [OF c] by (simp_all add: cap_capable_setid)
  define setr where "setr = (if ruid \<noteq> no_id
              then let new = ?old\<lparr>cr_uid := ruid\<rparr>
                   in if ruid \<noteq> cr_uid ?old then set_user kc env new else kreturn new
              else kreturn ?old)"
  let ?n = "\<lambda>new. new\<lparr>cr_euid := if euid \<noteq> no_id then euid else cr_euid new,
     cr_suid := if suid \<noteq> no_id then suid else cr_suid new,
     cr_fsuid := if euid \<noteq> no_id then euid else cr_euid new\<rparr>"
  have body: "(\<lambda>new. let new = (if euid \<noteq> no_id then new\<lparr>cr_euid := euid\<rparr> else new);
                  new = (if suid \<noteq> no_id then new\<lparr>cr_suid := suid\<rparr> else new)
              in fix_and_commit ?old LSM_SETID_RES (new\<lparr>cr_fsuid := cr_euid new\<rparr>))
     = (\<lambda>new. fix_and_commit ?old LSM_SETID_RES (?n new))"
    by (simp only: Let_def if_update_id) (simp cong: if_cong)
  have setr: "k2 = k1 \<and> (is_err s \<or> s = Inr (?old\<lparr>cr_uid := if ruid \<noteq> no_id then ruid else cr_uid ?old,
            cr_user := if ruid \<noteq> no_id \<and> ruid \<noteq> cr_uid ?old then ruid else cr_user ?old\<rparr>))"
    if "setr k1 = (s, k2)" for s k2
    using that unfolding setr_def by (auto simp: Let_def kreturn_def dest!: set_user_Inr split: if_splits)
  assume "(case capable kc CAP_SETUID k of (may, k) \<Rightarrow>
       if \<not> may \<and> ?foreign then (Inl EPERM, k)
       else kbind (if ruid \<noteq> no_id
              then let new = ?old\<lparr>cr_uid := ruid\<rparr>
                   in if ruid \<noteq> cr_uid ?old then set_user kc env new else kreturn new
              else kreturn ?old) (\<lambda>new. let new = (if euid \<noteq> no_id then new\<lparr>cr_euid := euid\<rparr> else new);
                  new = (if suid \<noteq> no_id then new\<lparr>cr_suid := suid\<rparr> else new)
              in fix_and_commit ?old LSM_SETID_RES (new\<lparr>cr_fsuid := cr_euid new\<rparr>)) k) = (r, k')"
  then have "(if \<not> ?may \<and> ?foreign then (Inl EPERM, k1)
      else kbind setr (\<lambda>new. fix_and_commit ?old LSM_SETID_RES (?n new)) k1) = (r, k')"
    by (simp only: c case_prod_conv s(2) body setr_def [symmetric])
  then consider (err) "k' = k1"
    | (ok) new k2 where "?may \<or> \<not> ?foreign" "setr k1 = (Inr new, k2)"
        "fix_and_commit ?old LSM_SETID_RES (?n new) k2 = (r, k')"
    by (cases "\<not> ?may \<and> ?foreign") (auto simp: kbind_Inr dest: setr)
  then show "cred_outcome k r k'"
  proof cases
    case (ok new k2)
    have "uid_change ?may ?old (?n new)"
      using setr [OF ok(2)] ok(1) foreign_id_own(1) [of _ ?old] by (auto simp: uid_change_def)
    with ok(3) s(1) setr [OF ok(2)] show ?thesis using fix_and_commit_outcome by blast
  qed (use s in auto)
qed

lemma or_else_capable:
  assumes "or_else b (capable kc cap) k = (t, k')" "cap_valid cap"
  shows "same_creds k k'" "t \<longleftrightarrow> b \<or> cap_capable kc k (current_cred k) cap"
  using assms capable_cases [of kc cap k] by (auto simp: or_else_def split: if_splits)

lemma sys_setfsuid_outcome:
  assumes "sys_setfsuid kc env uid k = (r, k')"
  shows "cred_outcome k r k'"
proof (cases "cred_alloc env")
  case True
  let ?old = "current_cred k"
  let ?own = "uid = cr_uid ?old \<or> uid = cr_euid ?old \<or> uid = cr_suid ?old \<or> uid = cr_fsuid ?old"
  obtain t k1 where c: "or_else ?own (capable kc CAP_SETUID) k = (t, k1)" by fastforce
  note s = or_else_capable [OF c]
  have eq: "(if t \<and> uid \<noteq> cr_fsuid ?old
      then (case cap_task_fix_setuid k1 (?old\<lparr>cr_fsuid := uid\<rparr>) ?old LSM_SETID_FS of
              Inr new \<Rightarrow> (Inr (sint (cr_fsuid ?old)), snd (commit_creds new k1))
            | Inl _ \<Rightarrow> (Inr (sint (cr_fsuid ?old)), k1))
      else (Inr (sint (cr_fsuid ?old)), k1)) = (r, k')"
    using assms unfolding sys_setfsuid_def prepare_creds_def Let_def
    by (simp only: True if_True option.case c prod.case) (simp split: bool.splits if_splits)
  consider "k' = k1"
    | n where "t" "cap_task_fix_setuid k1 (?old\<lparr>cr_fsuid := uid\<rparr>) ?old LSM_SETID_FS = Inr n"
        "k' = snd (commit_creds n k1)" "\<not> is_err r"
    using eq
    by (cases "t \<and> uid \<noteq> cr_fsuid ?old";
        cases "cap_task_fix_setuid k1 (?old\<lparr>cr_fsuid := uid\<rparr>) ?old LSM_SETID_FS") auto
  then show ?thesis
  proof cases
    case (2 n)
    have "uid_change (CAP_SETUID \<in> caps (cap_effective ?old)) ?old (?old\<lparr>cr_fsuid := uid\<rparr>)"
      using s(2) 2(1) by (auto simp: uid_change_def cap_capable_setid)
    from uid_change_confined [OF this 2(2)] s(1) 2(3,4) show ?thesis
      unfolding cred_outcome_def by auto
  qed (use s in auto)
qed (use assms in \<open>auto simp: sys_setfsuid_def prepare_creds_def\<close>)

lemma sys_setfsgid_outcome:
  assumes "sys_setfsgid kc env gid k = (r, k')"
  shows "cred_outcome k r k'"
proof (cases "cred_alloc env")
  case True
  let ?old = "current_cred k"
  let ?own = "gid = cr_gid ?old \<or> gid = cr_egid ?old \<or> gid = cr_sgid ?old \<or> gid = cr_fsgid ?old"
  obtain t k1 where c: "or_else ?own (capable kc CAP_SETGID) k = (t, k1)" by fastforce
  note s = or_else_capable [OF c]
  have eq: "(if t \<and> gid \<noteq> cr_fsgid ?old
      then (Inr (sint (cr_fsgid ?old)), snd (commit_creds (?old\<lparr>cr_fsgid := gid\<rparr>) k1))
      else (Inr (sint (cr_fsgid ?old)), k1)) = (r, k')"
    using assms unfolding sys_setfsgid_def prepare_creds_def Let_def
    by (simp only: True if_True option.case c prod.case) (simp split: bool.splits if_splits)
  consider "k' = k1" | "t" "k' = snd (commit_creds (?old\<lparr>cr_fsgid := gid\<rparr>) k1)" "\<not> is_err r"
    using eq by (auto split: if_splits)
  then show ?thesis
  proof cases
    case 2
    have "gid_change (CAP_SETGID \<in> caps (cap_effective ?old)) ?old (?old\<lparr>cr_fsgid := gid\<rparr>)"
      using s(2) 2(1) by (auto simp: gid_change_def cap_capable_setid)
    from gid_change_confined [OF this] s(1) 2(2,3) show ?thesis
      unfolding cred_outcome_def by auto
  qed (use s in auto)
qed (use assms in \<open>auto simp: sys_setfsgid_def prepare_creds_def\<close>)

lemma sys_setgroups_outcome:
  assumes "sys_setgroups kc env m p n l k = (r, k')"
  shows "cred_outcome k r k'"
proof -
  from assms consider (same) "same_creds k k'"
    | (set) k1 gi where "same_creds k k1" "CAP_SETGID \<in> caps (cap_effective (current_cred k))"
        "set_current_groups env gi k1 = (r, k')"
    by (auto simp: sys_setgroups_def kbind_Inr kthrow_def cap_capable_setid
        dest!: require_capable_conj split: if_splits option.splits sum.splits)
  then show ?thesis
  proof cases
    case (set k1 gi)
    have cc: "current_cred k1 = current_cred k" by (rule same_creds_current [OF set(1)])
    show ?thesis
    proof (cases "cred_alloc env")
      case True
      then have "commit_creds (set_groups (current_cred k) gi) k1 = (r, k')"
        using set(3) cc by (simp add: set_current_groups_def with_new_creds_eq)
      moreover have "gid_change True (current_cred k) (set_groups (current_cred k) gi)"
        by (simp add: gid_change_def set_groups_def)
      ultimately show ?thesis using gid_change_outcome set(1,2) by simp
    next
      case False
      then show ?thesis using set by (auto simp: set_current_groups_def with_new_creds_eq)
    qed
  qed auto
qed

lemma sys_capset_outcome:
  assumes "sys_capset kc env h d k = (r, k')"
  shows "cred_outcome k r k'"
proof -
  from assms consider "k' = k"
    | e i p n where "cap_capset kc k (current_cred k) (current_cred k) e i p = Inr n" "commit_creds n k = (r, k')"
    by (auto simp: sys_capset_def with_new_creds_eq split: prod.splits sum.splits option.splits if_splits)
  then show ?thesis
  proof cases
    case (2 e i p n)
    have "confined (current_cred k) n"
      using 2(1) [unfolded cap_capset_iff]
      by (auto simp: confined_def cred_ok_def cap_issubset_iff cred_uids_def cred_gids_def)
    then show ?thesis using 2(2) cred_outcome_commit by auto
  qed auto
qed

lemma prctl_step_confined: "prctl_step old new \<Longrightarrow> confined old new"
  by (auto simp: prctl_step_def confined_def cred_ok_def cred_uids_def cred_gids_def caps_lower
      cap_valid_def CAP_LAST_CAP_def)

lemma cap_task_prctl_outcome:
  assumes "cap_task_prctl kc env opt arg2 k = (r, k')"
  shows "cred_outcome k r k'"
  using assms by (rule cap_task_prctl_cases) (auto intro: cred_outcome_commit prctl_step_confined)

lemma do_call_outcome: "do_call kc env c k = (r, k') \<Longrightarrow> cred_outcome k r k'"
  by (cases c) (auto intro: sys_setregid_outcome sys_setgid_outcome sys_setreuid_outcome sys_setuid_outcome
      sys_setresuid_outcome sys_setresgid_outcome sys_setfsuid_outcome sys_setfsgid_outcome
      sys_setgroups_outcome sys_capset_outcome cap_task_prctl_outcome)

interpretation one_call: credential_call "\<lambda>k. snd (do_call kc env c k)" for kc env c
  by (rule credential_callI) (rule do_call_outcome)

lemma credential_call_run_calls: "credential_call (run_calls kc cs)"
proof (induction cs)
  case (Cons a cs)
  obtain env c where a: "a = (env, c)" by force
  show ?case
    unfolding a run_calls.simps by (rule credential_call_comp [OF one_call.credential_call_axioms Cons])
qed (simp add: credential_call_id)

interpretation calls: credential_call "run_calls kc cs" for kc cs
  by (rule credential_call_run_calls)

lemma current_cred_normal: "overriding (current k) = None \<Longrightarrow> current_cred k = real_cred (current k)"
  by (simp add: current_cred_def)

section \<open>Properties\<close>

text \<open>
  C1. Whatever sequence of set*id, setgroups, capset and prctl calls a process makes, its effective
  capabilities stay permitted, its permitted and bounding sets never grow, its inheritable set
  stays within the old inheritable and bounding sets, no BUG is reached, and without CAP_SETUID
  (CAP_SETGID) among its permitted capabilities it ends up with no user id (no group id or
  group list) it did not have.
\<close>

theorem calls_never_gain_privilege:
  assumes "overriding (current k) = None" "cred_ok (current_cred k)"
  shows "cred_ok (current_cred (run_calls kc cs k)) \<and>
    caps (cap_permitted (current_cred (run_calls kc cs k))) \<subseteq> caps (cap_permitted (current_cred k)) \<and>
    caps (cap_bset (current_cred (run_calls kc cs k))) \<subseteq> caps (cap_bset (current_cred k)) \<and>
    caps (cap_inheritable (current_cred (run_calls kc cs k)))
      \<subseteq> caps (cap_inheritable (current_cred k)) \<union> caps (cap_bset (current_cred k)) \<and>
    bug_hit (current (run_calls kc cs k)) = bug_hit (current k) \<and>
    (CAP_SETUID \<notin> caps (cap_permitted (current_cred k)) \<longrightarrow>
       cred_uids (current_cred (run_calls kc cs k)) \<subseteq> cred_uids (current_cred k)) \<and>
    (CAP_SETGID \<notin> caps (cap_permitted (current_cred k)) \<longrightarrow>
       cred_gids (current_cred (run_calls kc cs k)) \<subseteq> cred_gids (current_cred k) \<and>
       cr_groups (current_cred (run_calls kc cs k)) = cr_groups (current_cred k))"
  using calls.call_confined [OF assms(1), of kc cs] calls.call_no_bug [OF assms(1), of kc cs] assms(2)
  by (simp add: confined_def)

theorem calls_never_gain_privilege_witness:
  "cred_uids (current_cred (run_calls victory_config
     [(alloc_ok, Setuid 0), (alloc_ok, Setresuid 2000 0 2000), (alloc_ok, Setfsuid 1000)]
     (running (user_cred 2000)))) \<subseteq> {2000}"
proof -
  have "overriding (current (running (user_cred 2000))) = None" "cred_ok (current_cred (running (user_cred 2000)))"
    by code_simp+
  note c = calls_never_gain_privilege [OF this]
  have "cap_permitted (current_cred (running (user_cred 2000))) = cap_empty_set"
    "cred_uids (current_cred (running (user_cred 2000))) = {2000}"
    by (simp_all add: running_def user_cred_def current_cred_def cred_uids_def)
  with c show ?thesis by (simp del: run_calls.simps)
qed

lemma setuid_privileged:
  assumes "sys_setuid kc env u k = (Inr r, k')" "CAP_SETUID \<in> caps (cap_effective (current_cred k))"
  obtains k1 v c where "same_creds k k1" "commit_creds c k1 = (Inr r, k')"
    "cap_task_fix_setuid k1 ((current_cred k)\<lparr>cr_suid := u, cr_uid := u, cr_user := v, cr_fsuid := u, cr_euid := u\<rparr>)
       (current_cred k) LSM_SETID_ID = Inr c"
proof -
  let ?old = "current_cred k"
  let ?n = "?old\<lparr>cr_suid := u, cr_uid := u\<rparr>"
  obtain b k1 where c: "capable kc CAP_SETUID k = (b, k1)" by fastforce
  have s: "same_creds k k1" "b" using capable_cases [OF c] assms(2) by (simp_all add: cap_capable_setid)
  have ok: "cred_alloc env" using assms(1) by (auto simp: sys_setuid_def with_new_creds_eq)
  have "kbind (\<lambda>k. (if u \<noteq> cr_uid ?old then set_user kc env ?n else kreturn ?n) k)
         (\<lambda>new. fix_and_commit ?old LSM_SETID_ID (new\<lparr>cr_fsuid := u, cr_euid := u\<rparr>)) k1 = (Inr r, k')"
    using assms(1) ok s(2) c
    by (simp add: sys_setuid_def with_new_creds_eq kbind_def kreturn_def Let_def split: if_splits)
  then obtain n k2 where n: "(if u \<noteq> cr_uid ?old then set_user kc env ?n else kreturn ?n) k1 = (Inr n, k2)"
    "fix_and_commit ?old LSM_SETID_ID (n\<lparr>cr_fsuid := u, cr_euid := u\<rparr>) k2 = (Inr r, k')"
    by (auto simp only: kbind_Inr)
  define v where "v = (if u \<noteq> cr_uid ?old then u else cr_user ?old)"
  from user_step [OF n(1)] have n': "k2 = k1" "n = ?n\<lparr>cr_user := v\<rparr>" by (auto simp: v_def)
  from n(2) [unfolded n'] obtain c where "cap_task_fix_setuid k1 (?n\<lparr>cr_user := v, cr_fsuid := u, cr_euid := u\<rparr>) ?old LSM_SETID_ID = Inr c"
    "commit_creds c k1 = (Inr r, k')"
    by (auto simp: fix_and_commit_def split: sum.splits)
  with s(1) show thesis by (intro that)
qed

text \<open>
  C5. When a root process (some user id 0, CAP_SETUID in effect) calls setuid to a user other
  than root and the securebits do not keep capabilities, it loses all capabilities for good: no
  sequence of further calls brings one back or changes any of its four user ids.
\<close>

theorem setuid_drop_irrevocable:
  assumes "sys_setuid kc env u k = (Inr r, k')" "u \<noteq> 0"
    and "CAP_SETUID \<in> caps (cap_effective (current_cred k))"
    and "overriding (current k) = None"
    and "cr_uid (current_cred k) = 0 \<or> cr_euid (current_cred k) = 0 \<or> cr_suid (current_cred k) = 0"
    and "\<not> issecure SECURE_NO_SETUID_FIXUP k" "\<not> issecure SECURE_KEEP_CAPS k"
  shows "caps (cap_permitted (current_cred (run_calls kc cs k'))) = {} \<and>
    caps (cap_effective (current_cred (run_calls kc cs k'))) = {} \<and>
    cred_uids (current_cred (run_calls kc cs k')) = {u}"
proof -
  from assms(1,3) obtain k1 v c where c: "same_creds k k1" "commit_creds c k1 = (Inr r, k')"
    "cap_task_fix_setuid k1 ((current_cred k)\<lparr>cr_suid := u, cr_uid := u, cr_user := v, cr_fsuid := u, cr_euid := u\<rparr>)
       (current_cred k) LSM_SETID_ID = Inr c"
    by (rule setuid_privileged)
  have "\<not> issecure SECURE_NO_SETUID_FIXUP k1" "\<not> issecure SECURE_KEEP_CAPS k1"
    using assms(6,7) same_creds_issecure [OF c(1)] by simp_all
  with c(3) assms(2,5) have "c = (current_cred k)\<lparr>cr_suid := u, cr_uid := u, cr_user := v, cr_fsuid := u, cr_euid := u,
      cap_permitted := cap_empty_set, cap_effective := cap_empty_set\<rparr>"
    by (subst (asm) fix_setuid_drops_all) auto
  then have k': "caps (cap_permitted (current_cred k')) = {}" "cred_uids (current_cred k') = {u}" "cred_ok (current_cred k')"
    using commit_creds_eq [OF c(2)] by (auto simp: cred_uids_def cred_ok_def cap_issubset_iff)
  have "overriding (current k') = None"
    using c(2) commit_creds_installs(2) [of c k1] by simp
  note g = calls.call_confined [OF this, of kc cs]
  have "cred_uids (current_cred (run_calls kc cs k')) \<subseteq> {u}" "caps (cap_permitted (current_cred (run_calls kc cs k'))) = {}"
    "cred_ok (current_cred (run_calls kc cs k'))"
    using g k' by (auto simp: confined_def)
  then show ?thesis by (auto simp: cred_ok_def cap_issubset_iff cred_uids_def)
qed

theorem setuid_drop_irrevocable_witness:
  "\<exists>k'. sys_setuid victory_config alloc_ok 2000 (running (init_cred victory_config)) = (Inr 0, k') \<and>
     cred_uids (current_cred (run_calls victory_config [(alloc_ok, Setresuid 0 0 0)] k')) = {2000}"
proof -
  let ?k = "running (init_cred victory_config)"
  have "fst (sys_setuid victory_config alloc_ok 2000 ?k) = Inr 0" by code_simp
  then obtain k' where k': "sys_setuid victory_config alloc_ok 2000 ?k = (Inr 0, k')"
    by (metis prod.collapse)
  have "(2000 :: u32) \<noteq> 0" "cap_raised (cap_effective (current_cred ?k)) CAP_SETUID" "overriding (current ?k) = None"
    "cr_uid (current_cred ?k) = 0"
    "\<not> issecure SECURE_NO_SETUID_FIXUP ?k" "\<not> issecure SECURE_KEEP_CAPS ?k"
    by code_simp+
  then show ?thesis
    using setuid_drop_irrevocable [OF k', of "[(alloc_ok, Setresuid 0 0 0)]"] k'
    by (simp add: cap_raised_iff CAP_numbers del: run_calls.simps)
qed

text \<open>C27. A call that reports an error leaves the credentials and the process counts alone.\<close>

theorem failed_call_changes_nothing:
  assumes "do_call kc env c k = (Inl e, k')"
  shows "current_cred k' = current_cred k \<and> processes k' = processes k \<and> bug_hit (current k') = bug_hit (current k)"
  using do_call_outcome [OF assms] same_creds_current [of k k']
  by (auto simp: cred_outcome_def same_creds_def)

theorem failed_call_changes_nothing_witness:
  "\<exists>k'. do_call victory_config alloc_ok (Setuid 0) (running (user_cred 2000)) = (Inl EPERM, k') \<and>
     current_cred k' = user_cred 2000"
proof -
  have "fst (do_call victory_config alloc_ok (Setuid 0) (running (user_cred 2000))) = Inl EPERM"
    by code_simp
  then obtain k' where k': "do_call victory_config alloc_ok (Setuid 0) (running (user_cred 2000)) = (Inl EPERM, k')"
    by (metis prod.collapse)
  have "current_cred (running (user_cred 2000)) = user_cred 2000" by (simp add: running_def current_cred_def)
  with failed_call_changes_nothing [OF k'] k' show ?thesis by simp
qed

text \<open>
  One process moves from the account of the old to that of the new credentials.
\<close>

definition accounted :: "kernel \<Rightarrow> kernel \<Rightarrow> bool" where
  "accounted k k' \<longleftrightarrow> overriding (current k') = None \<and>
     (\<forall>u. processes k' u = processes k u + of_bool (cr_user (current_cred k') = u)
            - of_bool (cr_user (current_cred k) = u))"

lemma do_call_accounted:
  assumes "overriding (current k) = None"
  shows "accounted k (snd (do_call kc env c k))"
proof -
  consider "same_creds k (snd (do_call kc env c k))"
    | k1 new where "same_creds k k1" "snd (do_call kc env c k) = snd (commit_creds new k1)"
    using do_call_outcome [of kc env c k "fst (do_call kc env c k)" "snd (do_call kc env c k)"]
    by (auto simp: cred_outcome_def)
  then show ?thesis
  proof cases
    case 1
    then show ?thesis using assms same_creds_current [OF 1] by (simp add: accounted_def same_creds_def)
  next
    case (2 k1 new)
    then have "real_cred (current k1) = current_cred k" "processes k1 = processes k"
      using assms by (simp_all add: same_creds_def current_cred_def)
    then show ?thesis by (simp add: accounted_def 2(2) commit_creds_processes)
  qed
qed

text \<open>
  C30. After any sequence of calls every user account counts exactly the change of the calling
  process: one more process for the account it ends in, one less for the one it started in; and
  if the account was that of the real uid it still is.
\<close>

theorem calls_account_processes:
  assumes "overriding (current k) = None"
  shows "processes (run_calls kc cs k) u = processes k u
      + of_bool (cr_user (current_cred (run_calls kc cs k)) = u) - of_bool (cr_user (current_cred k) = u) \<and>
    (cr_user (current_cred k) = cr_uid (current_cred k) \<longrightarrow>
     cr_user (current_cred (run_calls kc cs k)) = cr_uid (current_cred (run_calls kc cs k)))"
proof -
  have "accounted k (run_calls kc cs k)"
    using assms
  proof (induction kc cs k rule: run_calls.induct)
    case (2 kc env c cs k)
    then show ?case
      using do_call_accounted [OF 2(2), of kc env c] by (simp add: accounted_def)
  qed (simp add: accounted_def)
  then show ?thesis
    using calls.call_confined [OF assms, of kc cs] by (simp add: accounted_def confined_def)
qed

theorem calls_account_processes_witness:
  "processes (run_calls victory_config [(alloc_ok, Setuid 2000)] (running (init_cred victory_config))) 2000 = 2"
proof -
  let ?k = "running (init_cred victory_config)"
  have "overriding (current ?k) = None" by code_simp
  note c = calls_account_processes [OF this, of victory_config "[(alloc_ok, Setuid 2000)]" 2000]
  have "processes ?k 2000 = 1" "cr_user (current_cred ?k) = 0"
    "cr_user (current_cred (run_calls victory_config [(alloc_ok, Setuid 2000)] ?k)) = 2000"
    by code_simp+
  with c show ?thesis by (simp del: run_calls.simps)
qed

text \<open>The header of a caller that uses the current version of the interface on itself.\<close>

definition self_header :: cap_user_header where
  "self_header = \<lparr>hdr_version = Some LINUX_CAPABILITY_VERSION_3, hdr_version_writable = True, hdr_pid = Some 0\<rparr>"

lemma cap_validate_magic_v3:
  "hdr_version h = Some LINUX_CAPABILITY_VERSION_3 \<Longrightarrow> cap_validate_magic h = (Inr 2, h)"
  by (simp add: cap_validate_magic_def LINUX_CAPABILITY_VERSION_1_def LINUX_CAPABILITY_VERSION_3_def)



text \<open>
  C32. What a successful capset stored, capget reads back: both words of each of the three sets.
\<close>

theorem capset_capget_round_trip:
  assumes "sys_capset kc env h data k = (Inr r, k')"
    and "hdr_version h = Some LINUX_CAPABILITY_VERSION_3" "hdr_pid h = Some 0" "2 \<le> room"
  shows "fst (sys_capget k' find_task h room) = Inr (take 2 data)"
proof -
  let ?E = "cap_from_user ud_effective 2 data" and ?I = "cap_from_user ud_inheritable 2 data"
    and ?P = "cap_from_user ud_permitted 2 data"
  from assms(1-3) obtain new where len: "2 \<le> length data" and
    new: "cap_capset kc k (current_cred k) (current_cred k) ?E ?I ?P = Inr new" "commit_creds new k = (Inr r, k')"
    by (auto simp: sys_capset_def cap_validate_magic_v3 with_new_creds_eq split: if_splits sum.splits)
  have real: "real_cred (current k') = (current_cred k)\<lparr>cap_effective := ?E, cap_inheritable := ?I, cap_permitted := ?P\<rparr>"
    using commit_creds_eq [OF new(2)] new(1) [unfolded cap_capset_iff] by simp
  obtain a b rest where data: "data = a # b # rest"
    using len by (cases data; cases "tl data") auto
  show ?thesis
    using assms(2-4)
    by (simp add: sys_capget_def cap_validate_magic_v3 cap_get_target_pid_def cap_capget_def real data
        cap_from_user_def cap_word_def upt_rec)
qed

theorem capset_capget_round_trip_witness:
  "\<exists>k'. sys_capset victory_config alloc_ok self_header
     [\<lparr>ud_effective = 1, ud_permitted = 3, ud_inheritable = 0\<rparr>, \<lparr>ud_effective = 0, ud_permitted = 2, ud_inheritable = 0\<rparr>]
     (running (init_cred victory_config)) = (Inr 0, k') \<and>
   fst (sys_capget k' (\<lambda>_. None) self_header 2) =
     Inr [\<lparr>ud_effective = 1, ud_permitted = 3, ud_inheritable = 0\<rparr>, \<lparr>ud_effective = 0, ud_permitted = 2, ud_inheritable = 0\<rparr>]"
proof -
  let ?d = "[\<lparr>ud_effective = 1, ud_permitted = 3, ud_inheritable = 0\<rparr>,
             \<lparr>ud_effective = 0, ud_permitted = 2, ud_inheritable = 0\<rparr>] :: cap_user_data list"
  let ?k = "running (init_cred victory_config)"
  have "fst (sys_capset victory_config alloc_ok self_header ?d ?k) = Inr 0" by code_simp
  then obtain k' where k': "sys_capset victory_config alloc_ok self_header ?d ?k = (Inr 0, k')"
    by (metis prod.collapse)
  show ?thesis
    using k' capset_capget_round_trip [OF k', of 2 "\<lambda>_. None"] by (simp add: self_header_def)
qed

text \<open>
  With file capabilities, a process with CAP_SETPCAP in effect can make inheritable a
  capability it is not permitted itself (here CAP_SYS_ADMIN, number 21).
\<close>

theorem capset_inheritable_beyond_permitted:
  "let kc = victory_config\<lparr>file_capabilities := True\<rparr>;
       c = (init_cred kc)\<lparr>cap_permitted := Kernel_cap 0x100 0, cap_effective := Kernel_cap 0x100 0\<rparr>;
       kr = sys_capset kc alloc_ok self_header
              [\<lparr>ud_effective = 0x100, ud_permitted = 0x100, ud_inheritable = 0x200000\<rparr>,
               \<lparr>ud_effective = 0, ud_permitted = 0, ud_inheritable = 0\<rparr>] (running c)
   in fst kr = Inr 0 \<and> cap_raised (cap_inheritable (current_cred (snd kr))) CAP_SYS_ADMIN \<and>
      \<not> cap_raised (cap_permitted c) CAP_SYS_ADMIN"
  by code_simp

end
