(* ===== verification/Posix_Acl.thy ===== *)
theory Posix_Acl
  imports Credentials
begin

text \<open>
  Access control lists of fs/posix_acl.c and their attribute format of fs/xattr_acl.c. An ACL is
  the list of its entries, so \<open>a_count\<close> is the length; reference counts are left out and the
  outcome of an allocation is an argument. \<open>mode_t\<close> and \<open>e_perm\<close> are 16 bits wide, as on ARM.
  The loops over the entries are recursions over the list; the pointers \<open>group_obj\<close> and
  \<open>mask_obj\<close> that the masquerading functions keep are indices into it.

  The declarative side: \<open>acl_wf\<close> is the shape of a valid ACL and \<open>acl_grants\<close> the access decision of
  the POSIX.1e draft; the lemmas show that the functions decide exactly these.
\<close>

section \<open>Data\<close>

definition ACL_USER_OBJ :: u16 where "ACL_USER_OBJ = 0x01"
definition ACL_USER :: u16 where "ACL_USER = 0x02"
definition ACL_GROUP_OBJ :: u16 where "ACL_GROUP_OBJ = 0x04"
definition ACL_GROUP :: u16 where "ACL_GROUP = 0x08"
definition ACL_MASK :: u16 where "ACL_MASK = 0x10"
definition ACL_OTHER :: u16 where "ACL_OTHER = 0x20"

lemmas ACL_tags = ACL_USER_OBJ_def ACL_USER_def ACL_GROUP_OBJ_def ACL_GROUP_def ACL_MASK_def ACL_OTHER_def

definition ACL_READ :: u16 where "ACL_READ = 0x04"
definition ACL_WRITE :: u16 where "ACL_WRITE = 0x02"
definition ACL_EXECUTE :: u16 where "ACL_EXECUTE = 0x01"

definition ACL_UNDEFINED_ID :: u32 where "ACL_UNDEFINED_ID = - 1"


record posix_acl_entry =
  e_tag :: u16
  e_perm :: u16
  e_id :: u32

type_synonym posix_acl = "posix_acl_entry list"

section \<open>Operations\<close>

definition posix_acl_clone :: "bool \<Rightarrow> posix_acl option \<Rightarrow> posix_acl option" where
  "posix_acl_clone alloc acl = (case acl of None \<Rightarrow> None | Some a \<Rightarrow> if alloc then Some a else None)"

text \<open>The state is \<open>None\<close> for the final value 0 of the source, else the tag it holds.\<close>

fun posix_acl_valid_loop :: "posix_acl \<Rightarrow> u16 option \<Rightarrow> u32 \<Rightarrow> bool \<Rightarrow> unit ret" where
  "posix_acl_valid_loop [] state i needs_mask = (if state = None then Inr () else Inl EINVAL)"
| "posix_acl_valid_loop (pa # rest) state i needs_mask =
     (if e_perm pa AND NOT (ACL_READ OR ACL_WRITE OR ACL_EXECUTE) \<noteq> 0 then Inl EINVAL
      else if e_tag pa = ACL_USER_OBJ
      then if state = Some ACL_USER_OBJ then posix_acl_valid_loop rest (Some ACL_USER) 0 needs_mask
           else Inl EINVAL
      else if e_tag pa = ACL_USER
      then if state \<noteq> Some ACL_USER then Inl EINVAL
           else if e_id pa = ACL_UNDEFINED_ID \<or> e_id pa < i then Inl EINVAL
           else posix_acl_valid_loop rest state (e_id pa + 1) True
      else if e_tag pa = ACL_GROUP_OBJ
      then if state = Some ACL_USER then posix_acl_valid_loop rest (Some ACL_GROUP) 0 needs_mask
           else Inl EINVAL
      else if e_tag pa = ACL_GROUP
      then if state \<noteq> Some ACL_GROUP then Inl EINVAL
           else if e_id pa = ACL_UNDEFINED_ID \<or> e_id pa < i then Inl EINVAL
           else posix_acl_valid_loop rest state (e_id pa + 1) True
      else if e_tag pa = ACL_MASK
      then if state \<noteq> Some ACL_GROUP then Inl EINVAL
           else posix_acl_valid_loop rest (Some ACL_OTHER) i needs_mask
      else if e_tag pa = ACL_OTHER
      then if state = Some ACL_OTHER \<or> (state = Some ACL_GROUP \<and> \<not> needs_mask)
           then posix_acl_valid_loop rest None i needs_mask
           else Inl EINVAL
      else Inl EINVAL)"

definition posix_acl_valid :: "posix_acl \<Rightarrow> unit ret" where
  "posix_acl_valid acl = posix_acl_valid_loop acl (Some ACL_USER_OBJ) 0 False"

fun posix_acl_equiv_loop :: "posix_acl \<Rightarrow> u16 \<Rightarrow> bool \<Rightarrow> (bool \<times> u16) ret" where
  "posix_acl_equiv_loop [] mode not_equiv = Inr (not_equiv, mode)"
| "posix_acl_equiv_loop (pa # rest) mode not_equiv =
     (if e_tag pa = ACL_USER_OBJ
      then posix_acl_equiv_loop rest (mode OR push_bit 6 (e_perm pa AND S_IRWXO)) not_equiv
      else if e_tag pa = ACL_GROUP_OBJ
      then posix_acl_equiv_loop rest (mode OR push_bit 3 (e_perm pa AND S_IRWXO)) not_equiv
      else if e_tag pa = ACL_OTHER
      then posix_acl_equiv_loop rest (mode OR (e_perm pa AND S_IRWXO)) not_equiv
      else if e_tag pa = ACL_MASK
      then posix_acl_equiv_loop rest
             ((mode AND NOT S_IRWXG) OR push_bit 3 (e_perm pa AND S_IRWXO)) True
      else if e_tag pa = ACL_USER \<or> e_tag pa = ACL_GROUP
      then posix_acl_equiv_loop rest mode True
      else Inl EINVAL)"

text \<open>The result pairs the return value (true for 1) with the new \<open>*mode_p\<close>.\<close>

definition posix_acl_equiv_mode :: "posix_acl \<Rightarrow> u16 \<Rightarrow> (bool \<times> u16) ret" where
  "posix_acl_equiv_mode acl mode_p =
     (case posix_acl_equiv_loop acl 0 False of
        Inl e \<Rightarrow> Inl e
      | Inr (not_equiv, mode) \<Rightarrow> Inr (not_equiv, (mode_p AND NOT S_IRWXUGO) OR mode))"

definition posix_acl_from_mode :: "bool \<Rightarrow> u16 \<Rightarrow> posix_acl ret" where
  "posix_acl_from_mode alloc mode =
     (if \<not> alloc then Inl ENOMEM
      else Inr [\<lparr>e_tag = ACL_USER_OBJ, e_perm = drop_bit 6 (mode AND S_IRWXU), e_id = ACL_UNDEFINED_ID\<rparr>,
                \<lparr>e_tag = ACL_GROUP_OBJ, e_perm = drop_bit 3 (mode AND S_IRWXG), e_id = ACL_UNDEFINED_ID\<rparr>,
                \<lparr>e_tag = ACL_OTHER, e_perm = mode AND S_IRWXO, e_id = ACL_UNDEFINED_ID\<rparr>])"

section \<open>Access decision\<close>

text \<open>\<open>want\<close> is a C \<open>int\<close>; the permission word is widened to meet it.\<close>

definition perm_allows :: "u16 \<Rightarrow> u32 \<Rightarrow> bool" where
  "perm_allows p want \<longleftrightarrow> ucast p AND want = want"

fun acl_mask_check :: "u16 \<Rightarrow> posix_acl \<Rightarrow> u32 \<Rightarrow> unit ret" where
  "acl_mask_check p [] want = (if perm_allows p want then Inr () else Inl EACCES)"
| "acl_mask_check p (mask_obj # rest) want =
     (if e_tag mask_obj = ACL_MASK
      then if perm_allows (p AND e_perm mask_obj) want then Inr () else Inl EACCES
      else acl_mask_check p rest want)"

fun posix_acl_permission_loop ::
  "kernel \<Rightarrow> uid_t \<Rightarrow> gid_t \<Rightarrow> u32 \<Rightarrow> posix_acl \<Rightarrow> bool \<Rightarrow> unit ret" where
  "posix_acl_permission_loop k i_uid i_gid want [] found = Inl EIO"
| "posix_acl_permission_loop k i_uid i_gid want (pa # rest) found =
     (if e_tag pa = ACL_USER_OBJ
      then if i_uid = cr_fsuid (current_cred k)
           then if perm_allows (e_perm pa) want then Inr () else Inl EACCES
           else posix_acl_permission_loop k i_uid i_gid want rest found
      else if e_tag pa = ACL_USER
      then if e_id pa = cr_fsuid (current_cred k) then acl_mask_check (e_perm pa) rest want
           else posix_acl_permission_loop k i_uid i_gid want rest found
      else if e_tag pa = ACL_GROUP_OBJ
      then if in_group_p i_gid k
           then if perm_allows (e_perm pa) want then acl_mask_check (e_perm pa) rest want
                else posix_acl_permission_loop k i_uid i_gid want rest True
           else posix_acl_permission_loop k i_uid i_gid want rest found
      else if e_tag pa = ACL_GROUP
      then if in_group_p (e_id pa) k
           then if perm_allows (e_perm pa) want then acl_mask_check (e_perm pa) rest want
                else posix_acl_permission_loop k i_uid i_gid want rest True
           else posix_acl_permission_loop k i_uid i_gid want rest found
      else if e_tag pa = ACL_MASK
      then posix_acl_permission_loop k i_uid i_gid want rest found
      else if e_tag pa = ACL_OTHER
      then if found then Inl EACCES
           else if perm_allows (e_perm pa) want then Inr () else Inl EACCES
      else Inl EIO)"

definition posix_acl_permission :: "kernel \<Rightarrow> uid_t \<Rightarrow> gid_t \<Rightarrow> posix_acl \<Rightarrow> u32 \<Rightarrow> unit ret" where
  "posix_acl_permission k i_uid i_gid acl want = posix_acl_permission_loop k i_uid i_gid want acl False"

section \<open>Masquerading\<close>

text \<open>
  An error result carries no ACL: the callers release the half-changed copy. \<open>set_perm\<close> stores a
  permission word through one of the kept pointers.
\<close>

definition set_perm :: "posix_acl \<Rightarrow> nat \<Rightarrow> u16 \<Rightarrow> posix_acl" where
  "set_perm acl j p = acl[j := (acl ! j)\<lparr>e_perm := p\<rparr>]"

fun create_masq_loop ::
  "nat \<Rightarrow> posix_acl \<Rightarrow> u16 \<Rightarrow> bool \<Rightarrow> nat option \<Rightarrow> nat option
     \<Rightarrow> (posix_acl \<times> u16 \<times> bool \<times> nat option \<times> nat option) ret" where
  "create_masq_loop i [] mode not_equiv group_obj mask_obj = Inr ([], mode, not_equiv, group_obj, mask_obj)"
| "create_masq_loop i (pa # rest) mode not_equiv group_obj mask_obj =
     (if e_tag pa = ACL_USER_OBJ
      then let p = e_perm pa AND (drop_bit 6 mode OR NOT S_IRWXO) in
           map_sum id (apfst ((#) (pa\<lparr>e_perm := p\<rparr>)))
             (create_masq_loop (Suc i) rest (mode AND (push_bit 6 p OR NOT S_IRWXU)) not_equiv group_obj mask_obj)
      else if e_tag pa = ACL_USER \<or> e_tag pa = ACL_GROUP
      then map_sum id (apfst ((#) pa)) (create_masq_loop (Suc i) rest mode True group_obj mask_obj)
      else if e_tag pa = ACL_GROUP_OBJ
      then map_sum id (apfst ((#) pa)) (create_masq_loop (Suc i) rest mode not_equiv (Some i) mask_obj)
      else if e_tag pa = ACL_OTHER
      then let p = e_perm pa AND (mode OR NOT S_IRWXO) in
           map_sum id (apfst ((#) (pa\<lparr>e_perm := p\<rparr>)))
             (create_masq_loop (Suc i) rest (mode AND (p OR NOT S_IRWXO)) not_equiv group_obj mask_obj)
      else if e_tag pa = ACL_MASK
      then map_sum id (apfst ((#) pa)) (create_masq_loop (Suc i) rest mode True group_obj (Some i))
      else Inl EIO)"

definition posix_acl_create_masq :: "posix_acl \<Rightarrow> u16 \<Rightarrow> (bool \<times> posix_acl \<times> u16) ret" where
  "posix_acl_create_masq acl mode_p =
     (case create_masq_loop 0 acl mode_p False None None of
        Inl e \<Rightarrow> Inl e
      | Inr (acl, mode, not_equiv, group_obj, mask_obj) \<Rightarrow>
          (case (mask_obj, group_obj) of
             (Some j, _) \<Rightarrow>
               (let p = e_perm (acl ! j) AND (drop_bit 3 mode OR NOT S_IRWXO);
                    mode = mode AND (push_bit 3 p OR NOT S_IRWXG)
                in Inr (not_equiv, set_perm acl j p, (mode_p AND NOT S_IRWXUGO) OR mode))
           | (None, None) \<Rightarrow> Inl EIO
           | (None, Some j) \<Rightarrow>
               (let p = e_perm (acl ! j) AND (drop_bit 3 mode OR NOT S_IRWXO);
                    mode = mode AND (push_bit 3 p OR NOT S_IRWXG)
                in Inr (not_equiv, set_perm acl j p, (mode_p AND NOT S_IRWXUGO) OR mode))))"

fun chmod_masq_loop ::
  "nat \<Rightarrow> posix_acl \<Rightarrow> u16 \<Rightarrow> nat option \<Rightarrow> nat option \<Rightarrow> (posix_acl \<times> nat option \<times> nat option) ret" where
  "chmod_masq_loop i [] mode group_obj mask_obj = Inr ([], group_obj, mask_obj)"
| "chmod_masq_loop i (pa # rest) mode group_obj mask_obj =
     (if e_tag pa = ACL_USER_OBJ
      then map_sum id (apfst ((#) (pa\<lparr>e_perm := drop_bit 6 (mode AND S_IRWXU)\<rparr>)))
             (chmod_masq_loop (Suc i) rest mode group_obj mask_obj)
      else if e_tag pa = ACL_USER \<or> e_tag pa = ACL_GROUP
      then map_sum id (apfst ((#) pa)) (chmod_masq_loop (Suc i) rest mode group_obj mask_obj)
      else if e_tag pa = ACL_GROUP_OBJ
      then map_sum id (apfst ((#) pa)) (chmod_masq_loop (Suc i) rest mode (Some i) mask_obj)
      else if e_tag pa = ACL_MASK
      then map_sum id (apfst ((#) pa)) (chmod_masq_loop (Suc i) rest mode group_obj (Some i))
      else if e_tag pa = ACL_OTHER
      then map_sum id (apfst ((#) (pa\<lparr>e_perm := mode AND S_IRWXO\<rparr>)))
             (chmod_masq_loop (Suc i) rest mode group_obj mask_obj)
      else Inl EIO)"

definition posix_acl_chmod_masq :: "posix_acl \<Rightarrow> u16 \<Rightarrow> posix_acl ret" where
  "posix_acl_chmod_masq acl mode =
     (case chmod_masq_loop 0 acl mode None None of
        Inl e \<Rightarrow> Inl e
      | Inr (acl, group_obj, mask_obj) \<Rightarrow>
          (case (mask_obj, group_obj) of
             (Some j, _) \<Rightarrow> Inr (set_perm acl j (drop_bit 3 (mode AND S_IRWXG)))
           | (None, None) \<Rightarrow> Inl EIO
           | (None, Some j) \<Rightarrow> Inr (set_perm acl j (drop_bit 3 (mode AND S_IRWXG)))))"

section \<open>The attribute format\<close>

text \<open>Little-endian bytes.\<close>

definition cpu_to_le16 :: "u16 \<Rightarrow> u8 list" where
  "cpu_to_le16 w = [ucast w, ucast (drop_bit 8 w)]"

definition cpu_to_le32 :: "u32 \<Rightarrow> u8 list" where
  "cpu_to_le32 w = [ucast w, ucast (drop_bit 8 w), ucast (drop_bit 16 w), ucast (drop_bit 24 w)]"

definition le16_to_cpu :: "u8 list \<Rightarrow> u16" where
  "le16_to_cpu bs = ucast (bs ! 0) OR push_bit 8 (ucast (bs ! 1))"

definition le32_to_cpu :: "u8 list \<Rightarrow> u32" where
  "le32_to_cpu bs = ucast (bs ! 0) OR push_bit 8 (ucast (bs ! 1)) OR push_bit 16 (ucast (bs ! 2))
     OR push_bit 24 (ucast (bs ! 3))"

definition POSIX_ACL_XATTR_VERSION :: u32 where "POSIX_ACL_XATTR_VERSION = 2"

definition posix_acl_xattr_size :: "nat \<Rightarrow> nat" where
  "posix_acl_xattr_size cnt = 4 + cnt * 8"

definition posix_acl_xattr_count :: "nat \<Rightarrow> int" where
  "posix_acl_xattr_count sz =
     (if sz < 4 then - 1 else if (sz - 4) mod 8 \<noteq> 0 then - 1 else int ((sz - 4) div 8))"

fun from_xattr_entries :: "nat \<Rightarrow> u8 list \<Rightarrow> posix_acl ret" where
  "from_xattr_entries 0 bs = Inr []"
| "from_xattr_entries (Suc n) bs =
     (let tag = le16_to_cpu bs; perm = le16_to_cpu (drop 2 bs) in
      if tag = ACL_USER_OBJ \<or> tag = ACL_GROUP_OBJ \<or> tag = ACL_MASK \<or> tag = ACL_OTHER
      then map_sum id ((#) \<lparr>e_tag = tag, e_perm = perm, e_id = ACL_UNDEFINED_ID\<rparr>)
             (from_xattr_entries n (drop 8 bs))
      else if tag = ACL_USER \<or> tag = ACL_GROUP
      then map_sum id ((#) \<lparr>e_tag = tag, e_perm = perm, e_id = le32_to_cpu (drop 4 bs)\<rparr>)
             (from_xattr_entries n (drop 8 bs))
      else Inl EINVAL)"

text \<open>\<open>Inr None\<close> is the NULL result; the value is \<open>None\<close> for a NULL pointer, else its bytes.\<close>

definition posix_acl_from_xattr :: "bool \<Rightarrow> u8 list option \<Rightarrow> posix_acl option ret" where
  "posix_acl_from_xattr alloc val =
     (case val of
        None \<Rightarrow> Inr None
      | Some bs \<Rightarrow>
          if length bs < 4 then Inl EINVAL
          else if le32_to_cpu bs \<noteq> POSIX_ACL_XATTR_VERSION then Inl EOPNOTSUPP
          else let cnt = posix_acl_xattr_count (length bs) in
            if cnt < 0 then Inl EINVAL
            else if cnt = 0 then Inr None
            else if \<not> alloc then Inl ENOMEM
            else map_sum id Some (from_xattr_entries (nat cnt) (drop 4 bs)))"

definition to_xattr_entry :: "posix_acl_entry \<Rightarrow> u8 list" where
  "to_xattr_entry e = cpu_to_le16 (e_tag e) @ cpu_to_le16 (e_perm e) @ cpu_to_le32 (e_id e)"

text \<open>The room of the buffer, \<open>None\<close> for a NULL buffer; the result pairs the returned size with
  the bytes stored.\<close>

definition posix_acl_to_xattr :: "posix_acl \<Rightarrow> nat option \<Rightarrow> nat ret \<times> u8 list" where
  "posix_acl_to_xattr acl buffer =
     (let real_size = posix_acl_xattr_size (length acl) in
      case buffer of
        None \<Rightarrow> (Inr real_size, [])
      | Some room \<Rightarrow>
          if real_size > room then (Inl ERANGE, [])
          else (Inr real_size, cpu_to_le32 POSIX_ACL_XATTR_VERSION @ concat (map to_xattr_entry acl)))"

section \<open>The shape of a valid ACL\<close>

definition perm_ok :: "posix_acl_entry \<Rightarrow> bool" where
  "perm_ok e \<longleftrightarrow> e_perm e AND NOT S_IRWXO = 0"

text \<open>A run of named entries: one tag, defined ids in strictly ascending order.\<close>

definition named_run :: "u16 \<Rightarrow> posix_acl \<Rightarrow> bool" where
  "named_run tag es \<longleftrightarrow> (\<forall>e \<in> set es. e_tag e = tag \<and> e_id e \<noteq> ACL_UNDEFINED_ID) \<and> sorted_wrt (<) (map e_id es)"

text \<open>
  Owner, named users, owning group, named groups, a mask that must be there with any named entry,
  and others.
\<close>

definition acl_parts ::
  "posix_acl_entry \<Rightarrow> posix_acl \<Rightarrow> posix_acl_entry \<Rightarrow> posix_acl \<Rightarrow> posix_acl \<Rightarrow> posix_acl_entry \<Rightarrow> posix_acl \<Rightarrow> bool" where
  "acl_parts uo us go gs ms ot acl \<longleftrightarrow>
     acl = uo # us @ go # gs @ ms @ [ot] \<and> (\<forall>e \<in> set acl. perm_ok e) \<and>
     e_tag uo = ACL_USER_OBJ \<and> named_run ACL_USER us \<and> e_tag go = ACL_GROUP_OBJ \<and> named_run ACL_GROUP gs \<and>
     (ms = [] \<and> us = [] \<and> gs = [] \<or> (\<exists>mo. ms = [mo] \<and> e_tag mo = ACL_MASK)) \<and> e_tag ot = ACL_OTHER"

definition acl_wf :: "posix_acl \<Rightarrow> bool" where
  "acl_wf acl \<longleftrightarrow> (\<exists>uo us go gs ms ot. acl_parts uo us go gs ms ot acl)"

lemma ACL_tags_distinct [simp]:
  "ACL_USER_OBJ \<noteq> ACL_USER" "ACL_USER_OBJ \<noteq> ACL_GROUP_OBJ" "ACL_USER_OBJ \<noteq> ACL_GROUP" "ACL_USER_OBJ \<noteq> ACL_MASK"
  "ACL_USER_OBJ \<noteq> ACL_OTHER" "ACL_USER \<noteq> ACL_USER_OBJ" "ACL_USER \<noteq> ACL_GROUP_OBJ" "ACL_USER \<noteq> ACL_GROUP"
  "ACL_USER \<noteq> ACL_MASK" "ACL_USER \<noteq> ACL_OTHER" "ACL_GROUP_OBJ \<noteq> ACL_USER_OBJ" "ACL_GROUP_OBJ \<noteq> ACL_USER"
  "ACL_GROUP_OBJ \<noteq> ACL_GROUP" "ACL_GROUP_OBJ \<noteq> ACL_MASK" "ACL_GROUP_OBJ \<noteq> ACL_OTHER" "ACL_GROUP \<noteq> ACL_USER_OBJ"
  "ACL_GROUP \<noteq> ACL_USER" "ACL_GROUP \<noteq> ACL_GROUP_OBJ" "ACL_GROUP \<noteq> ACL_MASK" "ACL_GROUP \<noteq> ACL_OTHER"
  "ACL_MASK \<noteq> ACL_USER_OBJ" "ACL_MASK \<noteq> ACL_USER" "ACL_MASK \<noteq> ACL_GROUP_OBJ" "ACL_MASK \<noteq> ACL_GROUP" "ACL_MASK \<noteq> ACL_OTHER"
  "ACL_OTHER \<noteq> ACL_USER_OBJ" "ACL_OTHER \<noteq> ACL_USER" "ACL_OTHER \<noteq> ACL_GROUP_OBJ" "ACL_OTHER \<noteq> ACL_GROUP" "ACL_OTHER \<noteq> ACL_MASK"
  by (simp_all add: ACL_tags)

lemma perm_bits: "ACL_READ OR ACL_WRITE OR ACL_EXECUTE = S_IRWXO"
  by (simp add: ACL_READ_def ACL_WRITE_def ACL_EXECUTE_def S_IRWXO_def)

lemma word_Suc_le: "(a :: u32) \<noteq> - 1 \<Longrightarrow> a + 1 \<le> b \<longleftrightarrow> a < b"
proof -
  assume a: "a \<noteq> - 1"
  then have "uint a + 1 < 2 ^ 32"
  proof -
    have "uint a < 2 ^ 32" using uint_lt2p [of a] by simp
    moreover have "uint a \<noteq> 2 ^ 32 - 1"
    proof
      assume "uint a = 2 ^ 32 - 1"
      then have "a = - 1" by (simp add: word_uint_eq_iff uint_word_ariths unsigned_minus_1_eq_mask mask_eq_exp_minus_1)
      with a show False by simp
    qed
    ultimately show ?thesis by linarith
  qed
  then have "uint (a + 1) = uint a + 1"
    by (simp add: uint_word_ariths)
  then show ?thesis by (simp add: word_le_def word_less_def add1_zle_eq)
qed

lemma valid_loop_None: "posix_acl_valid_loop es None i nm = Inr () \<longleftrightarrow> es = []"
  by (cases es) auto

lemma valid_loop_other:
  "posix_acl_valid_loop es (Some ACL_OTHER) i nm = Inr () \<longleftrightarrow>
     (\<exists>ot. es = [ot] \<and> e_tag ot = ACL_OTHER \<and> perm_ok ot)"
  by (cases es) (auto simp: valid_loop_None perm_ok_def perm_bits)

text \<open>The part after the owning group, with the least id allowed and whether a mask is needed.\<close>

definition group_tail :: "u32 \<Rightarrow> bool \<Rightarrow> posix_acl \<Rightarrow> posix_acl \<Rightarrow> posix_acl_entry \<Rightarrow> posix_acl \<Rightarrow> bool" where
  "group_tail i nm gs ms ot es \<longleftrightarrow> es = gs @ ms @ [ot] \<and> (\<forall>e \<in> set es. perm_ok e) \<and>
     named_run ACL_GROUP gs \<and> (\<forall>e \<in> set gs. i \<le> e_id e) \<and>
     (ms = [] \<and> \<not> nm \<and> gs = [] \<or> (\<exists>mo. ms = [mo] \<and> e_tag mo = ACL_MASK)) \<and> e_tag ot = ACL_OTHER"

lemma named_run_Cons:
  "named_run tag (e # es) \<longleftrightarrow> e_tag e = tag \<and> e_id e \<noteq> ACL_UNDEFINED_ID \<and> named_run tag es \<and> (\<forall>x \<in> set es. e_id e < e_id x)"
  by (auto simp: named_run_def)

lemma group_tail_Cons:
  "(\<exists>gs ms ot. group_tail i nm gs ms ot (e # es)) \<longleftrightarrow> perm_ok e \<and>
     (e_tag e = ACL_GROUP \<and> e_id e \<noteq> ACL_UNDEFINED_ID \<and> i \<le> e_id e \<and> (\<exists>gs ms ot. group_tail (e_id e + 1) True gs ms ot es) \<or>
      e_tag e = ACL_MASK \<and> (\<exists>ot. es = [ot] \<and> e_tag ot = ACL_OTHER \<and> perm_ok ot) \<or>
      e_tag e = ACL_OTHER \<and> \<not> nm \<and> es = [])" (is "?L \<longleftrightarrow> ?R")
proof
  assume ?L
  then obtain gs ms ot where g: "group_tail i nm gs ms ot (e # es)" by blast
  show ?R
  proof (cases gs)
    case Nil
    with g show ?thesis by (auto simp: group_tail_def)
  next
    case (Cons g gs')
    with g have "g = e" "perm_ok e" and "group_tail (e_id e + 1) True gs' ms ot es" "e_tag e = ACL_GROUP" "e_id e \<noteq> ACL_UNDEFINED_ID" "i \<le> e_id e"
      by (auto simp: group_tail_def named_run_Cons word_Suc_le ACL_UNDEFINED_ID_def)
    then show ?thesis by blast
  qed
next
  assume ?R
  then consider gs ms ot where "perm_ok e" "e_tag e = ACL_GROUP" "e_id e \<noteq> ACL_UNDEFINED_ID" "i \<le> e_id e" "group_tail (e_id e + 1) True gs ms ot es"
    | ot where "perm_ok e" "e_tag e = ACL_MASK" "es = [ot]" "e_tag ot = ACL_OTHER" "perm_ok ot"
    | "perm_ok e" "e_tag e = ACL_OTHER" "\<not> nm" "es = []"
    by blast
  then show ?L
  proof cases
    case 1
    then have "group_tail i nm (e # gs) ms ot (e # es)"
      by (auto simp: group_tail_def named_run_Cons word_Suc_le ACL_UNDEFINED_ID_def)
    then show ?thesis by blast
  next
    case 2
    then have "group_tail i nm [] [e] ot (e # es)" by (auto simp: group_tail_def named_run_def)
    then show ?thesis by blast
  next
    case 3
    then have "group_tail i nm [] [] e (e # es)" by (auto simp: group_tail_def named_run_def)
    then show ?thesis by blast
  qed
qed

lemma valid_loop_group:
  "posix_acl_valid_loop es (Some ACL_GROUP) i nm = Inr () \<longleftrightarrow> (\<exists>gs ms ot. group_tail i nm gs ms ot es)"
proof (induction es arbitrary: i nm)
  case Nil
  show ?case by (auto simp: group_tail_def)
next
  case (Cons e es)
  show ?case
    unfolding group_tail_Cons
    using Cons.IH by (auto simp: valid_loop_None valid_loop_other perm_ok_def perm_bits not_less)
qed

definition user_tail ::
  "u32 \<Rightarrow> bool \<Rightarrow> posix_acl \<Rightarrow> posix_acl_entry \<Rightarrow> posix_acl \<Rightarrow> posix_acl \<Rightarrow> posix_acl_entry \<Rightarrow> posix_acl \<Rightarrow> bool" where
  "user_tail i nm us go gs ms ot es \<longleftrightarrow> es = us @ go # gs @ ms @ [ot] \<and> (\<forall>e \<in> set us. perm_ok e) \<and> perm_ok go \<and>
     named_run ACL_USER us \<and> (\<forall>e \<in> set us. i \<le> e_id e) \<and> e_tag go = ACL_GROUP_OBJ \<and>
     group_tail 0 (nm \<or> us \<noteq> []) gs ms ot (gs @ ms @ [ot])"

lemma user_tail_Cons:
  "(\<exists>us go gs ms ot. user_tail i nm us go gs ms ot (e # es)) \<longleftrightarrow> perm_ok e \<and>
     (e_tag e = ACL_USER \<and> e_id e \<noteq> ACL_UNDEFINED_ID \<and> i \<le> e_id e \<and>
        (\<exists>us go gs ms ot. user_tail (e_id e + 1) True us go gs ms ot es) \<or>
      e_tag e = ACL_GROUP_OBJ \<and> (\<exists>gs ms ot. group_tail 0 nm gs ms ot es))" (is "?L \<longleftrightarrow> ?R")
proof
  assume ?L
  then obtain us go gs ms ot where u: "user_tail i nm us go gs ms ot (e # es)" by blast
  show ?R
  proof (cases us)
    case Nil
    with u have "e = go" "es = gs @ ms @ [ot]" "perm_ok e" "e_tag e = ACL_GROUP_OBJ" "group_tail 0 nm gs ms ot es"
      by (auto simp: user_tail_def)
    then show ?thesis by blast
  next
    case (Cons x us')
    with u have "x = e" "perm_ok e" "user_tail (e_id e + 1) True us' go gs ms ot es" "e_tag e = ACL_USER"
      "e_id e \<noteq> ACL_UNDEFINED_ID" "i \<le> e_id e"
      by (auto simp: user_tail_def named_run_Cons word_Suc_le ACL_UNDEFINED_ID_def)
    then show ?thesis by blast
  qed
next
  assume ?R
  then consider us go gs ms ot where "perm_ok e" "e_tag e = ACL_USER" "e_id e \<noteq> ACL_UNDEFINED_ID" "i \<le> e_id e"
      "user_tail (e_id e + 1) True us go gs ms ot es"
    | gs ms ot where "perm_ok e" "e_tag e = ACL_GROUP_OBJ" "group_tail 0 nm gs ms ot es"
    by blast
  then show ?L
  proof cases
    case 1
    then have "user_tail i nm (e # us) go gs ms ot (e # es)"
      by (auto simp: user_tail_def named_run_Cons word_Suc_le ACL_UNDEFINED_ID_def)
    then show ?thesis by blast
  next
    case 2
    then have "user_tail i nm [] e gs ms ot (e # es)" by (auto simp: user_tail_def named_run_def group_tail_def)
    then show ?thesis by blast
  qed
qed

lemma valid_loop_user:
  "posix_acl_valid_loop es (Some ACL_USER) i nm = Inr () \<longleftrightarrow> (\<exists>us go gs ms ot. user_tail i nm us go gs ms ot es)"
proof (induction es arbitrary: i nm)
  case Nil
  show ?case by (auto simp: user_tail_def)
next
  case (Cons e es)
  show ?case
    unfolding user_tail_Cons
    using Cons.IH by (auto simp: valid_loop_group perm_ok_def perm_bits not_less)
qed

lemma acl_parts_user_tail:
  "acl_parts uo us go gs ms ot (e # es) \<longleftrightarrow>
     e = uo \<and> perm_ok uo \<and> e_tag uo = ACL_USER_OBJ \<and> user_tail 0 False us go gs ms ot es"
  by (auto simp: acl_parts_def user_tail_def group_tail_def)

lemma posix_acl_valid_iff: "posix_acl_valid acl = Inr () \<longleftrightarrow> acl_wf acl"
proof (cases acl)
  case Nil
  then show ?thesis by (auto simp: posix_acl_valid_def acl_wf_def acl_parts_def)
next
  case (Cons e es)
  have "posix_acl_valid acl = Inr () \<longleftrightarrow> perm_ok e \<and> e_tag e = ACL_USER_OBJ \<and> (\<exists>us go gs ms ot. user_tail 0 False us go gs ms ot es)"
    by (auto simp: posix_acl_valid_def Cons valid_loop_user perm_ok_def perm_bits)
  also have "\<dots> \<longleftrightarrow> acl_wf acl"
    unfolding acl_wf_def Cons acl_parts_user_tail by blast
  finally show ?thesis .
qed

lemma posix_acl_valid_cases: "posix_acl_valid acl = Inr () \<or> posix_acl_valid acl = Inl EINVAL"
proof -
  have "posix_acl_valid_loop acl st i nm = Inr () \<or> posix_acl_valid_loop acl st i nm = Inl EINVAL" for st i nm
    by (induction acl st i nm rule: posix_acl_valid_loop.induct) auto
  then show ?thesis by (simp add: posix_acl_valid_def)
qed

section \<open>The access decision\<close>

lemma perm_allows_and: "perm_allows (a AND b) want \<longleftrightarrow> perm_allows a want \<and> perm_allows b want"
  by (auto simp: perm_allows_def bit_eq_iff bit_and_iff bit_ucast_iff)

definition masks_allow :: "posix_acl \<Rightarrow> u32 \<Rightarrow> bool" where
  "masks_allow es want \<longleftrightarrow> (\<forall>m \<in> set es. e_tag m = ACL_MASK \<longrightarrow> perm_allows (e_perm m) want)"

text \<open>
  The decision of the POSIX.1e draft: the owner is judged by the owner entry alone; a named user
  by its entry under the mask; a member of some listed group needs one such entry that allows all
  that is wanted, under the mask; everybody else is judged by the others entry.
\<close>

definition group_entry :: "kernel \<Rightarrow> gid_t \<Rightarrow> posix_acl_entry \<Rightarrow> bool" where
  "group_entry k i_gid e \<longleftrightarrow> e_tag e = ACL_GROUP_OBJ \<and> in_group_p i_gid k \<or> e_tag e = ACL_GROUP \<and> in_group_p (e_id e) k"

definition user_entry :: "kernel \<Rightarrow> posix_acl_entry \<Rightarrow> bool" where
  "user_entry k e \<longleftrightarrow> e_tag e = ACL_USER \<and> e_id e = cr_fsuid (current_cred k)"

definition acl_grants :: "kernel \<Rightarrow> uid_t \<Rightarrow> gid_t \<Rightarrow> posix_acl \<Rightarrow> u32 \<Rightarrow> bool" where
  "acl_grants k i_uid i_gid acl want =
     (if i_uid = cr_fsuid (current_cred k)
      then \<exists>e \<in> set acl. e_tag e = ACL_USER_OBJ \<and> perm_allows (e_perm e) want
      else if \<exists>e \<in> set acl. user_entry k e
      then \<exists>e \<in> set acl. user_entry k e \<and> perm_allows (e_perm e) want \<and> masks_allow acl want
      else if \<exists>e \<in> set acl. group_entry k i_gid e
      then \<exists>e \<in> set acl. group_entry k i_gid e \<and> perm_allows (e_perm e) want \<and> masks_allow acl want
      else \<exists>e \<in> set acl. e_tag e = ACL_OTHER \<and> perm_allows (e_perm e) want)"

lemma acl_mask_check_eq:
  assumes "length (filter (\<lambda>e. e_tag e = ACL_MASK) es) \<le> 1"
  shows "acl_mask_check p es want = (if perm_allows p want \<and> masks_allow es want then Inr () else Inl EACCES)"
  using assms
proof (induction es)
  case (Cons e es)
  show ?case
  proof (cases "e_tag e = ACL_MASK")
    case True
    with Cons.prems have "\<forall>m \<in> set es. e_tag m \<noteq> ACL_MASK" by (auto simp: filter_empty_conv)
    with True show ?thesis by (auto simp: masks_allow_def perm_allows_and)
  next
    case False
    with Cons show ?thesis by (simp add: masks_allow_def)
  qed
qed (simp add: masks_allow_def)

text \<open>The walk over the named groups, the mask and the others entry.\<close>

lemma permission_loop_groups:
  assumes "\<forall>e \<in> set gs. e_tag e = ACL_GROUP" "ms = [] \<or> (\<exists>mo. ms = [mo] \<and> e_tag mo = ACL_MASK)" "e_tag ot = ACL_OTHER"
  shows "posix_acl_permission_loop k u g want (gs @ ms @ [ot]) found =
    (if \<exists>e \<in> set gs. in_group_p (e_id e) k \<and> perm_allows (e_perm e) want
     then if masks_allow ms want then Inr () else Inl EACCES
     else if found \<or> (\<exists>e \<in> set gs. in_group_p (e_id e) k) then Inl EACCES
     else if perm_allows (e_perm ot) want then Inr () else Inl EACCES)"
  using assms(1)
proof (induction gs arbitrary: found)
  case Nil
  show ?case using assms(2,3) by (auto simp: ACL_tags_distinct)
next
  case (Cons e gs)
  have one: "length (filter (\<lambda>e. e_tag e = ACL_MASK) (gs @ ms @ [ot])) \<le> 1"
    using Cons.prems assms(2,3) by (auto simp: filter_empty_conv)
  have m: "masks_allow (gs @ ms @ [ot]) want = masks_allow ms want"
    using Cons.prems assms(3) by (auto simp: masks_allow_def)
  show ?case
    using Cons.prems Cons.IH by (auto simp: acl_mask_check_eq [OF one] m)
qed

lemma permission_loop_users:
  assumes "named_run ACL_USER us" "length (filter (\<lambda>e. e_tag e = ACL_MASK) rest) \<le> 1"
  shows "posix_acl_permission_loop k u g want (us @ rest) found =
    (if \<exists>e \<in> set us. user_entry k e
     then if (\<exists>e \<in> set us. user_entry k e \<and> perm_allows (e_perm e) want) \<and> masks_allow rest want then Inr () else Inl EACCES
     else posix_acl_permission_loop k u g want rest found)"
  using assms(1)
proof (induction us)
  case (Cons e us)
  have us: "named_run ACL_USER us" "e_tag e = ACL_USER" "\<forall>x \<in> set us. e_tag x = ACL_USER \<and> e_id x \<noteq> e_id e"
    using Cons.prems by (auto simp: named_run_Cons) (auto simp: named_run_def)
  have one: "length (filter (\<lambda>e. e_tag e = ACL_MASK) (us @ rest)) \<le> 1"
    using us(3) assms(2) by (simp add: filter_empty_conv)
  have m: "masks_allow (us @ rest) want = masks_allow rest want"
    using us(3) by (auto simp: masks_allow_def)
  show ?case
  proof (cases "e_id e = cr_fsuid (current_cred k)")
    case True
    with us have "user_entry k e" "\<forall>x \<in> set us. \<not> user_entry k x" by (auto simp: user_entry_def)
    with True us(2) show ?thesis by (auto simp: acl_mask_check_eq [OF one] m)
  next
    case False
    with us(2) Cons.IH [OF us(1)] show ?thesis by (auto simp: user_entry_def)
  qed
qed simp

lemma posix_acl_permission_eq:
  assumes "acl_wf acl"
  shows "posix_acl_permission k i_uid i_gid acl want = (if acl_grants k i_uid i_gid acl want then Inr () else Inl EACCES)"
proof -
  obtain uo us go gs ms ot where p: "acl_parts uo us go gs ms ot acl"
    using assms by (auto simp: acl_wf_def)
  then have acl: "acl = uo # us @ go # gs @ ms @ [ot]" and tags: "e_tag uo = ACL_USER_OBJ" "named_run ACL_USER us"
    "e_tag go = ACL_GROUP_OBJ" "\<forall>e \<in> set us. e_tag e = ACL_USER" "\<forall>e \<in> set gs. e_tag e = ACL_GROUP" "ms = [] \<or> (\<exists>mo. ms = [mo] \<and> e_tag mo = ACL_MASK)" "e_tag ot = ACL_OTHER"
    by (auto simp: acl_parts_def named_run_def)
  have one: "length (filter (\<lambda>e. e_tag e = ACL_MASK) (go # gs @ ms @ [ot])) \<le> 1"
    "length (filter (\<lambda>e. e_tag e = ACL_MASK) (gs @ ms @ [ot])) \<le> 1"
    using tags by (auto simp: filter_empty_conv)
  have m: "masks_allow (go # gs @ ms @ [ot]) want = masks_allow ms want" "masks_allow acl want = masks_allow ms want"
    "masks_allow (gs @ ms @ [ot]) want = masks_allow ms want"
    using tags unfolding acl by (auto simp: masks_allow_def)
  define UU where "UU \<longleftrightarrow> (\<exists>e \<in> set us. user_entry k e)"
  define UA where "UA \<longleftrightarrow> (\<exists>e \<in> set us. user_entry k e \<and> perm_allows (e_perm e) want)"
  define GG where "GG \<longleftrightarrow> (\<exists>e \<in> set gs. in_group_p (e_id e) k)"
  define GA where "GA \<longleftrightarrow> (\<exists>e \<in> set gs. in_group_p (e_id e) k \<and> perm_allows (e_perm e) want)"
  have user: "(\<exists>e \<in> set acl. user_entry k e) \<longleftrightarrow> UU"
    "(\<exists>e \<in> set acl. user_entry k e \<and> perm_allows (e_perm e) want \<and> masks_allow acl want) \<longleftrightarrow> UA \<and> masks_allow ms want"
    using tags unfolding m(2) UU_def UA_def unfolding acl by (auto simp: user_entry_def)
  have group: "(\<exists>e \<in> set acl. group_entry k i_gid e) \<longleftrightarrow> in_group_p i_gid k \<or> GG"
    "(\<exists>e \<in> set acl. group_entry k i_gid e \<and> perm_allows (e_perm e) want \<and> masks_allow acl want) \<longleftrightarrow>
       (in_group_p i_gid k \<and> perm_allows (e_perm go) want \<or> GA) \<and> masks_allow ms want"
    using tags unfolding m(2) GG_def GA_def unfolding acl by (auto simp: group_entry_def)
  have single: "(\<exists>e \<in> set acl. e_tag e = ACL_USER_OBJ \<and> perm_allows (e_perm e) want) \<longleftrightarrow> perm_allows (e_perm uo) want"
    "(\<exists>e \<in> set acl. e_tag e = ACL_OTHER \<and> perm_allows (e_perm e) want) \<longleftrightarrow> perm_allows (e_perm ot) want"
    using tags unfolding acl by auto
  have loop: "posix_acl_permission k i_uid i_gid acl want =
      (if i_uid = cr_fsuid (current_cred k) then if perm_allows (e_perm uo) want then Inr () else Inl EACCES
       else posix_acl_permission_loop k i_uid i_gid want (us @ go # gs @ ms @ [ot]) False)"
    using tags(1) by (simp add: posix_acl_permission_def acl)
  have gloop: "posix_acl_permission_loop k i_uid i_gid want (go # gs @ ms @ [ot]) False =
      (if in_group_p i_gid k
       then if perm_allows (e_perm go) want then if masks_allow ms want then Inr () else Inl EACCES
            else if GA then if masks_allow ms want then Inr () else Inl EACCES else Inl EACCES
       else if GA then if masks_allow ms want then Inr () else Inl EACCES
            else if GG then Inl EACCES else if perm_allows (e_perm ot) want then Inr () else Inl EACCES)"
    using tags(3) by (simp add: acl_mask_check_eq [OF one(2)] m(3)
        permission_loop_groups [OF tags(5-7), of k i_uid i_gid want, folded GA_def GG_def])
  have "GA \<Longrightarrow> GG" "UA \<Longrightarrow> UU" by (auto simp: GA_def GG_def UA_def UU_def)
  then show ?thesis
    unfolding loop permission_loop_users [OF tags(2) one(1)] acl_grants_def user group single gloop m(1)
      UU_def [symmetric] UA_def [symmetric]
    by simp
qed

section \<open>ACLs and mode bits\<close>

lemma bit_S:
  "bit S_IRWXU n \<longleftrightarrow> 6 \<le> n \<and> n < 9" "bit S_IRWXG n \<longleftrightarrow> 3 \<le> n \<and> n < 6" "bit S_IRWXO n \<longleftrightarrow> n < 3"
  "bit S_IRWXUGO n \<longleftrightarrow> n < 9"
proof -
  have eqs: "S_IRWXU = push_bit 6 (mask 3)" "S_IRWXG = push_bit 3 (mask 3)" "S_IRWXO = mask 3" "S_IRWXUGO = mask 9"
    by (simp_all add: S_bits mask_eq_exp_minus_1)
  show "bit S_IRWXU n \<longleftrightarrow> 6 \<le> n \<and> n < 9" "bit S_IRWXG n \<longleftrightarrow> 3 \<le> n \<and> n < 6" "bit S_IRWXO n \<longleftrightarrow> n < 3"
    "bit S_IRWXUGO n \<longleftrightarrow> n < 9"
    unfolding eqs bit_push_bit_iff bit_mask_iff by auto
qed

lemma bit_u16_less: "bit (w :: u16) n \<Longrightarrow> n < 16"
  using bit_imp_le_length [of w n] by simp

lemma perm_ok_bits: "perm_ok e \<longleftrightarrow> (\<forall>n. bit (e_perm e) n \<longrightarrow> n < 3)"
  by (auto simp: perm_ok_def bit_eq_iff bit_and_iff bit_not_iff bit_S dest: bit_u16_less)

lemmas mode_bits = bit_and_iff bit_or_iff bit_not_iff bit_push_bit_iff bit_drop_bit_eq bit_S

lemma equiv_loop_named:
  "\<forall>e \<in> set us. e_tag e = ACL_USER \<or> e_tag e = ACL_GROUP \<Longrightarrow>
     posix_acl_equiv_loop (us @ rest) mode ne = posix_acl_equiv_loop rest mode (ne \<or> us \<noteq> [])"
  by (induction us arbitrary: ne) auto

text \<open>The entry that carries the group class: the mask if there is one.\<close>

definition class_entry :: "posix_acl_entry \<Rightarrow> posix_acl \<Rightarrow> posix_acl_entry" where
  "class_entry go ms = (case ms of [] \<Rightarrow> go | mo # _ \<Rightarrow> mo)"

definition acl_mode :: "posix_acl_entry \<Rightarrow> posix_acl_entry \<Rightarrow> posix_acl_entry \<Rightarrow> u16" where
  "acl_mode uo ge ot = push_bit 6 (e_perm uo) OR push_bit 3 (e_perm ge) OR e_perm ot"

lemma perm_ok_and: "perm_ok e \<Longrightarrow> e_perm e AND S_IRWXO = e_perm e"
  by (auto simp: perm_ok_bits bit_eq_iff bit_and_iff bit_S)

lemma acl_partsD:
  assumes "acl_parts uo us go gs ms ot acl"
  shows "acl = uo # us @ go # gs @ ms @ [ot]" "e_tag uo = ACL_USER_OBJ" "e_tag go = ACL_GROUP_OBJ" "e_tag ot = ACL_OTHER"
    "\<forall>e \<in> set us. e_tag e = ACL_USER \<or> e_tag e = ACL_GROUP" "\<forall>e \<in> set gs. e_tag e = ACL_USER \<or> e_tag e = ACL_GROUP"
    "perm_ok uo" "perm_ok go" "perm_ok ot" "ms = [] \<and> us = [] \<and> gs = [] \<or> (\<exists>mo. ms = [mo] \<and> e_tag mo = ACL_MASK \<and> perm_ok mo)"
  using assms by (auto simp: acl_parts_def named_run_def)

lemma equiv_loop_parts:
  assumes "acl_parts uo us go gs ms ot acl"
  shows "posix_acl_equiv_loop acl 0 False = Inr (ms \<noteq> [], acl_mode uo (class_entry go ms) ot)"
proof -
  note p = acl_partsD [OF assms]
  have tail: "posix_acl_equiv_loop (gs @ ms @ [ot]) (push_bit 6 (e_perm uo) OR push_bit 3 (e_perm go)) (us \<noteq> []) =
      Inr (ms \<noteq> [], acl_mode uo (class_entry go ms) ot)"
    using p(4,10)
  proof (elim disjE exE conjE)
    fix mo assume mo: "ms = [mo]" "e_tag mo = ACL_MASK" "perm_ok mo" "e_tag ot = ACL_OTHER"
    have "(push_bit 6 (e_perm uo) OR push_bit 3 (e_perm go)) AND NOT S_IRWXG = push_bit 6 (e_perm uo)"
      using p(7,8) by (auto simp: bit_eq_iff mode_bits perm_ok_bits)
    with mo p(6,9) show ?thesis
      by (simp add: equiv_loop_named perm_ok_and acl_mode_def class_entry_def or.assoc)
  qed (use p(9) in \<open>simp add: perm_ok_and acl_mode_def class_entry_def or.assoc\<close>)
  have "posix_acl_equiv_loop acl 0 False =
      posix_acl_equiv_loop (us @ go # gs @ ms @ [ot]) (push_bit 6 (e_perm uo)) False"
    using p(2,7) unfolding p(1) by (simp add: perm_ok_and)
  also have "\<dots> = posix_acl_equiv_loop (gs @ ms @ [ot]) (push_bit 6 (e_perm uo) OR push_bit 3 (e_perm go)) (us \<noteq> [])"
    using p(3,5,8) by (simp add: equiv_loop_named perm_ok_and)
  finally show ?thesis using tail by simp
qed

lemma acl_mode_within: "perm_ok uo \<Longrightarrow> perm_ok ge \<Longrightarrow> perm_ok ot \<Longrightarrow> acl_mode uo ge ot AND S_IRWXUGO = acl_mode uo ge ot"
  by (auto simp: bit_eq_iff mode_bits perm_ok_bits acl_mode_def)

section \<open>chmod\<close>

lemma chmod_loop_named:
  "\<forall>e \<in> set us. e_tag e = ACL_USER \<or> e_tag e = ACL_GROUP \<Longrightarrow>
     chmod_masq_loop i (us @ rest) mode g m = map_sum id (apfst ((@) us)) (chmod_masq_loop (i + length us) rest mode g m)"
proof (induction us arbitrary: i)
  case Nil
  show ?case by (cases "chmod_masq_loop i rest mode g m") auto
next
  case (Cons e us)
  then show ?case by (cases "chmod_masq_loop (Suc (i + length us)) rest mode g m") auto
qed

lemma set_perm_append: "set_perm (xs @ e # ys) (length xs) p = xs @ e\<lparr>e_perm := p\<rparr> # ys"
  by (simp add: set_perm_def)

definition with_class :: "posix_acl_entry \<Rightarrow> posix_acl \<Rightarrow> u16 \<Rightarrow> posix_acl_entry \<times> posix_acl" where
  "with_class go ms p = (case ms of [] \<Rightarrow> (go\<lparr>e_perm := p\<rparr>, []) | mo # _ \<Rightarrow> (go, [mo\<lparr>e_perm := p\<rparr>]))"

lemma chmod_masq_parts:
  assumes "acl_parts uo us go gs ms ot acl" "with_class go ms (drop_bit 3 (mode AND S_IRWXG)) = (go', ms')"
  shows "posix_acl_chmod_masq acl mode =
    Inr (uo\<lparr>e_perm := drop_bit 6 (mode AND S_IRWXU)\<rparr> # us @ go' # gs @ ms' @ [ot\<lparr>e_perm := mode AND S_IRWXO\<rparr>])"
proof -
  note p = acl_partsD [OF assms(1)]
  let ?uo = "uo\<lparr>e_perm := drop_bit 6 (mode AND S_IRWXU)\<rparr>" and ?ot = "ot\<lparr>e_perm := mode AND S_IRWXO\<rparr>"
  have loop: "chmod_masq_loop 0 acl mode None None =
      map_sum id (apfst ((@) (?uo # us @ go # gs))) (chmod_masq_loop (Suc (Suc (length us + length gs))) (ms @ [ot]) mode (Some (Suc (length us))) None)"
    using p(2,3) unfolding p(1)
    by (cases "chmod_masq_loop (Suc (Suc (length us + length gs))) (ms @ [ot]) mode (Some (Suc (length us))) None")
      (auto simp: chmod_loop_named [OF p(5)] chmod_loop_named [OF p(6)])
  from p(10) show ?thesis
  proof (elim disjE exE conjE)
    fix mo assume mo: "ms = [mo]" "e_tag mo = ACL_MASK"
    have "set_perm ((?uo # us @ go # gs) @ mo # [?ot]) (Suc (Suc (length us + length gs))) q =
        (?uo # us @ go # gs) @ mo\<lparr>e_perm := q\<rparr> # [?ot]" for q
      using set_perm_append [of "?uo # us @ go # gs" mo "[?ot]" q] by simp
    with mo p(4) assms(2) show ?thesis
      by (auto simp: posix_acl_chmod_masq_def loop with_class_def)
  next
    assume "ms = []" "us = []" "gs = []"
    moreover have "set_perm [?uo, go, ?ot] (Suc 0) q = [?uo, go\<lparr>e_perm := q\<rparr>, ?ot]" for q
      by (simp add: set_perm_def)
    ultimately show ?thesis
      using p(4) assms(2) by (auto simp: posix_acl_chmod_masq_def loop with_class_def)
  qed
qed

lemma acl_parts_perms:
  assumes "acl_parts uo us go gs ms ot acl" "perm_ok (uo\<lparr>e_perm := a\<rparr>)" "perm_ok (ot\<lparr>e_perm := b\<rparr>)"
    "perm_ok (go\<lparr>e_perm := c\<rparr>)" "with_class go ms c = (go', ms')"
  shows "acl_parts (uo\<lparr>e_perm := a\<rparr>) us go' gs ms' (ot\<lparr>e_perm := b\<rparr>)
    (uo\<lparr>e_perm := a\<rparr> # us @ go' # gs @ ms' @ [ot\<lparr>e_perm := b\<rparr>])" "e_perm (class_entry go' ms') = c"
  using assms by (auto simp: acl_parts_def with_class_def class_entry_def perm_ok_def split: list.splits)

lemma perm_ok_mode [simp]:
  "perm_ok (e\<lparr>e_perm := drop_bit 6 (mode AND S_IRWXU)\<rparr>)" "perm_ok (e\<lparr>e_perm := drop_bit 3 (mode AND S_IRWXG)\<rparr>)"
  "perm_ok (e\<lparr>e_perm := mode AND S_IRWXO\<rparr>)"
  by (auto simp: perm_ok_bits mode_bits)

lemma acl_mode_of_mode:
  "push_bit 6 (drop_bit 6 (mode AND S_IRWXU)) OR push_bit 3 (drop_bit 3 (mode AND S_IRWXG)) OR (mode AND S_IRWXO)
     = mode AND S_IRWXUGO"
proof (rule bit_word_eqI)
  fix n assume "n < LENGTH(16)"
  show "bit (push_bit 6 (drop_bit 6 (mode AND S_IRWXU)) OR push_bit 3 (drop_bit 3 (mode AND S_IRWXG)) OR (mode AND S_IRWXO)) n
    = bit (mode AND S_IRWXUGO) n"
    by (cases "n < 3"; cases "n < 6") (auto simp: mode_bits dest: bit_u16_less)
qed

section \<open>ACLs of new inodes\<close>

lemma create_loop_named:
  "\<forall>e \<in> set us. e_tag e = ACL_USER \<or> e_tag e = ACL_GROUP \<Longrightarrow>
     create_masq_loop i (us @ rest) mode ne g m =
       map_sum id (apfst ((@) us)) (create_masq_loop (i + length us) rest mode (ne \<or> us \<noteq> []) g m)"
proof (induction us arbitrary: i ne)
  case Nil
  show ?case by (cases "create_masq_loop i rest mode ne g m") auto
next
  case (Cons e us)
  then show ?case by (cases "create_masq_loop (Suc (i + length us)) rest mode True g m") auto
qed

text \<open>The permissions that remain of each class.\<close>

lemma masq_perms:
  assumes "perm_ok uo" "perm_ok ge" "perm_ok ot"
    and p_def: "p = e_perm uo AND (drop_bit 6 mode OR NOT S_IRWXO)"
    and m1_def: "m1 = mode AND (push_bit 6 p OR NOT S_IRWXU)"
    and q_def: "q = e_perm ot AND (m1 OR NOT S_IRWXO)"
    and m2_def: "m2 = m1 AND (q OR NOT S_IRWXO)"
    and r_def: "r = e_perm ge AND (drop_bit 3 m2 OR NOT S_IRWXO)"
  shows "p = e_perm uo AND drop_bit 6 mode" "q = e_perm ot AND mode" "r = e_perm ge AND drop_bit 3 mode"
    "(mode AND NOT S_IRWXUGO) OR (m2 AND (push_bit 3 r OR NOT S_IRWXG))
       = (mode AND NOT S_IRWXUGO) OR push_bit 6 p OR push_bit 3 r OR q"
proof -
  have m1: "bit m1 n \<longleftrightarrow> bit mode n \<and> (6 \<le> n \<and> n < 9 \<longrightarrow> bit (e_perm uo) (n - 6))" for n
    unfolding m1_def p_def by (auto simp: mode_bits dest: bit_u16_less)
  show p: "p = e_perm uo AND drop_bit 6 mode"
    using assms(1) by (auto simp: p_def bit_eq_iff mode_bits perm_ok_bits)
  show q: "q = e_perm ot AND mode"
    using assms(3) by (auto simp: q_def bit_eq_iff mode_bits perm_ok_bits m1)
  have m2: "bit m2 n \<longleftrightarrow> bit m1 n \<and> (n < 3 \<longrightarrow> bit q n)" for n
    unfolding m2_def by (auto simp: mode_bits dest: bit_u16_less)
  show r: "r = e_perm ge AND drop_bit 3 mode"
    using assms(2) by (auto simp: r_def bit_eq_iff mode_bits perm_ok_bits m2 m1)
  show "(mode AND NOT S_IRWXUGO) OR (m2 AND (push_bit 3 r OR NOT S_IRWXG))
       = (mode AND NOT S_IRWXUGO) OR push_bit 6 p OR push_bit 3 r OR q"
  proof (rule bit_word_eqI)
    fix n assume n: "n < LENGTH(16)"
    consider "n < 3" | "3 \<le> n" "n < 6" | "6 \<le> n" "n < 9" | "9 \<le> n" by linarith
    then show "bit ((mode AND NOT S_IRWXUGO) OR (m2 AND (push_bit 3 r OR NOT S_IRWXG))) n
       = bit ((mode AND NOT S_IRWXUGO) OR push_bit 6 p OR push_bit 3 r OR q) n"
      using n assms(1-3) by cases (auto simp: mode_bits m2 m1 p q r perm_ok_bits)
  qed
qed

lemma create_masq_parts:
  assumes "acl_parts uo us go gs ms ot acl"
    and "with_class go ms (e_perm (class_entry go ms) AND drop_bit 3 mode) = (go', ms')"
  shows "posix_acl_create_masq acl mode =
    Inr (ms \<noteq> [], uo\<lparr>e_perm := e_perm uo AND drop_bit 6 mode\<rparr> # us @ go' # gs @ ms' @ [ot\<lparr>e_perm := e_perm ot AND mode\<rparr>],
      (mode AND NOT S_IRWXUGO) OR push_bit 6 (e_perm uo AND drop_bit 6 mode)
        OR push_bit 3 (e_perm (class_entry go ms) AND drop_bit 3 mode) OR (e_perm ot AND mode))"
proof -
  note pt = acl_partsD [OF assms(1)]
  have ge: "perm_ok (class_entry go ms)" using pt(8,10) by (auto simp: class_entry_def)
  define p where "p = e_perm uo AND (drop_bit 6 mode OR NOT S_IRWXO)"
  define m1 where "m1 = mode AND (push_bit 6 p OR NOT S_IRWXU)"
  define q where "q = e_perm ot AND (m1 OR NOT S_IRWXO)"
  define m2 where "m2 = m1 AND (q OR NOT S_IRWXO)"
  define r where "r = e_perm (class_entry go ms) AND (drop_bit 3 m2 OR NOT S_IRWXO)"
  note b = masq_perms [OF pt(7) ge pt(9) p_def m1_def q_def m2_def r_def]
  let ?uo = "uo\<lparr>e_perm := p\<rparr>" and ?ot = "ot\<lparr>e_perm := q\<rparr>"
  have loop: "create_masq_loop 0 acl mode False None None =
      map_sum id (apfst ((@) (?uo # us @ go # gs)))
        (create_masq_loop (Suc (Suc (length us + length gs))) (ms @ [ot]) m1 (us \<noteq> [] \<or> gs \<noteq> []) (Some (Suc (length us))) None)"
    using pt(2,3) unfolding pt(1)
    by (cases "create_masq_loop (Suc (Suc (length us + length gs))) (ms @ [ot]) m1 (us \<noteq> [] \<or> gs \<noteq> []) (Some (Suc (length us))) None")
      (auto simp: create_loop_named [OF pt(5)] create_loop_named [OF pt(6)] Let_def p_def m1_def)
  have "posix_acl_create_masq acl mode = Inr (ms \<noteq> [], ?uo # us @ go' # gs @ ms' @ [?ot],
      (mode AND NOT S_IRWXUGO) OR (m2 AND (push_bit 3 r OR NOT S_IRWXG)))"
    using pt(10)
  proof (elim disjE exE conjE)
    fix mo assume mo: "ms = [mo]" "e_tag mo = ACL_MASK"
    let ?a = "(?uo # us @ go # gs) @ mo # [?ot]" and ?j = "Suc (Suc (length us + length gs))"
    have "create_masq_loop 0 acl mode False None None = Inr (?a, m2, True, Some (Suc (length us)), Some ?j)"
      using mo pt(4) by (simp add: loop Let_def q_def m2_def)
    moreover have "?a ! ?j = mo" "set_perm ?a ?j x = (?uo # us @ go # gs) @ mo\<lparr>e_perm := x\<rparr> # [?ot]" for x
      using set_perm_append [of "?uo # us @ go # gs" mo "[?ot]" x] by (simp_all add: nth_append)
    moreover have "e_perm mo AND (drop_bit 3 m2 OR NOT S_IRWXO) = r" "e_perm mo AND drop_bit 3 mode = r"
      using mo b(3) by (simp_all add: r_def class_entry_def)
    ultimately show ?thesis
      using mo assms(2) by (auto simp: posix_acl_create_masq_def Let_def with_class_def class_entry_def)
  next
    assume nil: "ms = []" "us = []" "gs = []"
    have "create_masq_loop 0 acl mode False None None = Inr ([?uo, go, ?ot], m2, False, Some (Suc 0), None)"
      using nil pt(4) by (simp add: loop Let_def q_def m2_def)
    moreover have "e_perm go AND (drop_bit 3 m2 OR NOT S_IRWXO) = r" "e_perm go AND drop_bit 3 mode = r"
      using nil b(3) by (simp_all add: r_def class_entry_def)
    ultimately show ?thesis
      using nil assms(2) by (auto simp: posix_acl_create_masq_def Let_def with_class_def class_entry_def set_perm_def)
  qed
  then show ?thesis unfolding b(4) unfolding b(1-3) .
qed

section \<open>The attribute format\<close>

lemma le16_round_trip [simp]: "le16_to_cpu (cpu_to_le16 w @ rest) = w"
proof (rule bit_word_eqI)
  fix n assume "n < LENGTH(16)"
  then show "bit (le16_to_cpu (cpu_to_le16 w @ rest)) n = bit w n"
    by (cases "n < 8") (auto simp: le16_to_cpu_def cpu_to_le16_def bit_or_iff bit_push_bit_iff bit_ucast_iff bit_drop_bit_eq)
qed

lemma le32_round_trip [simp]: "le32_to_cpu (cpu_to_le32 w @ rest) = w"
proof (rule bit_word_eqI)
  fix n assume n: "n < LENGTH(32)"
  consider "n < 8" | "8 \<le> n" "n < 16" | "16 \<le> n" "n < 24" | "24 \<le> n" by linarith
  then show "bit (le32_to_cpu (cpu_to_le32 w @ rest)) n = bit w n"
    using n by cases (auto simp: le32_to_cpu_def cpu_to_le32_def bit_or_iff bit_push_bit_iff bit_ucast_iff bit_drop_bit_eq)
qed

lemma length_le [simp]: "length (cpu_to_le16 w) = 2" "length (cpu_to_le32 v) = 4" "length (to_xattr_entry e) = 8"
  by (simp_all add: cpu_to_le16_def cpu_to_le32_def to_xattr_entry_def)

definition known_tag :: "posix_acl_entry \<Rightarrow> bool" where
  "known_tag e \<longleftrightarrow> e_tag e \<in> {ACL_USER_OBJ, ACL_USER, ACL_GROUP_OBJ, ACL_GROUP, ACL_MASK, ACL_OTHER}"

text \<open>Only named entries carry an id.\<close>

definition canonical_ids :: "posix_acl \<Rightarrow> bool" where
  "canonical_ids acl \<longleftrightarrow> (\<forall>e \<in> set acl. e_tag e \<notin> {ACL_USER, ACL_GROUP} \<longrightarrow> e_id e = ACL_UNDEFINED_ID)"

lemma from_xattr_entries_to:
  assumes "\<forall>e \<in> set acl. known_tag e" "canonical_ids acl"
  shows "from_xattr_entries (length acl) (concat (map to_xattr_entry acl) @ rest) = Inr acl"
  using assms
proof (induction acl)
  case (Cons e acl)
  let ?bs = "to_xattr_entry e @ concat (map to_xattr_entry acl) @ rest"
  have bs: "le16_to_cpu ?bs = e_tag e" "le16_to_cpu (drop 2 ?bs) = e_perm e" "le32_to_cpu (drop 4 ?bs) = e_id e"
    "drop 8 ?bs = concat (map to_xattr_entry acl) @ rest"
    by (simp_all add: to_xattr_entry_def)
  have "from_xattr_entries (length acl) (concat (map to_xattr_entry acl) @ rest) = Inr acl"
    using Cons by (simp add: canonical_ids_def)
  moreover have "e_tag e \<notin> {ACL_USER, ACL_GROUP} \<Longrightarrow> e_id e = ACL_UNDEFINED_ID" "known_tag e"
    using Cons.prems by (auto simp: canonical_ids_def)
  ultimately show ?case
    using bs by (auto simp: Let_def known_tag_def simp del: drop_append)
qed simp

lemma acl_wf_known: "acl_wf acl \<Longrightarrow> \<forall>e \<in> set acl. known_tag e"
  by (auto simp: acl_wf_def acl_parts_def known_tag_def named_run_def)

lemma acl_wf_length: "acl_wf acl \<Longrightarrow> 0 < length acl"
  by (auto simp: acl_wf_def acl_parts_def)

lemma length_to_xattr: "length (concat (map to_xattr_entry acl)) = 8 * length acl"
  by (induction acl) auto

section \<open>Properties\<close>

text \<open>
  C37. posix_acl_valid accepts exactly the well-formed ACLs: owner entry, named users in ascending
  order, owning group, named groups in ascending order, a mask whenever there is a named entry,
  others, with permissions of three bits; and every refusal is EINVAL.
\<close>

theorem posix_acl_valid_exact:
  "posix_acl_valid acl = (if acl_wf acl then Inr () else Inl EINVAL)"
  using posix_acl_valid_iff [of acl] posix_acl_valid_cases [of acl] by auto

text \<open>
  C15. On a valid ACL posix_acl_permission decides exactly as the POSIX.1e draft does: it grants
  what the draft's algorithm grants and otherwise refuses with EACCES, never with EIO.
\<close>

theorem posix_acl_permission_exact:
  assumes "posix_acl_valid acl = Inr ()"
  shows "posix_acl_permission k i_uid i_gid acl want = (if acl_grants k i_uid i_gid acl want then Inr () else Inl EACCES)"
  using posix_acl_permission_eq assms posix_acl_valid_iff by blast

definition sample_acl :: posix_acl where
  "sample_acl =
     [\<lparr>e_tag = ACL_USER_OBJ, e_perm = 7, e_id = ACL_UNDEFINED_ID\<rparr>, \<lparr>e_tag = ACL_USER, e_perm = 6, e_id = 1000\<rparr>,
      \<lparr>e_tag = ACL_USER, e_perm = 7, e_id = 2000\<rparr>, \<lparr>e_tag = ACL_GROUP_OBJ, e_perm = 5, e_id = ACL_UNDEFINED_ID\<rparr>,
      \<lparr>e_tag = ACL_GROUP, e_perm = 4, e_id = 1015\<rparr>, \<lparr>e_tag = ACL_MASK, e_perm = 5, e_id = ACL_UNDEFINED_ID\<rparr>,
      \<lparr>e_tag = ACL_OTHER, e_perm = 0, e_id = ACL_UNDEFINED_ID\<rparr>]"

lemma sample_acl_valid: "posix_acl_valid sample_acl = Inr ()"
  by code_simp

theorem posix_acl_permission_exact_witness:
  "posix_acl_permission (running (user_cred 2000)) 0 0 sample_acl 2 = Inl EACCES \<and>
   \<not> acl_grants (running (user_cred 2000)) 0 0 sample_acl 2"
proof -
  have "posix_acl_permission (running (user_cred 2000)) 0 0 sample_acl 2 = Inl EACCES"
    by code_simp
  with posix_acl_permission_exact [OF sample_acl_valid, of "running (user_cred 2000)" 0 0 2] show ?thesis
    by (simp split: if_splits)
qed

lemma acl_validE:
  assumes "posix_acl_valid acl = Inr ()"
  obtains uo us go gs ms ot where "acl_parts uo us go gs ms ot acl"
  using assms unfolding posix_acl_valid_iff acl_wf_def by (elim exE)

lemma acl_validI: "acl_parts uo us go gs ms ot acl \<Longrightarrow> posix_acl_valid acl = Inr ()"
  unfolding posix_acl_valid_iff acl_wf_def by (intro exI)

lemma equiv_mode_parts:
  "acl_parts uo us go gs ms ot acl \<Longrightarrow>
     posix_acl_equiv_mode acl old = Inr (ms \<noteq> [], (old AND NOT S_IRWXUGO) OR acl_mode uo (class_entry go ms) ot)"
  unfolding posix_acl_equiv_mode_def by (drule equiv_loop_parts) simp

lemma equiv_mode_valid:
  assumes "posix_acl_valid acl = Inr ()"
  obtains ne m where "\<And>old. posix_acl_equiv_mode acl old = Inr (ne, (old AND NOT S_IRWXUGO) OR m)" "m AND S_IRWXUGO = m"
proof -
  obtain uo us go gs ms ot where p: "acl_parts uo us go gs ms ot acl"
    using assms by (rule acl_validE)
  note pt = acl_partsD [OF p]
  have "perm_ok (class_entry go ms)" using pt(8,10) by (auto simp: class_entry_def)
  then show thesis
    using that equiv_mode_parts [OF p] acl_mode_within [OF pt(7) _ pt(9)] by metis
qed

lemma mode_merge:
  fixes m old :: u16
  assumes "m AND S_IRWXUGO = m"
  shows "((old AND NOT S_IRWXUGO) OR m) AND NOT S_IRWXUGO = old AND NOT S_IRWXUGO"
    "((old AND NOT S_IRWXUGO) OR m) AND S_IRWXUGO = m"
  using assms by (auto simp: bit_eq_iff bit_and_iff bit_or_iff bit_not_iff)

lemma acl_mode_of_perms:
  assumes "e_perm uo = drop_bit 6 (mode AND S_IRWXU)" "e_perm ge = drop_bit 3 (mode AND S_IRWXG)" "e_perm ot = mode AND S_IRWXO"
  shows "acl_mode uo ge ot = mode AND S_IRWXUGO"
  unfolding acl_mode_def assms by (rule acl_mode_of_mode)

text \<open>Changing permissions keeps the tags and the ids, and the named entries altogether.\<close>

abbreviation acl_shape :: "posix_acl \<Rightarrow> (u16 \<times> u32) list" where
  "acl_shape acl \<equiv> map (\<lambda>e. (e_tag e, e_id e)) acl"

abbreviation named_entries :: "posix_acl \<Rightarrow> posix_acl" where
  "named_entries acl \<equiv> filter (\<lambda>e. e_tag e = ACL_USER \<or> e_tag e = ACL_GROUP) acl"

lemma with_class_keeps:
  assumes "acl_parts uo us go gs ms ot acl" "with_class go ms c = (go', ms')"
  shows "acl_shape (uo\<lparr>e_perm := a\<rparr> # us @ go' # gs @ ms' @ [ot\<lparr>e_perm := b\<rparr>]) = acl_shape acl"
    and "named_entries (uo\<lparr>e_perm := a\<rparr> # us @ go' # gs @ ms' @ [ot\<lparr>e_perm := b\<rparr>]) = named_entries acl"
    and "ms' = [] \<longleftrightarrow> ms = []"
proof -
  note pt = acl_partsD [OF assms(1)]
  have e: "e_tag go' = e_tag go" "e_id go' = e_id go" "acl_shape ms' = acl_shape ms" "ms' = [] \<longleftrightarrow> ms = []"
    and m: "named_entries ms' = []" "named_entries ms = []"
    using assms(2) pt(10) by (auto simp: with_class_def)
  then show "acl_shape (uo\<lparr>e_perm := a\<rparr> # us @ go' # gs @ ms' @ [ot\<lparr>e_perm := b\<rparr>]) = acl_shape acl" "ms' = [] \<longleftrightarrow> ms = []"
    unfolding pt(1) by simp_all
  show "named_entries (uo\<lparr>e_perm := a\<rparr> # us @ go' # gs @ ms' @ [ot\<lparr>e_perm := b\<rparr>]) = named_entries acl"
    using pt(2-4) unfolding pt(1) by (simp add: e m)
qed

lemma acl_le_parts:
  assumes "acl_parts uo us go gs ms ot acl" "with_class go ms (e_perm (class_entry go ms) AND c) = (go', ms')"
  shows "list_all2 (\<lambda>e e'. e_perm e' AND NOT (e_perm e) = 0) acl
    (uo\<lparr>e_perm := e_perm uo AND a\<rparr> # us @ go' # gs @ ms' @ [ot\<lparr>e_perm := e_perm ot AND b\<rparr>])"
proof -
  have z: "(x AND y) AND NOT x = 0" "x AND NOT x = 0" for x y :: u16
    by (auto simp: bit_eq_iff bit_and_iff bit_not_iff)
  note pt = acl_partsD [OF assms(1)]
  show ?thesis
    using assms(2) pt(10) unfolding pt(1)
    by (auto simp: with_class_def class_entry_def list_all2_appendI list_all2_same z)
qed

lemma masq_mode:
  assumes "u AND NOT S_IRWXO = 0" "g AND NOT S_IRWXO = 0" "w AND NOT S_IRWXO = 0"
    and m: "mode' = (mode AND NOT S_IRWXUGO) OR push_bit 6 (u AND drop_bit 6 mode) OR push_bit 3 (g AND drop_bit 3 mode) OR (w AND mode)"
  shows "mode' AND NOT mode = 0" "mode' AND NOT S_IRWXUGO = mode AND NOT S_IRWXUGO"
    "(mode' AND NOT S_IRWXUGO) OR push_bit 6 (u AND drop_bit 6 mode) OR push_bit 3 (g AND drop_bit 3 mode) OR (w AND mode) = mode'"
proof -
  have b: "bit u n \<Longrightarrow> n < 3" "bit g n \<Longrightarrow> n < 3" "bit w n \<Longrightarrow> n < 3" for n
    using assms(1-3) by (auto simp: bit_eq_iff mode_bits dest: bit_u16_less)
  have m': "bit mode' n \<longleftrightarrow> bit mode n \<and> (9 \<le> n \<or> 6 \<le> n \<and> bit u (n - 6) \<or> 3 \<le> n \<and> bit g (n - 3) \<or> bit w n)" for n
    unfolding m by (auto simp: mode_bits dest: bit_u16_less)
  show "mode' AND NOT mode = 0"
    by (auto simp: bit_eq_iff bit_and_iff bit_not_iff m')
  show k: "mode' AND NOT S_IRWXUGO = mode AND NOT S_IRWXUGO"
    using b by (auto simp: bit_eq_iff bit_and_iff bit_not_iff bit_S m')
  show "(mode' AND NOT S_IRWXUGO) OR push_bit 6 (u AND drop_bit 6 mode) OR push_bit 3 (g AND drop_bit 3 mode) OR (w AND mode) = mode'"
    unfolding k by (rule m [symmetric])
qed

lemma chmod_masq_spec:
  assumes "posix_acl_valid acl = Inr ()"
  obtains acl' ne where "posix_acl_chmod_masq acl mode = Inr acl'" "posix_acl_valid acl' = Inr ()"
    "acl_shape acl' = acl_shape acl" "named_entries acl' = named_entries acl"
    "\<forall>old_mode. posix_acl_equiv_mode acl' old_mode = Inr (ne, (old_mode AND NOT S_IRWXUGO) OR (mode AND S_IRWXUGO))"
    "\<forall>old_mode. map_sum id fst (posix_acl_equiv_mode acl old_mode) = Inr ne"
proof -
  obtain uo us go gs ms ot where p: "acl_parts uo us go gs ms ot acl"
    using assms by (rule acl_validE)
  obtain go' ms' where w: "with_class go ms (drop_bit 3 (mode AND S_IRWXG)) = (go', ms')" by fastforce
  let ?uo = "uo\<lparr>e_perm := drop_bit 6 (mode AND S_IRWXU)\<rparr>" and ?ot = "ot\<lparr>e_perm := mode AND S_IRWXO\<rparr>"
  let ?acl = "?uo # us @ go' # gs @ ms' @ [?ot]"
  have p': "acl_parts ?uo us go' gs ms' ?ot ?acl" "e_perm (class_entry go' ms') = drop_bit 3 (mode AND S_IRWXG)"
    by (rule acl_parts_perms [OF p perm_ok_mode(1) perm_ok_mode(3) perm_ok_mode(2) w])+
  have v: "posix_acl_valid ?acl = Inr ()"
    using p'(1) by (rule acl_validI)
  have ne: "map_sum id fst (posix_acl_equiv_mode acl old) = Inr (ms' \<noteq> [])" for old
    unfolding equiv_mode_parts [OF p] with_class_keeps(3) [OF p w] by simp
  have "acl_mode ?uo (class_entry go' ms') ?ot = mode AND S_IRWXUGO"
    by (rule acl_mode_of_perms [OF _ p'(2)]) simp_all
  then have e: "posix_acl_equiv_mode ?acl old_mode = Inr (ms' \<noteq> [], (old_mode AND NOT S_IRWXUGO) OR (mode AND S_IRWXUGO))" for old_mode
    unfolding equiv_mode_parts [OF p'(1)] by (simp only:)
  show thesis
    using e ne by (intro that [OF chmod_masq_parts [OF p w] v with_class_keeps(1,2) [OF p w]]) auto
qed

text \<open>
  chmod on a valid ACL succeeds, keeps it valid with the same tags and ids and the same named
  entries, and the mode bits the new ACL stands for are exactly the bits passed to chmod.
\<close>

theorem posix_acl_chmod_masq_correct:
  assumes "posix_acl_valid acl = Inr ()"
  shows "\<exists>acl' ne. posix_acl_chmod_masq acl mode = Inr acl' \<and> posix_acl_valid acl' = Inr () \<and>
    acl_shape acl' = acl_shape acl \<and> named_entries acl' = named_entries acl \<and>
    posix_acl_equiv_mode acl' old_mode = Inr (ne, (old_mode AND NOT S_IRWXUGO) OR (mode AND S_IRWXUGO))"
  by (rule chmod_masq_spec [OF assms, of mode]) (intro exI conjI, assumption+, erule spec)

theorem posix_acl_chmod_masq_correct_witness:
  "\<exists>acl' ne. posix_acl_chmod_masq sample_acl 0x1A4 = Inr acl' \<and> posix_acl_valid acl' = Inr () \<and>
     posix_acl_equiv_mode acl' 0x81FF = Inr (ne, 0x81A4)"
proof -
  have "(0x81FF AND NOT S_IRWXUGO) OR (0x1A4 AND S_IRWXUGO) = (0x81A4 :: u16)"
    by (simp add: S_IRWXUGO_def S_IRWXU_def S_IRWXG_def S_IRWXO_def)
  from posix_acl_chmod_masq_correct [OF sample_acl_valid, of "0x1A4" "0x81FF", unfolded this] show ?thesis by blast
qed

lemma create_masq_spec:
  assumes "posix_acl_valid acl = Inr ()"
  shows "\<exists>ne acl' mode'. posix_acl_create_masq acl mode = Inr (ne, acl', mode') \<and> posix_acl_valid acl' = Inr () \<and>
    acl_shape acl' = acl_shape acl \<and> list_all2 (\<lambda>e e'. e_perm e' AND NOT (e_perm e) = 0) acl acl' \<and>
    mode' AND NOT mode = 0 \<and> mode' AND NOT S_IRWXUGO = mode AND NOT S_IRWXUGO \<and>
    posix_acl_equiv_mode acl' mode' = Inr (ne, mode')"
proof -
  obtain uo us go gs ms ot where p: "acl_parts uo us go gs ms ot acl"
    using assms by (rule acl_validE)
  note pt = acl_partsD [OF p]
  define c where "c = e_perm (class_entry go ms) AND drop_bit 3 mode"
  obtain go' ms' where w: "with_class go ms c = (go', ms')" by fastforce
  let ?uo = "uo\<lparr>e_perm := e_perm uo AND drop_bit 6 mode\<rparr>" and ?ot = "ot\<lparr>e_perm := e_perm ot AND mode\<rparr>"
  define mode' where "mode' = (mode AND NOT S_IRWXUGO) OR push_bit 6 (e_perm uo AND drop_bit 6 mode) OR push_bit 3 c OR (e_perm ot AND mode)"
  have ge: "perm_ok (class_entry go ms)" using pt(8,10) by (auto simp: class_entry_def)
  have ok: "perm_ok ?uo" "perm_ok ?ot" "perm_ok (go\<lparr>e_perm := c\<rparr>)"
    using pt(7,9) ge unfolding c_def perm_ok_bits by (auto simp: bit_and_iff)
  note p' = acl_parts_perms [OF p ok w]
  note mm = masq_mode [OF pt(7) [unfolded perm_ok_def] ge [unfolded perm_ok_def] pt(9) [unfolded perm_ok_def]
    mode'_def [unfolded c_def]]
  have "acl_mode ?uo (class_entry go' ms') ?ot = push_bit 6 (e_perm uo AND drop_bit 6 mode) OR push_bit 3 c OR (e_perm ot AND mode)"
    unfolding acl_mode_def p'(2) by simp
  then have "posix_acl_equiv_mode (?uo # us @ go' # gs @ ms' @ [?ot]) mode' = Inr (ms \<noteq> [], mode')"
    unfolding equiv_mode_parts [OF p'(1)] with_class_keeps(3) [OF p w] using mm(3) [folded c_def] by (simp only: or.assoc)
  moreover have "posix_acl_create_masq acl mode = Inr (ms \<noteq> [], ?uo # us @ go' # gs @ ms' @ [?ot], mode')"
    unfolding mode'_def c_def by (rule create_masq_parts [OF p w [unfolded c_def]])
  moreover have "posix_acl_valid (?uo # us @ go' # gs @ ms' @ [?ot]) = Inr ()"
    using p'(1) by (rule acl_validI)
  ultimately show ?thesis
    by (intro exI [of _ "ms \<noteq> []"] exI [of _ "?uo # us @ go' # gs @ ms' @ [?ot]"] exI [of _ mode'] conjI
        with_class_keeps(1) [OF p w] acl_le_parts [OF p w [unfolded c_def]] mm(1,2))
qed

text \<open>
  Creating an inode under a valid default ACL succeeds: the ACL stays valid and no entry gains
  a permission, the new mode gains none over the requested one and keeps the file type, and the
  permission bits of the new mode are exactly what the new ACL stands for.
\<close>

theorem posix_acl_create_masq_correct:
  assumes "posix_acl_valid acl = Inr ()"
  shows "\<exists>ne acl' mode'. posix_acl_create_masq acl mode = Inr (ne, acl', mode') \<and> posix_acl_valid acl' = Inr () \<and>
    acl_shape acl' = acl_shape acl \<and> list_all2 (\<lambda>e e'. e_perm e' AND NOT (e_perm e) = 0) acl acl' \<and>
    mode' AND NOT mode = 0 \<and> mode' AND NOT S_IRWXUGO = mode AND NOT S_IRWXUGO \<and>
    posix_acl_equiv_mode acl' mode' = Inr (ne, mode')"
  by (rule create_masq_spec [OF assms])

theorem posix_acl_create_masq_correct_witness:
  "\<exists>ne acl' mode'. posix_acl_create_masq sample_acl 0x81B6 = Inr (ne, acl', mode') \<and>
     mode' AND NOT S_IRWXUGO = 0x8000"
proof -
  have "0x81B6 AND NOT S_IRWXUGO = (0x8000 :: u16)"
    by (simp add: S_IRWXUGO_def S_IRWXU_def S_IRWXG_def S_IRWXO_def)
  from posix_acl_create_masq_correct [OF sample_acl_valid, of "0x81B6", unfolded this] show ?thesis by blast
qed

text \<open>
  The minimal ACL made from mode bits is valid and stands for exactly those bits.
\<close>

theorem posix_acl_from_mode_round_trip:
  "\<exists>acl. posix_acl_from_mode True mode = Inr acl \<and> posix_acl_valid acl = Inr () \<and>
     posix_acl_equiv_mode acl old_mode = Inr (False, (old_mode AND NOT S_IRWXUGO) OR (mode AND S_IRWXUGO))"
proof -
  let ?u = "\<lparr>e_tag = ACL_USER_OBJ, e_perm = drop_bit 6 (mode AND S_IRWXU), e_id = ACL_UNDEFINED_ID\<rparr>"
  let ?g = "\<lparr>e_tag = ACL_GROUP_OBJ, e_perm = drop_bit 3 (mode AND S_IRWXG), e_id = ACL_UNDEFINED_ID\<rparr>"
  let ?o = "\<lparr>e_tag = ACL_OTHER, e_perm = mode AND S_IRWXO, e_id = ACL_UNDEFINED_ID\<rparr>"
  have p: "acl_parts ?u [] ?g [] [] ?o [?u, ?g, ?o]"
    using perm_ok_mode [where e = ?u and mode = mode] perm_ok_mode [where e = ?g and mode = mode] perm_ok_mode [where e = ?o and mode = mode]
    by (simp add: acl_parts_def named_run_def)
  then have "posix_acl_valid [?u, ?g, ?o] = Inr ()"
    by (rule acl_validI)
  then show ?thesis
    using equiv_mode_parts [OF p, of old_mode] acl_mode_of_perms [of ?u mode ?g ?o]
    by (simp add: posix_acl_from_mode_def class_entry_def)
qed

lemma xattr_round:
  assumes "posix_acl_valid acl = Inr ()" "canonical_ids acl" "posix_acl_xattr_size (length acl) \<le> room"
  shows "\<exists>bs. posix_acl_to_xattr acl (Some room) = (Inr (length bs), bs) \<and>
    posix_acl_from_xattr True (Some bs) = Inr (Some acl)"
proof -
  have wf: "acl_wf acl" using assms(1) posix_acl_valid_iff by blast
  let ?bs = "cpu_to_le32 POSIX_ACL_XATTR_VERSION @ concat (map to_xattr_entry acl)"
  have "from_xattr_entries (length acl) (concat (map to_xattr_entry acl)) = Inr acl"
    using from_xattr_entries_to [OF acl_wf_known [OF wf] assms(2), of "[]"] by simp
  moreover have "posix_acl_xattr_count (length ?bs) = int (length acl)"
    by (simp add: posix_acl_xattr_count_def length_to_xattr)
  ultimately have "posix_acl_from_xattr True (Some ?bs) = Inr (Some acl)"
    using acl_wf_length [OF wf] by (simp add: posix_acl_from_xattr_def Let_def)
  moreover have "posix_acl_to_xattr acl (Some room) = (Inr (length ?bs), ?bs)"
    using assms(3) by (simp add: posix_acl_to_xattr_def posix_acl_xattr_size_def length_to_xattr)
  ultimately show ?thesis by blast
qed

text \<open>
  C38. A valid ACL whose unnamed entries carry no id survives conversion to the attribute format
  and back.
\<close>

theorem posix_acl_xattr_round_trip:
  assumes "posix_acl_valid acl = Inr ()" "canonical_ids acl" "posix_acl_xattr_size (length acl) \<le> room"
  shows "\<exists>bs. posix_acl_to_xattr acl (Some room) = (Inr (length bs), bs) \<and>
    posix_acl_from_xattr True (Some bs) = Inr (Some acl)"
  by (rule xattr_round [OF assms])

theorem posix_acl_xattr_round_trip_witness:
  "\<exists>bs. posix_acl_to_xattr sample_acl (Some 64) = (Inr (length bs), bs) \<and>
     posix_acl_from_xattr True (Some bs) = Inr (Some sample_acl)"
  using posix_acl_xattr_round_trip [OF sample_acl_valid, of 64]
  by (simp add: canonical_ids_def sample_acl_def posix_acl_xattr_size_def)

end
