(* ===== verification/Inode.thy ===== *)
theory Inode
  imports Posix_Acl
begin

text \<open>
  The part of \<open>struct inode\<close> that access control looks at (include/linux/fs.h), the mode and flag
  macros of include/linux/stat.h and include/linux/fs.h, time stamps (kernel/time.c), and the
  writer count of an inode (fs/namei.c).

  The writer count is the signed 32-bit counter of the source. The protocol around it is a step
  relation over the processes that write to the file and those that deny writing; the reachable
  states never have both.
\<close>

section \<open>Data\<close>

record timespec =
  tv_sec :: int
  tv_nsec :: u32

record super_block =
  s_flags :: u32
  s_maxbytes :: int
  s_time_gran :: u32

record inode =
  i_mode :: u16
  i_uid :: uid_t
  i_gid :: gid_t
  i_size :: int
  i_atime :: timespec
  i_mtime :: timespec
  i_ctime :: timespec
  i_flags :: u32
  i_writecount :: "32 word"
  i_sb :: super_block
  i_acl :: "posix_acl option"
  i_default_acl :: "posix_acl option"

record iattr =
  ia_valid :: u32
  ia_mode :: u16
  ia_uid :: uid_t
  ia_gid :: gid_t
  ia_size :: int
  ia_atime :: timespec
  ia_mtime :: timespec
  ia_ctime :: timespec

section \<open>Flags\<close>

definition MAY_EXEC :: u32 where "MAY_EXEC = 1"
definition MAY_WRITE :: u32 where "MAY_WRITE = 2"
definition MAY_READ :: u32 where "MAY_READ = 4"

definition ATTR_MODE :: u32 where "ATTR_MODE = push_bit 0 1"
definition ATTR_UID :: u32 where "ATTR_UID = push_bit 1 1"
definition ATTR_GID :: u32 where "ATTR_GID = push_bit 2 1"
definition ATTR_SIZE :: u32 where "ATTR_SIZE = push_bit 3 1"
definition ATTR_ATIME :: u32 where "ATTR_ATIME = push_bit 4 1"
definition ATTR_MTIME :: u32 where "ATTR_MTIME = push_bit 5 1"
definition ATTR_CTIME :: u32 where "ATTR_CTIME = push_bit 6 1"
definition ATTR_ATIME_SET :: u32 where "ATTR_ATIME_SET = push_bit 7 1"
definition ATTR_MTIME_SET :: u32 where "ATTR_MTIME_SET = push_bit 8 1"
definition ATTR_FORCE :: u32 where "ATTR_FORCE = push_bit 9 1"
definition ATTR_KILL_SUID :: u32 where "ATTR_KILL_SUID = push_bit 11 1"
definition ATTR_KILL_SGID :: u32 where "ATTR_KILL_SGID = push_bit 12 1"
definition ATTR_FILE :: u32 where "ATTR_FILE = push_bit 13 1"
definition ATTR_KILL_PRIV :: u32 where "ATTR_KILL_PRIV = push_bit 14 1"
definition ATTR_TIMES_SET :: u32 where "ATTR_TIMES_SET = push_bit 16 1"

lemmas ATTR_defs = ATTR_MODE_def ATTR_UID_def ATTR_GID_def ATTR_SIZE_def ATTR_ATIME_def ATTR_MTIME_def
  ATTR_CTIME_def ATTR_ATIME_SET_def ATTR_MTIME_SET_def ATTR_FORCE_def ATTR_KILL_SUID_def
  ATTR_KILL_SGID_def ATTR_FILE_def ATTR_KILL_PRIV_def ATTR_TIMES_SET_def

definition MS_RDONLY :: u32 where "MS_RDONLY = 1"
definition MS_POSIXACL :: u32 where "MS_POSIXACL = push_bit 16 1"
definition S_APPEND :: u32 where "S_APPEND = 4"
definition S_IMMUTABLE :: u32 where "S_IMMUTABLE = 8"
definition S_SWAPFILE :: u32 where "S_SWAPFILE = 256"

definition IS_RDONLY :: "inode \<Rightarrow> bool" where
  "IS_RDONLY inode \<longleftrightarrow> s_flags (i_sb inode) AND MS_RDONLY \<noteq> 0"

definition IS_POSIXACL :: "inode \<Rightarrow> bool" where
  "IS_POSIXACL inode \<longleftrightarrow> s_flags (i_sb inode) AND MS_POSIXACL \<noteq> 0"

definition IS_APPEND :: "inode \<Rightarrow> bool" where
  "IS_APPEND inode \<longleftrightarrow> i_flags inode AND S_APPEND \<noteq> 0"

definition IS_IMMUTABLE :: "inode \<Rightarrow> bool" where
  "IS_IMMUTABLE inode \<longleftrightarrow> i_flags inode AND S_IMMUTABLE \<noteq> 0"

definition IS_SWAPFILE :: "inode \<Rightarrow> bool" where
  "IS_SWAPFILE inode \<longleftrightarrow> i_flags inode AND S_SWAPFILE \<noteq> 0"

definition execute_ok :: "inode \<Rightarrow> bool" where
  "execute_ok inode \<longleftrightarrow> i_mode inode AND S_IXUGO \<noteq> 0 \<or> S_ISDIR (i_mode inode)"

definition is_owner_or_cap :: "kconfig \<Rightarrow> inode \<Rightarrow> kernel \<Rightarrow> bool \<times> kernel" where
  "is_owner_or_cap kc inode k =
     or_else (cr_fsuid (current_cred k) = i_uid inode) (capable kc CAP_FOWNER) k"

section \<open>Time stamps\<close>

text \<open>\<open>jiffy_usecs\<close> is \<open>jiffies_to_usecs(1)\<close>, a constant of the generated time conversion table.\<close>

definition timespec_trunc :: "u32 \<Rightarrow> timespec \<Rightarrow> u32 \<Rightarrow> timespec" where
  "timespec_trunc jiffy_usecs t gran =
     (if gran \<le> jiffy_usecs * 1000 then t
      else if gran = 1000000000 then t\<lparr>tv_nsec := 0\<rparr>
      else t\<lparr>tv_nsec := tv_nsec t - tv_nsec t mod gran\<rparr>)"

definition current_fs_time :: "u32 \<Rightarrow> timespec \<Rightarrow> super_block \<Rightarrow> timespec" where
  "current_fs_time jiffy_usecs now sb = timespec_trunc jiffy_usecs now (s_time_gran sb)"

section \<open>Writers and deniers of writing\<close>

definition get_write_access :: "inode \<Rightarrow> unit ret \<times> inode" where
  "get_write_access inode =
     (if sint (i_writecount inode) < 0 then (Inl ETXTBSY, inode)
      else (Inr (), inode\<lparr>i_writecount := i_writecount inode + 1\<rparr>))"

definition deny_write_access :: "inode \<Rightarrow> unit ret \<times> inode" where
  "deny_write_access inode =
     (if sint (i_writecount inode) > 0 then (Inl ETXTBSY, inode)
      else (Inr (), inode\<lparr>i_writecount := i_writecount inode - 1\<rparr>))"

definition put_write_access :: "inode \<Rightarrow> inode" where
  "put_write_access inode = inode\<lparr>i_writecount := i_writecount inode - 1\<rparr>"

text \<open>The argument says whether there is a file: \<open>allow_write_access(NULL)\<close> does nothing.\<close>

definition allow_write_access :: "bool \<Rightarrow> inode \<Rightarrow> inode" where
  "allow_write_access file inode = (if file then inode\<lparr>i_writecount := i_writecount inode + 1\<rparr> else inode)"

text \<open>
  A file with \<open>w\<close> openings for writing and \<open>d\<close> mappings that deny it: each opening and mapping
  that was granted is released at most once.
\<close>

inductive write_step :: "nat \<times> nat \<times> inode \<Rightarrow> nat \<times> nat \<times> inode \<Rightarrow> bool" where
  open_write: "get_write_access i = (Inr (), i') \<Longrightarrow> write_step (w, d, i) (Suc w, d, i')"
| close_write: "write_step (Suc w, d, i) (w, d, put_write_access i)"
| map_exec: "deny_write_access i = (Inr (), i') \<Longrightarrow> write_step (w, d, i) (w, Suc d, i')"
| unmap_exec: "write_step (w, Suc d, i) (w, d, allow_write_access True i)"

inductive_cases write_stepE: "write_step s s'"

text \<open>The counter is the difference, within the range of the counter, and one side is empty.\<close>

definition write_inv :: "nat \<times> nat \<times> inode \<Rightarrow> bool" where
  "write_inv s = (case s of (w, d, i) \<Rightarrow>
     i_writecount i = of_nat w - of_nat d \<and> (w = 0 \<or> d = 0))"

lemma sint_of_int_32:
  assumes "- (2 ^ 31) \<le> x" "x < 2 ^ 31"
  shows "sint (of_int x :: 32 word) = x"
  using assms by (simp add: signed_of_int signed_take_bit_int_eq_self)

lemma write_inv_sint:
  assumes "write_inv (w, d, i)" "w < 2 ^ 31" "d < 2 ^ 31"
  shows "sint (i_writecount i) = int w - int d"
proof -
  have "i_writecount i = of_int (int w - int d)" using assms(1) by (simp add: write_inv_def)
  moreover have "- (2 ^ 31) \<le> int w - int d" "int w - int d < 2 ^ 31" using assms(2,3) by simp_all
  ultimately show ?thesis by (simp only: sint_of_int_32)
qed

lemma write_inv_step:
  assumes "write_step s s'" "write_inv s" "fst s < 2 ^ 31" "fst (snd s) < 2 ^ 31"
  shows "write_inv s'"
  using assms
proof cases
  case (open_write i i' w d)
  then show ?thesis
    using assms write_inv_sint [of w d i] by (auto simp: get_write_access_def write_inv_def split: if_splits)
next
  case (map_exec i i' w d)
  then show ?thesis
    using assms write_inv_sint [of w d i] by (auto simp: deny_write_access_def write_inv_def split: if_splits)
qed (auto simp: write_inv_def put_write_access_def allow_write_access_def)

text \<open>Steps in a system with fewer than \<open>2 ^ 31\<close> openings and mappings.\<close>

definition small_write_step :: "nat \<times> nat \<times> inode \<Rightarrow> nat \<times> nat \<times> inode \<Rightarrow> bool" where
  "small_write_step s s' \<longleftrightarrow> write_step s s' \<and> fst s' < 2 ^ 31 \<and> fst (snd s') < 2 ^ 31"

lemma write_inv_reachable:
  assumes "small_write_step\<^sup>*\<^sup>* s s'" "write_inv s" "fst s < 2 ^ 31" "fst (snd s) < 2 ^ 31"
  shows "write_inv s' \<and> fst s' < 2 ^ 31 \<and> fst (snd s') < 2 ^ 31"
  using assms
  by (induction rule: rtranclp_induct) (auto simp: small_write_step_def intro: write_inv_step)

text \<open>
  However openings for writing and mappings that deny writing interleave, as long as there are
  fewer than \<open>2 ^ 31\<close> of each, a file never has both, and each kind is granted exactly when
  the other is absent.
\<close>

theorem write_access_exclusive:
  assumes "small_write_step\<^sup>*\<^sup>* (0, 0, i) (w, d, i')" "i_writecount i = 0"
  shows "(w = 0 \<or> d = 0) \<and> (fst (get_write_access i') = Inr () \<longleftrightarrow> d = 0) \<and> (fst (deny_write_access i') = Inr () \<longleftrightarrow> w = 0)"
proof -
  have "write_inv (w, d, i')" "w < 2 ^ 31" "d < 2 ^ 31"
    using write_inv_reachable [OF assms(1)] assms(2) by (simp_all add: write_inv_def)
  then show ?thesis
    using write_inv_sint [of w d i'] by (auto simp: write_inv_def get_write_access_def deny_write_access_def)
qed

definition sample_file :: inode where
  "sample_file = \<lparr>i_mode = 0x81A4, i_uid = 1000, i_gid = 1000, i_size = 0, i_atime = \<lparr>tv_sec = 0, tv_nsec = 0\<rparr>,
     i_mtime = \<lparr>tv_sec = 0, tv_nsec = 0\<rparr>, i_ctime = \<lparr>tv_sec = 0, tv_nsec = 0\<rparr>, i_flags = 0, i_writecount = 0,
     i_sb = \<lparr>s_flags = MS_POSIXACL, s_maxbytes = 2 ^ 31 - 1, s_time_gran = 1\<rparr>, i_acl = None, i_default_acl = None\<rparr>"

theorem write_access_exclusive_witness:
  "fst (deny_write_access (snd (get_write_access sample_file))) \<noteq> Inr ()"
proof -
  have g: "get_write_access sample_file = (Inr (), snd (get_write_access sample_file))"
    by (simp add: get_write_access_def sample_file_def)
  have "small_write_step (0, 0, sample_file) (1, 0, snd (get_write_access sample_file))"
    using write_step.open_write [OF g, of 0 0] by (simp add: small_write_step_def)
  then have "small_write_step\<^sup>*\<^sup>* (0, 0, sample_file) (1, 0, snd (get_write_access sample_file))"
    by (rule r_into_rtranclp)
  from write_access_exclusive [OF this] show ?thesis by (simp add: sample_file_def)
qed

end
