(* ===== verification/Generic_Acl.thy ===== *)
theory Generic_Acl
  imports Inode
begin

text \<open>
  The ACL operations shared by file systems that keep ACLs in memory (fs/generic_acl.c) and their
  only client, tmpfs (mm/shmem_acl.c). The two function pointers of \<open>struct generic_acl_operations\<close>
  are the fields of a record; the locale \<open>acl_store\<close> states what the generic code needs of them, and
  is interpreted on the functions of tmpfs.

  The invariant \<open>acl_consistent\<close>: the access ACL of an inode is valid, has more than the three
  mode entries and agrees with the mode bits; a default ACL is valid and only a directory has one.
\<close>

section \<open>The generic operations\<close>

definition ACL_TYPE_ACCESS :: int where "ACL_TYPE_ACCESS = 0x8000"
definition ACL_TYPE_DEFAULT :: int where "ACL_TYPE_DEFAULT = 0x4000"

definition POSIX_ACL_XATTR_ACCESS :: string where "POSIX_ACL_XATTR_ACCESS = ''system.posix_acl_access''"
definition POSIX_ACL_XATTR_DEFAULT :: string where "POSIX_ACL_XATTR_DEFAULT = ''system.posix_acl_default''"

record generic_acl_operations =
  getacl :: "inode \<Rightarrow> int \<Rightarrow> posix_acl option"
  setacl :: "inode \<Rightarrow> int \<Rightarrow> posix_acl option \<Rightarrow> inode"

text \<open>
  Listing returns the size of the name with its terminating zero, and what it stores in the
  buffer; the buffer is its size, \<open>None\<close> for a null pointer.
\<close>

definition generic_acl_list ::
  "inode \<Rightarrow> generic_acl_operations \<Rightarrow> int \<Rightarrow> nat option \<Rightarrow> nat \<times> string" where
  "generic_acl_list inode ops type list =
     (case getacl ops inode type of
        None \<Rightarrow> (0, [])
      | Some acl \<Rightarrow>
          (let store = (\<lambda>name. let sz = length name + 1 in
                 (sz, case list of None \<Rightarrow> [] | Some list_size \<Rightarrow>
                        if sz \<le> list_size then name @ [CHR 0x00] else []))
           in if type = ACL_TYPE_ACCESS then store POSIX_ACL_XATTR_ACCESS
              else if type = ACL_TYPE_DEFAULT then store POSIX_ACL_XATTR_DEFAULT
              else (0, [])))"

definition generic_acl_get ::
  "inode \<Rightarrow> generic_acl_operations \<Rightarrow> int \<Rightarrow> nat option \<Rightarrow> nat ret \<times> u8 list" where
  "generic_acl_get inode ops type buffer =
     (case getacl ops inode type of
        None \<Rightarrow> (Inl ENODATA, [])
      | Some acl \<Rightarrow> posix_acl_to_xattr acl buffer)"

definition generic_acl_set ::
  "kconfig \<Rightarrow> bool \<Rightarrow> generic_acl_operations \<Rightarrow> int \<Rightarrow> u8 list option \<Rightarrow> inode \<Rightarrow> kernel
     \<Rightarrow> unit ret \<times> inode \<times> kernel" where
  "generic_acl_set kc alloc ops type val inode k =
     (if S_ISLNK (i_mode inode) then (Inl EOPNOTSUPP, inode, k)
      else case is_owner_or_cap kc inode k of
        (False, k) \<Rightarrow> (Inl EPERM, inode, k)
      | (True, k) \<Rightarrow>
          (case posix_acl_from_xattr alloc val of
             Inl e \<Rightarrow> (Inl e, inode, k)
           | Inr None \<Rightarrow> (Inr (), setacl ops inode type None, k)
           | Inr (Some acl) \<Rightarrow>
               (case posix_acl_valid acl of
                  Inl e \<Rightarrow> (Inl e, inode, k)
                | Inr _ \<Rightarrow>
                    if type = ACL_TYPE_ACCESS
                    then case posix_acl_equiv_mode acl (i_mode inode) of
                           Inl e \<Rightarrow> (Inl e, inode, k)
                         | Inr (ne, mode) \<Rightarrow>
                             (Inr (), setacl ops (inode\<lparr>i_mode := mode\<rparr>) type (if ne then Some acl else None), k)
                    else if type = ACL_TYPE_DEFAULT \<and> \<not> S_ISDIR (i_mode inode)
                    then (Inl EINVAL, inode, k)
                    else (Inr (), setacl ops inode type (Some acl), k))))"

text \<open>The two flags are the outcomes of the clones for the default and for the access ACL.\<close>

definition generic_acl_init ::
  "u16 \<Rightarrow> bool \<Rightarrow> bool \<Rightarrow> inode \<Rightarrow> inode \<Rightarrow> generic_acl_operations \<Rightarrow> unit ret \<times> inode" where
  "generic_acl_init umask alloc1 alloc2 inode dir ops =
     (let mode = i_mode inode;
          inode = inode\<lparr>i_mode := mode AND NOT umask\<rparr>;
          acl = (if \<not> S_ISLNK (i_mode inode) then getacl ops dir ACL_TYPE_DEFAULT else None)
      in case acl of
           None \<Rightarrow> (Inr (), inode)
         | Some a \<Rightarrow>
             (case (if S_ISDIR (i_mode inode)
                    then (case posix_acl_clone alloc1 (Some a) of
                            None \<Rightarrow> (Inl ENOMEM, inode)
                          | Some clone \<Rightarrow> (Inr (), setacl ops inode ACL_TYPE_DEFAULT (Some clone)))
                    else (Inr (), inode)) of
                (Inl e, inode) \<Rightarrow> (Inl e, inode)
              | (Inr _, inode) \<Rightarrow>
                  (case posix_acl_clone alloc2 (Some a) of
                     None \<Rightarrow> (Inl ENOMEM, inode)
                   | Some clone \<Rightarrow>
                       (case posix_acl_create_masq clone mode of
                          Inl e \<Rightarrow> (Inr (), inode)
                        | Inr (ne, clone, mode) \<Rightarrow>
                            (let inode = inode\<lparr>i_mode := mode\<rparr>
                             in (Inr (), if ne then setacl ops inode ACL_TYPE_ACCESS (Some clone) else inode))))))"

definition generic_acl_chmod :: "bool \<Rightarrow> inode \<Rightarrow> generic_acl_operations \<Rightarrow> unit ret \<times> inode" where
  "generic_acl_chmod alloc inode ops =
     (if S_ISLNK (i_mode inode) then (Inl EOPNOTSUPP, inode)
      else case getacl ops inode ACL_TYPE_ACCESS of
        None \<Rightarrow> (Inr (), inode)
      | Some acl \<Rightarrow>
          (case posix_acl_clone alloc (Some acl) of
             None \<Rightarrow> (Inl ENOMEM, inode)
           | Some clone \<Rightarrow>
               (case posix_acl_chmod_masq clone (i_mode inode) of
                  Inl e \<Rightarrow> (Inl e, inode)
                | Inr clone \<Rightarrow> (Inr (), setacl ops inode ACL_TYPE_ACCESS (Some clone)))))"

section \<open>The operations of tmpfs\<close>

definition shmem_get_acl :: "inode \<Rightarrow> int \<Rightarrow> posix_acl option" where
  "shmem_get_acl inode type =
     (if type = ACL_TYPE_ACCESS then i_acl inode
      else if type = ACL_TYPE_DEFAULT then i_default_acl inode
      else None)"

definition shmem_set_acl :: "inode \<Rightarrow> int \<Rightarrow> posix_acl option \<Rightarrow> inode" where
  "shmem_set_acl inode type acl =
     (if type = ACL_TYPE_ACCESS then inode\<lparr>i_acl := acl\<rparr>
      else if type = ACL_TYPE_DEFAULT then inode\<lparr>i_default_acl := acl\<rparr>
      else inode)"

definition shmem_acl_ops :: generic_acl_operations where
  "shmem_acl_ops = \<lparr>getacl = shmem_get_acl, setacl = shmem_set_acl\<rparr>"

definition shmem_list_acl_access :: "inode \<Rightarrow> nat option \<Rightarrow> nat \<times> string" where
  "shmem_list_acl_access inode list = generic_acl_list inode shmem_acl_ops ACL_TYPE_ACCESS list"

definition shmem_get_acl_access :: "inode \<Rightarrow> string \<Rightarrow> nat option \<Rightarrow> nat ret \<times> u8 list" where
  "shmem_get_acl_access inode name buffer =
     (if name \<noteq> '''' then (Inl EINVAL, [])
      else generic_acl_get inode shmem_acl_ops ACL_TYPE_ACCESS buffer)"

definition shmem_set_acl_access ::
  "kconfig \<Rightarrow> bool \<Rightarrow> string \<Rightarrow> u8 list option \<Rightarrow> inode \<Rightarrow> kernel \<Rightarrow> unit ret \<times> inode \<times> kernel" where
  "shmem_set_acl_access kc alloc name val inode k =
     (if name \<noteq> '''' then (Inl EINVAL, inode, k)
      else generic_acl_set kc alloc shmem_acl_ops ACL_TYPE_ACCESS val inode k)"

definition shmem_list_acl_default :: "inode \<Rightarrow> nat option \<Rightarrow> nat \<times> string" where
  "shmem_list_acl_default inode list = generic_acl_list inode shmem_acl_ops ACL_TYPE_DEFAULT list"

definition shmem_get_acl_default :: "inode \<Rightarrow> string \<Rightarrow> nat option \<Rightarrow> nat ret \<times> u8 list" where
  "shmem_get_acl_default inode name buffer =
     (if name \<noteq> '''' then (Inl EINVAL, [])
      else generic_acl_get inode shmem_acl_ops ACL_TYPE_DEFAULT buffer)"

definition shmem_set_acl_default ::
  "kconfig \<Rightarrow> bool \<Rightarrow> string \<Rightarrow> u8 list option \<Rightarrow> inode \<Rightarrow> kernel \<Rightarrow> unit ret \<times> inode \<times> kernel" where
  "shmem_set_acl_default kc alloc name val inode k =
     (if name \<noteq> '''' then (Inl EINVAL, inode, k)
      else generic_acl_set kc alloc shmem_acl_ops ACL_TYPE_DEFAULT val inode k)"

definition shmem_acl_init :: "u16 \<Rightarrow> bool \<Rightarrow> bool \<Rightarrow> inode \<Rightarrow> inode \<Rightarrow> unit ret \<times> inode" where
  "shmem_acl_init umask alloc1 alloc2 inode dir = generic_acl_init umask alloc1 alloc2 inode dir shmem_acl_ops"

definition shmem_check_acl :: "inode \<Rightarrow> u32 \<Rightarrow> kernel \<Rightarrow> unit ret" where
  "shmem_check_acl inode may k =
     (case shmem_get_acl inode ACL_TYPE_ACCESS of
        Some acl \<Rightarrow> posix_acl_permission k (i_uid inode) (i_gid inode) acl may
      | None \<Rightarrow> Inl EAGAIN)"

section \<open>What the generic code needs of its operations\<close>

definition acl_consistent :: "generic_acl_operations \<Rightarrow> inode \<Rightarrow> bool" where
  "acl_consistent ops i \<longleftrightarrow>
     (\<forall>acl. getacl ops i ACL_TYPE_ACCESS = Some acl \<longrightarrow>
        posix_acl_valid acl = Inr () \<and> posix_acl_equiv_mode acl (i_mode i) = Inr (True, i_mode i)) \<and>
     (\<forall>acl. getacl ops i ACL_TYPE_DEFAULT = Some acl \<longrightarrow> posix_acl_valid acl = Inr () \<and> S_ISDIR (i_mode i))"

lemma ACL_TYPES_distinct [simp]: "ACL_TYPE_ACCESS \<noteq> ACL_TYPE_DEFAULT" "ACL_TYPE_DEFAULT \<noteq> ACL_TYPE_ACCESS"
  by (simp_all add: ACL_TYPE_ACCESS_def ACL_TYPE_DEFAULT_def)

text \<open>The file type is outside the permission bits.\<close>

lemma S_IS_cong:
  assumes "m AND NOT S_IRWXUGO = m' AND NOT S_IRWXUGO"
  shows "S_ISDIR m \<longleftrightarrow> S_ISDIR m'" "S_ISLNK m \<longleftrightarrow> S_ISLNK m'" "S_ISREG m \<longleftrightarrow> S_ISREG m'"
proof -
  have "S_IFMT = S_IFMT AND NOT S_IRWXUGO" by (simp add: S_IFMT_def S_bits)
  then have "x AND S_IFMT = (x AND NOT S_IRWXUGO) AND S_IFMT" for x
    by (metis and.assoc and.commute)
  then have "m AND S_IFMT = m' AND S_IFMT" using assms by metis
  then show "S_ISDIR m \<longleftrightarrow> S_ISDIR m'" "S_ISLNK m \<longleftrightarrow> S_ISLNK m'" "S_ISREG m \<longleftrightarrow> S_ISREG m'"
    by (simp_all add: S_ISDIR_def S_ISLNK_def S_ISREG_def)
qed

lemma generic_acl_set_cases:
  assumes "generic_acl_set kc alloc ops type val i k = (r, i', k')"
  obtains (fail) "is_err r" "i' = i"
    | (remove) "r = Inr ()" "i' = setacl ops i type None"
    | (access) acl ne m where "r = Inr ()" "type = ACL_TYPE_ACCESS" "posix_acl_valid acl = Inr ()"
        "posix_acl_equiv_mode acl (i_mode i) = Inr (ne, m)"
        "i' = setacl ops (i\<lparr>i_mode := m\<rparr>) type (if ne then Some acl else None)"
    | (plain) acl where "r = Inr ()" "type \<noteq> ACL_TYPE_ACCESS" "posix_acl_valid acl = Inr ()"
        "type = ACL_TYPE_DEFAULT \<Longrightarrow> S_ISDIR (i_mode i)" "i' = setacl ops i type (Some acl)"
proof -
  obtain ok k1 where o: "is_owner_or_cap kc i k = (ok, k1)" by fastforce
  note d = assms [unfolded generic_acl_set_def o]
  consider "S_ISLNK (i_mode i)" | "\<not> S_ISLNK (i_mode i)" "\<not> ok"
    | e where "\<not> S_ISLNK (i_mode i)" ok "posix_acl_from_xattr alloc val = Inl e"
    | "\<not> S_ISLNK (i_mode i)" ok "posix_acl_from_xattr alloc val = Inr None"
    | acl where "\<not> S_ISLNK (i_mode i)" ok "posix_acl_from_xattr alloc val = Inr (Some acl)"
    by (metis sum.exhaust option.exhaust)
  then show thesis
  proof cases
    case (5 acl)
    note d5 = d [unfolded 5(3)]
    show thesis
    proof (cases "posix_acl_valid acl")
      case (Inl e)
      then have "r = Inl e" "i' = i" using d5 5 by simp_all
      then show thesis by (intro fail) simp_all
    next
      case (Inr u)
      note v = this
      show thesis
      proof (cases "type = ACL_TYPE_ACCESS")
        case True
        show thesis
        proof (cases "posix_acl_equiv_mode acl (i_mode i)")
          case (Inl e)
          then have "r = Inl e" "i' = i" using d5 5 v True by simp_all
          then show thesis by (intro fail) simp_all
        next
          case (Inr p)
          then show thesis using d5 5 v True access [of acl "fst p" "snd p"] by (cases p) simp
        qed
      next
        case False
        then show thesis using d5 5 v fail plain by (auto split: if_splits)
      qed
    qed
  qed (use d fail remove in auto)
qed

locale acl_store =
  fixes ops :: generic_acl_operations
  assumes get_set: "t \<in> {ACL_TYPE_ACCESS, ACL_TYPE_DEFAULT} \<Longrightarrow> getacl ops (setacl ops i t a) t = a"
    and get_set_other: "t \<in> {ACL_TYPE_ACCESS, ACL_TYPE_DEFAULT} \<Longrightarrow> t' \<in> {ACL_TYPE_ACCESS, ACL_TYPE_DEFAULT} \<Longrightarrow> t \<noteq> t' \<Longrightarrow>
      getacl ops (setacl ops i t a) t' = getacl ops i t'"
    and set_mode: "i_mode (setacl ops i t a) = i_mode i"
    and get_mode: "getacl ops (i\<lparr>i_mode := m\<rparr>) t = getacl ops i t"
begin

lemmas store = get_set get_set_other set_mode get_mode

lemma set_access:
  assumes "\<And>d. getacl ops i ACL_TYPE_DEFAULT = Some d \<Longrightarrow> posix_acl_valid d = Inr () \<and> S_ISDIR (i_mode i)"
    and "\<And>acl. a = Some acl \<Longrightarrow> posix_acl_valid acl = Inr () \<and> posix_acl_equiv_mode acl (i_mode i) = Inr (True, i_mode i)"
  shows "acl_consistent ops (setacl ops i ACL_TYPE_ACCESS a)"
  using assms by (simp add: acl_consistent_def store)

lemma set_default:
  assumes "acl_consistent ops i" "\<And>d. a = Some d \<Longrightarrow> posix_acl_valid d = Inr () \<and> S_ISDIR (i_mode i)"
  shows "acl_consistent ops (setacl ops i ACL_TYPE_DEFAULT a)"
  using assms by (simp add: acl_consistent_def store)

lemma generic_acl_set_consistent:
  assumes "acl_consistent ops i" "type = ACL_TYPE_ACCESS \<or> type = ACL_TYPE_DEFAULT"
    and "generic_acl_set kc alloc ops type val i k = (r, i', k')"
  shows "acl_consistent ops i' \<and> i_mode i' AND NOT S_IRWXUGO = i_mode i AND NOT S_IRWXUGO \<and> (is_err r \<longrightarrow> i' = i)"
proof -
  from assms(3) show ?thesis
  proof (cases rule: generic_acl_set_cases)
    case (access acl ne m)
    obtain ne' m' where e: "\<And>old. posix_acl_equiv_mode acl old = Inr (ne', (old AND NOT S_IRWXUGO) OR m')" "m' AND S_IRWXUGO = m'"
      using equiv_mode_valid [OF access(3)] by blast
    have m: "ne' = ne" "m = (i_mode i AND NOT S_IRWXUGO) OR m'" using access(4) e(1) by simp_all
    then have k: "m AND NOT S_IRWXUGO = i_mode i AND NOT S_IRWXUGO" using mode_merge(1) [OF e(2)] by simp
    have "posix_acl_equiv_mode acl m = Inr (ne, m)" using e(1) [of m] k m by simp
    moreover have "S_ISDIR m = S_ISDIR (i_mode i)" using S_IS_cong(1) [OF k] .
    ultimately have "acl_consistent ops i'"
      unfolding access(2,5) using assms(1) access(3) by (intro set_access) (auto simp: acl_consistent_def store split: if_splits)
    then show ?thesis using access k by (simp add: store)
  next
    case remove
    then show ?thesis using assms(1,2) set_access [of i None] set_default [of i None] by (auto simp: store acl_consistent_def)
  next
    case (plain acl)
    then show ?thesis using assms(1,2) set_default [of i "Some acl"] by (auto simp: store)
  qed (use assms(1) in simp)
qed

text \<open>
  A new inode has no ACL yet; the mask takes no file type away. Without a default ACL the umask
  applies, with one only the ACL does.
\<close>

lemma generic_acl_init_consistent:
  assumes "acl_consistent ops dir" "umask AND NOT S_IRWXUGO = 0"
    and new: "getacl ops i ACL_TYPE_ACCESS = None" "getacl ops i ACL_TYPE_DEFAULT = None"
    and run: "generic_acl_init umask alloc1 alloc2 i dir ops = (r, i')"
  shows "acl_consistent ops i' \<and> i_mode i' AND NOT (i_mode i) = 0 \<and>
    i_mode i' AND NOT S_IRWXUGO = i_mode i AND NOT S_IRWXUGO"
proof -
  let ?i = "i\<lparr>i_mode := i_mode i AND NOT umask\<rparr>"
  have um: "(i_mode i AND NOT umask) AND NOT (i_mode i) = 0"
    by (auto simp: bit_eq_iff bit_and_iff bit_not_iff)
  have k: "(i_mode i AND NOT umask) AND NOT S_IRWXUGO = i_mode i AND NOT S_IRWXUGO"
    using assms(2) by (auto simp: bit_eq_iff bit_and_iff bit_not_iff)
  have c0: "acl_consistent ops ?i" using new by (simp add: acl_consistent_def store)
  show ?thesis
  proof (cases "\<not> S_ISLNK (i_mode ?i) \<and> getacl ops dir ACL_TYPE_DEFAULT \<noteq> None")
    case False
    then have "i' = ?i" using run by (auto simp: generic_acl_init_def Let_def split: if_splits)
    then show ?thesis using c0 um k by simp
  next
    case True
    then obtain d where d: "getacl ops dir ACL_TYPE_DEFAULT = Some d" "\<not> S_ISLNK (i_mode ?i)" by blast
    then have v: "posix_acl_valid d = Inr ()" using assms(1) by (simp add: acl_consistent_def)
    define j where "j = (if S_ISDIR (i_mode ?i) then setacl ops ?i ACL_TYPE_DEFAULT (Some d) else ?i)"
    have j: "acl_consistent ops j" "i_mode j = i_mode ?i" "getacl ops j ACL_TYPE_ACCESS = None"
      unfolding j_def using c0 v set_default [of ?i "Some d"] new by (auto simp: store)
    have "S_ISDIR (i_mode ?i) \<longleftrightarrow> S_ISDIR (i_mode i)" using S_IS_cong(1) [OF k] by simp
    obtain ne acl m where s: "posix_acl_create_masq d (i_mode i) = Inr (ne, acl, m)" "posix_acl_valid acl = Inr ()"
      "m AND NOT (i_mode i) = 0" "m AND NOT S_IRWXUGO = i_mode i AND NOT S_IRWXUGO"
      "posix_acl_equiv_mode acl m = Inr (ne, m)"
      using create_masq_spec [OF v, of "i_mode i"] by blast
    have dir: "S_ISDIR m \<longleftrightarrow> S_ISDIR (i_mode j)" using S_IS_cong(1) [of m "i_mode j"] s(4) k j(2) by simp
    have cj: "acl_consistent ops (if ne then setacl ops (j\<lparr>i_mode := m\<rparr>) ACL_TYPE_ACCESS (Some acl) else j\<lparr>i_mode := m\<rparr>)"
      using j s(2,5) dir set_access [of "j\<lparr>i_mode := m\<rparr>" "Some acl"] by (auto simp: acl_consistent_def store)
    have "i' = ?i \<or> i' = j \<or> i' = (if ne then setacl ops (j\<lparr>i_mode := m\<rparr>) ACL_TYPE_ACCESS (Some acl) else j\<lparr>i_mode := m\<rparr>)"
      using run d s(1) by (auto simp: generic_acl_init_def Let_def posix_acl_clone_def j_def split: if_splits)
    then show ?thesis using cj j c0 um k s(3,4) by (auto simp: store split: if_splits)
  qed
qed

lemma generic_acl_chmod_consistent:
  assumes "\<And>acl. getacl ops i ACL_TYPE_ACCESS = Some acl \<Longrightarrow>
      posix_acl_valid acl = Inr () \<and> map_sum id fst (posix_acl_equiv_mode acl old) = Inr True"
    and "\<And>d. getacl ops i ACL_TYPE_DEFAULT = Some d \<Longrightarrow> posix_acl_valid d = Inr () \<and> S_ISDIR (i_mode i)"
    and "\<not> S_ISLNK (i_mode i)"
  shows "\<exists>i'. generic_acl_chmod True i ops = (Inr (), i') \<and> acl_consistent ops i' \<and> i_mode i' = i_mode i \<and>
    map_option acl_shape (getacl ops i' ACL_TYPE_ACCESS) = map_option acl_shape (getacl ops i ACL_TYPE_ACCESS)"
proof (cases "getacl ops i ACL_TYPE_ACCESS")
  case None
  then show ?thesis using assms by (simp add: generic_acl_chmod_def acl_consistent_def)
next
  case (Some acl)
  with assms(1) have v: "posix_acl_valid acl = Inr ()" and ne: "map_sum id fst (posix_acl_equiv_mode acl old) = Inr True" by simp_all
  obtain acl' n where s: "posix_acl_chmod_masq acl (i_mode i) = Inr acl'" "posix_acl_valid acl' = Inr ()"
    "acl_shape acl' = acl_shape acl" "named_entries acl' = named_entries acl"
    "\<forall>old. posix_acl_equiv_mode acl' old = Inr (n, (old AND NOT S_IRWXUGO) OR (i_mode i AND S_IRWXUGO))"
    "\<forall>old. map_sum id fst (posix_acl_equiv_mode acl old) = Inr n"
    by (rule chmod_masq_spec [OF v, of "i_mode i"]) (rule that, assumption+)
  have "n" using s(6) ne by simp
  moreover have "(i_mode i AND NOT S_IRWXUGO) OR (i_mode i AND S_IRWXUGO) = i_mode i"
    by (auto simp: bit_eq_iff bit_and_iff bit_or_iff bit_not_iff)
  ultimately have "posix_acl_equiv_mode acl' (i_mode i) = Inr (True, i_mode i)" using s(5) by simp
  then have "acl_consistent ops (setacl ops i ACL_TYPE_ACCESS (Some acl'))"
    using assms(2) s(2) by (intro set_access) auto
  then show ?thesis
    using Some assms(3) s(1,3) by (simp add: generic_acl_chmod_def posix_acl_clone_def store)
qed

end

interpretation shmem: acl_store shmem_acl_ops
  by unfold_locales (auto simp: shmem_acl_ops_def shmem_get_acl_def shmem_set_acl_def)

section \<open>Properties of ACLs on tmpfs\<close>

lemma shmem_acl_init_default:
  assumes "umask AND NOT S_IRWXUGO = 0" "acl_consistent shmem_acl_ops dir" "i_acl i = None" "i_default_acl i = None"
    and "\<not> S_ISLNK (i_mode i)"
  shows "fst (shmem_acl_init umask True True i dir) = Inr () \<and>
    i_default_acl (snd (shmem_acl_init umask True True i dir)) = (if S_ISDIR (i_mode i) then i_default_acl dir else None) \<and>
    (i_default_acl dir = None \<longrightarrow> i_mode (snd (shmem_acl_init umask True True i dir)) = i_mode i AND NOT umask)"
proof -
  have "(i_mode i AND NOT umask) AND NOT S_IRWXUGO = i_mode i AND NOT S_IRWXUGO"
    using assms(1) by (auto simp: bit_eq_iff bit_and_iff bit_not_iff)
  note m = S_IS_cong [OF this]
  show ?thesis
  proof (cases "i_default_acl dir")
    case None
    then show ?thesis
      using assms m by (simp add: shmem_acl_init_def generic_acl_init_def shmem_acl_ops_def shmem_get_acl_def)
  next
    case (Some d)
    then have "posix_acl_valid d = Inr ()"
      using assms(2) by (simp add: acl_consistent_def shmem_acl_ops_def shmem_get_acl_def)
    then obtain ne acl m' where "posix_acl_create_masq d (i_mode i) = Inr (ne, acl, m')"
      using create_masq_spec [of d "i_mode i"] by blast
    then show ?thesis
      using Some assms(3-5) m
      by (simp add: shmem_acl_init_def generic_acl_init_def shmem_acl_ops_def shmem_get_acl_def shmem_set_acl_def
          posix_acl_clone_def Let_def)
  qed
qed

text \<open>
  With memory at hand, the ACLs of a new tmpfs inode are set up without error: they agree with
  its mode, the mode has no permission that was not asked for and keeps its type, a directory
  inherits the default ACL of its parent, and without a default ACL the umask applies.
\<close>

theorem shmem_acl_init_correct:
  assumes "acl_consistent shmem_acl_ops dir" "umask AND NOT S_IRWXUGO = 0" "i_acl i = None" "i_default_acl i = None"
    and "\<not> S_ISLNK (i_mode i)" "shmem_acl_init umask True True i dir = (r, i')"
  shows "r = Inr () \<and> acl_consistent shmem_acl_ops i' \<and> i_mode i' AND NOT (i_mode i) = 0 \<and>
    i_mode i' AND NOT S_IRWXUGO = i_mode i AND NOT S_IRWXUGO \<and>
    i_default_acl i' = (if S_ISDIR (i_mode i) then i_default_acl dir else None) \<and>
    (i_default_acl dir = None \<longrightarrow> i_mode i' = i_mode i AND NOT umask)"
proof -
  have "getacl shmem_acl_ops i ACL_TYPE_ACCESS = None" "getacl shmem_acl_ops i ACL_TYPE_DEFAULT = None"
    using assms(3,4) by (simp_all add: shmem_acl_ops_def shmem_get_acl_def)
  from shmem.generic_acl_init_consistent [OF assms(1,2) this assms(6) [unfolded shmem_acl_init_def]]
  show ?thesis using shmem_acl_init_default [OF assms(2,1,3-5)] assms(6) by simp
qed

definition sample_dir :: inode where
  "sample_dir = sample_file\<lparr>i_mode := 0x41ED, i_default_acl := Some sample_acl\<rparr>"

theorem shmem_acl_init_correct_witness:
  "\<exists>i'. shmem_acl_init 0x12 True True sample_file sample_dir = (Inr (), i') \<and> i_default_acl i' = None \<and>
     acl_consistent shmem_acl_ops i'"
proof -
  obtain r i' where run: "shmem_acl_init 0x12 True True sample_file sample_dir = (r, i')" by fastforce
  have c: "acl_consistent shmem_acl_ops sample_dir"
    using sample_acl_valid
    by (simp add: acl_consistent_def shmem_acl_ops_def shmem_get_acl_def sample_dir_def sample_file_def S_ISDIR_def S_mode_defs)
  from shmem_acl_init_correct [OF c _ _ _ _ run] run show ?thesis
    by (simp add: sample_file_def S_bits S_ISLNK_def S_ISDIR_def S_mode_defs)
qed

lemma is_owner_or_cap_owner: "cr_fsuid (current_cred k) = i_uid i \<Longrightarrow> is_owner_or_cap kc i k = (True, k)"
  by (simp add: is_owner_or_cap_def or_else_def)

text \<open>
  The owner of a tmpfs file sets a valid ACL with named entries or a mask through its
  attribute and reads back the very same bytes; the mode takes the permission bits of the ACL.
\<close>

theorem shmem_acl_set_get:
  assumes "posix_acl_valid acl = Inr ()" "canonical_ids acl" "posix_acl_xattr_size (length acl) \<le> room"
    and "posix_acl_equiv_mode acl (i_mode i) = Inr (True, m)" "\<not> S_ISLNK (i_mode i)" "cr_fsuid (current_cred k) = i_uid i"
  shows "\<exists>bs i'. posix_acl_to_xattr acl (Some room) = (Inr (length bs), bs) \<and>
    shmem_set_acl_access kc True '''' (Some bs) i k = (Inr (), i', k) \<and>
    shmem_get_acl_access i' '''' (Some room) = (Inr (length bs), bs) \<and> i_mode i' = m"
proof -
  obtain bs where bs: "posix_acl_to_xattr acl (Some room) = (Inr (length bs), bs)" "posix_acl_from_xattr True (Some bs) = Inr (Some acl)"
    using xattr_round [OF assms(1-3)] by blast
  have "shmem_set_acl_access kc True '''' (Some bs) i k = (Inr (), i\<lparr>i_mode := m, i_acl := Some acl\<rparr>, k)"
    using assms bs(2) by (simp add: shmem_set_acl_access_def generic_acl_set_def is_owner_or_cap_owner shmem_acl_ops_def shmem_set_acl_def)
  moreover have "shmem_get_acl_access (i\<lparr>i_mode := m, i_acl := Some acl\<rparr>) '''' (Some room) = (Inr (length bs), bs)"
    using bs(1) by (simp add: shmem_get_acl_access_def generic_acl_get_def shmem_acl_ops_def shmem_get_acl_def)
  ultimately show ?thesis using bs(1) by (intro exI conjI) auto
qed

theorem shmem_acl_set_get_witness:
  "\<exists>bs i'. shmem_set_acl_access victory_config True '''' (Some bs) sample_file (running (user_cred 1000)) = (Inr (), i', running (user_cred 1000)) \<and>
     shmem_get_acl_access i' '''' (Some 64) = (Inr (length bs), bs)"
proof -
  obtain m where e: "posix_acl_equiv_mode sample_acl (i_mode sample_file) = Inr (True, m)"
    by (simp add: posix_acl_equiv_mode_def sample_acl_def ACL_tags)
  have "canonical_ids sample_acl" "posix_acl_xattr_size (length sample_acl) \<le> 64"
    by (simp_all add: canonical_ids_def sample_acl_def posix_acl_xattr_size_def)
  moreover have "\<not> S_ISLNK (i_mode sample_file)"
    by (simp add: sample_file_def S_ISLNK_def S_mode_defs)
  moreover have "cr_fsuid (current_cred (running (user_cred 1000))) = i_uid sample_file"
    by (simp add: sample_file_def running_def user_cred_def current_cred_def)
  ultimately show ?thesis
    using shmem_acl_set_get [OF sample_acl_valid _ _ e, where kc = victory_config] by blast
qed

end
