(* ===== verification/Inode_Access.thy ===== *)
theory Inode_Access
  imports Generic_Acl Commoncap
begin

text \<open>
  Access to inodes and changes of their attributes: the permission checks of fs/namei.c, the
  attribute changes of fs/attr.c with their callers in fs/open.c and mm/filemap.c, and the
  attribute callback of tmpfs (mm/shmem.c). This is where credentials, capabilities and ACLs meet.

  The callbacks of \<open>struct inode_operations\<close> that matter are fields of a record. What surrounds a
  call (clock, file size limit, outcomes of extended attribute callbacks and of allocations) is an
  \<open>fs_env\<close>; what it changes is an \<open>fs_ctx\<close>. The security and device-cgroup hooks of the board's
  configuration allow; page cache work and change notification are not modelled. A structure on
  the stack that the source fills only in part is an argument.
\<close>

section \<open>Surroundings of a call\<close>

record fs_env =
  jiffy_usecs :: u32
  kernel_time :: timespec
  fsize_limit :: u32
  xattr_caps_size :: "int option"
  xattr_caps_remove :: "unit ret option"
  acl_alloc :: bool

record fs_ctx =
  fc_kernel :: kernel
  fc_inode :: inode
  fc_sigxfsz :: bool

record inode_operations =
  op_permission :: "(inode \<Rightarrow> u32 \<Rightarrow> kernel \<Rightarrow> unit ret \<times> kernel) option"
  op_check_acl :: "(inode \<Rightarrow> u32 \<Rightarrow> kernel \<Rightarrow> unit ret) option"
  op_setattr :: "(fs_env \<Rightarrow> iattr \<Rightarrow> fs_ctx \<Rightarrow> unit ret \<times> fs_ctx) option"

section \<open>Permission checks\<close>

definition MAY_RWX :: u32 where "MAY_RWX = MAY_READ OR MAY_WRITE OR MAY_EXEC"

definition acl_permission_check ::
  "inode \<Rightarrow> u32 \<Rightarrow> (inode \<Rightarrow> u32 \<Rightarrow> kernel \<Rightarrow> unit ret) option \<Rightarrow> kernel \<Rightarrow> unit ret" where
  "acl_permission_check inode may check_acl k =
     (let mode = i_mode inode;
          may = may AND MAY_RWX;
          dac = (\<lambda>m. if may AND NOT (ucast (m :: u16)) = 0 then Inr () else Inl EACCES);
          grp = dac (if in_group_p (i_gid inode) k then drop_bit 3 mode else mode)
      in if cr_fsuid (current_cred k) = i_uid inode then dac (drop_bit 6 mode)
         else if IS_POSIXACL inode \<and> mode AND S_IRWXG \<noteq> 0
         then case check_acl of
                None \<Rightarrow> grp
              | Some f \<Rightarrow> (let error = f inode may k in if error \<noteq> Inl EAGAIN then error else grp)
         else grp)"

definition generic_permission ::
  "kconfig \<Rightarrow> inode \<Rightarrow> u32 \<Rightarrow> (inode \<Rightarrow> u32 \<Rightarrow> kernel \<Rightarrow> unit ret) option \<Rightarrow> kernel \<Rightarrow> unit ret \<times> kernel" where
  "generic_permission kc inode may check_acl k =
     (let ret = acl_permission_check inode may check_acl k
      in if ret \<noteq> Inl EACCES then (ret, k)
         else case (if may AND MAY_EXEC = 0 \<or> execute_ok inode then capable kc CAP_DAC_OVERRIDE k else (False, k)) of
           (True, k) \<Rightarrow> (Inr (), k)
         | (False, k) \<Rightarrow>
             (let may = may AND MAY_RWX
              in case (if may = MAY_READ \<or> S_ISDIR (i_mode inode) \<and> may AND MAY_WRITE = 0
                       then capable kc CAP_DAC_READ_SEARCH k else (False, k)) of
                   (True, k) \<Rightarrow> (Inr (), k)
                 | (False, k) \<Rightarrow> (Inl EACCES, k)))"

definition inode_permission :: "kconfig \<Rightarrow> inode_operations \<Rightarrow> inode \<Rightarrow> u32 \<Rightarrow> kernel \<Rightarrow> unit ret \<times> kernel" where
  "inode_permission kc ops inode may k =
     (let mode = i_mode inode
      in if may AND MAY_WRITE \<noteq> 0 \<and> IS_RDONLY inode \<and> (S_ISREG mode \<or> S_ISDIR mode \<or> S_ISLNK mode)
         then (Inl EROFS, k)
         else if may AND MAY_WRITE \<noteq> 0 \<and> IS_IMMUTABLE inode then (Inl EACCES, k)
         else case op_permission ops of
                Some f \<Rightarrow> f inode may k
              | None \<Rightarrow> generic_permission kc inode may (op_check_acl ops) k)"

section \<open>Attribute changes\<close>

text \<open>The C test \<open>attr->ia_valid & flags\<close>.\<close>

definition attr_sets :: "iattr \<Rightarrow> u32 \<Rightarrow> bool" where
  "attr_sets attr flags \<longleftrightarrow> ia_valid attr AND flags \<noteq> 0"

text \<open>Changes of owner and group that need CAP_CHOWN.\<close>

definition uid_change_foreign :: "inode \<Rightarrow> iattr \<Rightarrow> kernel \<Rightarrow> bool" where
  "uid_change_foreign inode attr k \<longleftrightarrow> attr_sets attr ATTR_UID \<and>
     (cr_fsuid (current_cred k) \<noteq> i_uid inode \<or> ia_uid attr \<noteq> i_uid inode)"

definition gid_change_foreign :: "inode \<Rightarrow> iattr \<Rightarrow> kernel \<Rightarrow> bool" where
  "gid_change_foreign inode attr k \<longleftrightarrow> attr_sets attr ATTR_GID \<and>
     (cr_fsuid (current_cred k) \<noteq> i_uid inode \<or>
      \<not> in_group_p (ia_gid attr) k \<and> ia_gid attr \<noteq> i_gid inode)"

text \<open>
  On success the result is the attribute structure, which may have lost a set-group-id bit. The
  steps for owner and group, for the mode and for the time stamps are named apart.
\<close>

definition owner_change_ok :: "kconfig \<Rightarrow> inode \<Rightarrow> iattr \<Rightarrow> unit kop" where
  "owner_change_ok kc inode attr =
     kbind (require (\<lambda>k. or_else (\<not> uid_change_foreign inode attr k) (capable kc CAP_CHOWN) k) EPERM) (\<lambda>_.
       require (\<lambda>k. or_else (\<not> gid_change_foreign inode attr k) (capable kc CAP_CHOWN) k) EPERM)"

definition mode_change_ok :: "kconfig \<Rightarrow> inode \<Rightarrow> iattr \<Rightarrow> iattr kop" where
  "mode_change_ok kc inode attr =
     (if attr_sets attr ATTR_MODE
      then kbind (require (is_owner_or_cap kc inode) EPERM) (\<lambda>_ k.
             case or_else (in_group_p (if attr_sets attr ATTR_GID then ia_gid attr else i_gid inode) k)
                    (capable kc CAP_FSETID) k of
               (member, k) \<Rightarrow>
                 (Inr (if member then attr else attr\<lparr>ia_mode := ia_mode attr AND NOT S_ISGID\<rparr>), k))
      else kreturn attr)"

definition time_change_ok :: "kconfig \<Rightarrow> inode \<Rightarrow> iattr \<Rightarrow> unit kop" where
  "time_change_ok kc inode attr =
     (if attr_sets attr (ATTR_MTIME_SET OR ATTR_ATIME_SET OR ATTR_TIMES_SET)
      then require (is_owner_or_cap kc inode) EPERM
      else kreturn ())"

definition inode_change_ok :: "kconfig \<Rightarrow> inode \<Rightarrow> iattr \<Rightarrow> iattr kop" where
  "inode_change_ok kc inode attr =
     (if attr_sets attr ATTR_FORCE then kreturn attr
      else kbind (owner_change_ok kc inode attr) (\<lambda>_.
           kbind (mode_change_ok kc inode attr) (\<lambda>attr.
           kbind (time_change_ok kc inode attr) (\<lambda>_.
           kreturn attr))))"

text \<open>\<open>RLIM_INFINITY\<close> is \<open>~0UL\<close>. The flag says that SIGXFSZ was sent.\<close>

definition inode_newsize_ok :: "fs_env \<Rightarrow> inode \<Rightarrow> int \<Rightarrow> unit ret \<times> bool" where
  "inode_newsize_ok env inode offset =
     (if i_size inode < offset
      then if fsize_limit env \<noteq> - 1 \<and> offset > uint (fsize_limit env) then (Inl EFBIG, True)
           else if offset > s_maxbytes (i_sb inode) then (Inl EFBIG, False)
           else (Inr (), False)
      else if IS_SWAPFILE inode then (Inl ETXTBSY, False)
      else (Inr (), False))"

definition vmtruncate :: "fs_env \<Rightarrow> int \<Rightarrow> fs_ctx \<Rightarrow> unit ret \<times> fs_ctx" where
  "vmtruncate env offset c =
     (case inode_newsize_ok env (fc_inode c) offset of
        (Inl e, sig) \<Rightarrow> (Inl e, c\<lparr>fc_sigxfsz := fc_sigxfsz c \<or> sig\<rparr>)
      | (Inr _, _) \<Rightarrow> (Inr (), c\<lparr>fc_inode := (fc_inode c)\<lparr>i_size := offset\<rparr>\<rparr>))"

definition setattr_fields :: "fs_env \<Rightarrow> iattr \<Rightarrow> inode \<Rightarrow> inode" where
  "setattr_fields env attr inode =
     (let trunc = (\<lambda>t. timespec_trunc (jiffy_usecs env) t (s_time_gran (i_sb inode)));
          inode = (if attr_sets attr ATTR_UID then inode\<lparr>i_uid := ia_uid attr\<rparr> else inode);
          inode = (if attr_sets attr ATTR_GID then inode\<lparr>i_gid := ia_gid attr\<rparr> else inode);
          inode = (if attr_sets attr ATTR_ATIME then inode\<lparr>i_atime := trunc (ia_atime attr)\<rparr> else inode);
          inode = (if attr_sets attr ATTR_MTIME then inode\<lparr>i_mtime := trunc (ia_mtime attr)\<rparr> else inode)
      in if attr_sets attr ATTR_CTIME then inode\<lparr>i_ctime := trunc (ia_ctime attr)\<rparr> else inode)"

definition inode_setattr :: "kconfig \<Rightarrow> fs_env \<Rightarrow> iattr \<Rightarrow> fs_ctx \<Rightarrow> unit ret \<times> fs_ctx" where
  "inode_setattr kc env attr c =
     (case (if attr_sets attr ATTR_SIZE \<and> ia_size attr \<noteq> i_size (fc_inode c)
            then vmtruncate env (ia_size attr) c else (Inr (), c)) of
        (Inl e, c) \<Rightarrow> (Inl e, c)
      | (Inr _, c) \<Rightarrow>
          (let inode = setattr_fields env attr (fc_inode c)
           in if attr_sets attr ATTR_MODE
              then case or_else (in_group_p (i_gid inode) (fc_kernel c)) (capable kc CAP_FSETID) (fc_kernel c) of
                     (ok, k) \<Rightarrow>
                       (Inr (), c\<lparr>fc_kernel := k,
                          fc_inode := inode\<lparr>i_mode := (if ok then ia_mode attr else ia_mode attr AND NOT S_ISGID)\<rparr>\<rparr>)
              else (Inr (), c\<lparr>fc_inode := inode\<rparr>)))"

text \<open>
  The local copy \<open>ia_valid\<close> of \<open>notify_change\<close> equals \<open>attr->ia_valid\<close> wherever it is read. The quota
  transfer always succeeds in the board's configuration.
\<close>

definition notify_kill_priv :: "kconfig \<Rightarrow> fs_env \<Rightarrow> iattr \<Rightarrow> unit ret \<times> iattr" where
  "notify_kill_priv kc env attr =
     (if attr_sets attr ATTR_KILL_PRIV
      then (let attr = attr\<lparr>ia_valid := ia_valid attr AND NOT ATTR_KILL_PRIV\<rparr>
            in if cap_inode_need_killpriv kc (xattr_caps_size env) > 0
               then (cap_inode_killpriv kc (xattr_caps_remove env), attr)
               else (Inr (), attr))
      else (Inr (), attr))"

definition notify_kill_sid :: "inode \<Rightarrow> iattr \<Rightarrow> iattr" where
  "notify_kill_sid inode attr =
     (let mode = i_mode inode;
          attr = (if attr_sets attr ATTR_KILL_SUID \<and> mode AND S_ISUID \<noteq> 0
                  then attr\<lparr>ia_valid := ia_valid attr OR ATTR_MODE, ia_mode := i_mode inode AND NOT S_ISUID\<rparr>
                  else attr)
      in if attr_sets attr ATTR_KILL_SGID \<and> mode AND (S_ISGID OR S_IXGRP) = (S_ISGID OR S_IXGRP)
         then (let attr = (if \<not> attr_sets attr ATTR_MODE
                           then attr\<lparr>ia_valid := ia_valid attr OR ATTR_MODE, ia_mode := i_mode inode\<rparr>
                           else attr)
               in attr\<lparr>ia_mode := ia_mode attr AND NOT S_ISGID\<rparr>)
         else attr)"

definition notify_setattr ::
  "kconfig \<Rightarrow> fs_env \<Rightarrow> inode_operations \<Rightarrow> iattr \<Rightarrow> fs_ctx \<Rightarrow> unit ret \<times> fs_ctx" where
  "notify_setattr kc env ops attr c =
     (case op_setattr ops of
        Some f \<Rightarrow> f env attr c
      | None \<Rightarrow>
          (case inode_change_ok kc (fc_inode c) attr (fc_kernel c) of
             (Inl e, k) \<Rightarrow> (Inl e, c\<lparr>fc_kernel := k\<rparr>)
           | (Inr attr, k) \<Rightarrow> inode_setattr kc env attr (c\<lparr>fc_kernel := k\<rparr>)))"

definition notify_change ::
  "kconfig \<Rightarrow> fs_env \<Rightarrow> inode_operations \<Rightarrow> iattr \<Rightarrow> fs_ctx \<Rightarrow> unit ret \<times> fs_ctx" where
  "notify_change kc env ops attr c =
     (let inode = fc_inode c
      in if attr_sets attr (ATTR_MODE OR ATTR_UID OR ATTR_GID OR ATTR_TIMES_SET) \<and>
            (IS_IMMUTABLE inode \<or> IS_APPEND inode)
         then (Inl EPERM, c)
         else
           (let now = current_fs_time (jiffy_usecs env) (kernel_time env) (i_sb inode);
                attr = attr\<lparr>ia_ctime := now\<rparr>;
                attr = (if \<not> attr_sets attr ATTR_ATIME_SET then attr\<lparr>ia_atime := now\<rparr> else attr);
                attr = (if \<not> attr_sets attr ATTR_MTIME_SET then attr\<lparr>ia_mtime := now\<rparr> else attr)
            in case notify_kill_priv kc env attr of
                 (Inl e, attr) \<Rightarrow> (Inl e, c)
               | (Inr _, attr) \<Rightarrow>
                   (let c = (if attr_sets attr (ATTR_KILL_SUID OR ATTR_KILL_SGID) \<and> attr_sets attr ATTR_MODE
                             then c\<lparr>fc_kernel := bug (fc_kernel c)\<rparr> else c);
                        attr = notify_kill_sid inode attr
                    in if \<not> attr_sets attr (NOT (ATTR_KILL_SUID OR ATTR_KILL_SGID)) then (Inr (), c)
                       else notify_setattr kc env ops attr c)))"

section \<open>Callers of notify_change\<close>

text \<open>The part of fchmod and fchmodat that runs with the inode locked.\<close>

definition chmod_locked :: "kconfig \<Rightarrow> fs_env \<Rightarrow> inode_operations \<Rightarrow> iattr \<Rightarrow> u16 \<Rightarrow> fs_ctx \<Rightarrow> unit ret \<times> fs_ctx" where
  "chmod_locked kc env ops newattrs mode c =
     (let mode = (if mode = - 1 then i_mode (fc_inode c) else mode)
      in notify_change kc env ops
           (newattrs\<lparr>ia_mode := (mode AND S_IALLUGO) OR (i_mode (fc_inode c) AND NOT S_IALLUGO),
                     ia_valid := ATTR_MODE OR ATTR_CTIME\<rparr>) c)"

definition chown_common ::
  "kconfig \<Rightarrow> fs_env \<Rightarrow> inode_operations \<Rightarrow> iattr \<Rightarrow> uid_t \<Rightarrow> gid_t \<Rightarrow> fs_ctx \<Rightarrow> unit ret \<times> fs_ctx" where
  "chown_common kc env ops newattrs user grp c =
     (let attr = newattrs\<lparr>ia_valid := ATTR_CTIME\<rparr>;
          attr = (if user \<noteq> - 1 then attr\<lparr>ia_valid := ia_valid attr OR ATTR_UID, ia_uid := user\<rparr> else attr);
          attr = (if grp \<noteq> - 1 then attr\<lparr>ia_valid := ia_valid attr OR ATTR_GID, ia_gid := grp\<rparr> else attr);
          attr = (if \<not> S_ISDIR (i_mode (fc_inode c))
                  then attr\<lparr>ia_valid := ia_valid attr OR ATTR_KILL_SUID OR ATTR_KILL_SGID OR ATTR_KILL_PRIV\<rparr>
                  else attr)
      in notify_change kc env ops attr c)"

definition should_remove_suid :: "kconfig \<Rightarrow> inode \<Rightarrow> kernel \<Rightarrow> u32 \<times> kernel" where
  "should_remove_suid kc inode k =
     (let mode = i_mode inode;
          kill = (if mode AND S_ISUID \<noteq> 0 then ATTR_KILL_SUID else 0);
          kill = (if mode AND S_ISGID \<noteq> 0 \<and> mode AND S_IXGRP \<noteq> 0 then kill OR ATTR_KILL_SGID else kill)
      in if kill \<noteq> 0
         then case capable kc CAP_FSETID k of
                (True, k) \<Rightarrow> (0, k)
              | (False, k) \<Rightarrow> (if S_ISREG mode then kill else 0, k)
         else (0, k))"

definition file_remove_suid ::
  "kconfig \<Rightarrow> fs_env \<Rightarrow> inode_operations \<Rightarrow> iattr \<Rightarrow> fs_ctx \<Rightarrow> unit ret \<times> fs_ctx" where
  "file_remove_suid kc env ops newattrs c =
     (case should_remove_suid kc (fc_inode c) (fc_kernel c) of
        (killsuid, k) \<Rightarrow>
          (let c = c\<lparr>fc_kernel := k\<rparr>;
               killpriv = cap_inode_need_killpriv kc (xattr_caps_size env)
           in case (if killpriv \<noteq> 0 then cap_inode_killpriv kc (xattr_caps_remove env) else Inr ()) of
                Inl e \<Rightarrow> (Inl e, c)
              | Inr _ \<Rightarrow>
                  if killsuid \<noteq> 0
                  then notify_change kc env ops (newattrs\<lparr>ia_valid := ATTR_FORCE OR killsuid\<rparr>) c
                  else (Inr (), c)))"

definition do_truncate ::
  "kconfig \<Rightarrow> fs_env \<Rightarrow> inode_operations \<Rightarrow> iattr \<Rightarrow> int \<Rightarrow> u32 \<Rightarrow> bool \<Rightarrow> fs_ctx \<Rightarrow> unit ret \<times> fs_ctx" where
  "do_truncate kc env ops newattrs len time_attrs filp c =
     (if len < 0 then (Inl EINVAL, c)
      else
        (let attr = newattrs\<lparr>ia_size := len, ia_valid := ATTR_SIZE OR time_attrs\<rparr>;
             attr = (if filp then attr\<lparr>ia_valid := ia_valid attr OR ATTR_FILE\<rparr> else attr)
         in case should_remove_suid kc (fc_inode c) (fc_kernel c) of
              (ret, k) \<Rightarrow>
                (let attr = (if ret \<noteq> 0 then attr\<lparr>ia_valid := ia_valid attr OR ret OR ATTR_FORCE\<rparr> else attr)
                 in notify_change kc env ops attr (c\<lparr>fc_kernel := k\<rparr>))))"

section \<open>The callbacks of tmpfs\<close>

text \<open>Holding the page at the new end of the file changes none of the modelled fields.\<close>

definition shmem_notify_change :: "kconfig \<Rightarrow> fs_env \<Rightarrow> iattr \<Rightarrow> fs_ctx \<Rightarrow> unit ret \<times> fs_ctx" where
  "shmem_notify_change kc env attr c =
     (case inode_change_ok kc (fc_inode c) attr (fc_kernel c) of
        (Inl e, k) \<Rightarrow> (Inl e, c\<lparr>fc_kernel := k\<rparr>)
      | (Inr attr, k) \<Rightarrow>
          (case inode_setattr kc env attr (c\<lparr>fc_kernel := k\<rparr>) of
             (Inl e, c) \<Rightarrow> (Inl e, c)
           | (Inr _, c) \<Rightarrow>
               if attr_sets attr ATTR_MODE
               then case generic_acl_chmod (acl_alloc env) (fc_inode c) shmem_acl_ops of
                      (r, inode) \<Rightarrow> (r, c\<lparr>fc_inode := inode\<rparr>)
               else (Inr (), c)))"

definition shmem_inode_operations :: "kconfig \<Rightarrow> inode_operations" where
  "shmem_inode_operations kc =
     \<lparr>op_permission = None, op_check_acl = Some shmem_check_acl, op_setattr = Some (shmem_notify_change kc)\<rparr>"

section \<open>What the permission check decides\<close>

lemma and_not_iff_perm_allows: "w AND NOT (ucast p) = 0 \<longleftrightarrow> perm_allows p w"
  unfolding perm_allows_def by (auto simp: bit_eq_iff bit_and_iff bit_not_iff)

lemma bit_MAY_RWX: "bit MAY_RWX n \<longleftrightarrow> n < 3"
proof -
  have "MAY_RWX = mask 3"
    by (simp add: MAY_RWX_def MAY_READ_def MAY_WRITE_def MAY_EXEC_def mask_eq_exp_minus_1)
  then have "bit MAY_RWX n \<longleftrightarrow> bit (mask 3 :: u32) n" by (rule arg_cong)
  also have "\<dots> \<longleftrightarrow> n < 3" unfolding bit_mask_iff by auto
  finally show ?thesis .
qed

text \<open>Only the low three bits of a permission word matter.\<close>

lemma perm_allows_cong:
  assumes "\<And>n. n < 3 \<Longrightarrow> bit p n \<longleftrightarrow> bit q n"
  shows "perm_allows p (w AND MAY_RWX) \<longleftrightarrow> perm_allows q (w AND MAY_RWX)"
  using assms unfolding perm_allows_def by (auto simp: bit_eq_iff bit_and_iff bit_MAY_RWX bit_ucast_iff)

definition mode_grants :: "kernel \<Rightarrow> inode \<Rightarrow> u32 \<Rightarrow> bool" where
  "mode_grants k i want \<longleftrightarrow> perm_allows
     (if i_uid i = cr_fsuid (current_cred k) then drop_bit 6 (i_mode i)
      else if in_group_p (i_gid i) k then drop_bit 3 (i_mode i) else i_mode i) want"

definition inode_grants :: "kernel \<Rightarrow> inode \<Rightarrow> u32 \<Rightarrow> bool" where
  "inode_grants k i want =
     (case i_acl i of None \<Rightarrow> mode_grants k i want | Some acl \<Rightarrow> acl_grants k (i_uid i) (i_gid i) acl want)"

text \<open>Capabilities that override a refusal.\<close>

definition dac_override :: "kconfig \<Rightarrow> kernel \<Rightarrow> inode \<Rightarrow> u32 \<Rightarrow> bool" where
  "dac_override kc k i may \<longleftrightarrow>
     (may AND MAY_EXEC = 0 \<or> execute_ok i) \<and> cap_capable kc k (current_cred k) CAP_DAC_OVERRIDE \<or>
     (may AND MAY_RWX = MAY_READ \<or> S_ISDIR (i_mode i) \<and> may AND MAY_RWX AND MAY_WRITE = 0) \<and>
       cap_capable kc k (current_cred k) CAP_DAC_READ_SEARCH"

lemma acl_permission_check_mode:
  assumes "i_acl i = None"
  shows "acl_permission_check i may (Some shmem_check_acl) k = (if mode_grants k i (may AND MAY_RWX) then Inr () else Inl EACCES)"
  using assms unfolding acl_permission_check_def mode_grants_def
  by (simp add: Let_def and_not_iff_perm_allows shmem_check_acl_def shmem_get_acl_def)

text \<open>The owner's bits of the mode are the owner's entry of the ACL.\<close>

lemma owner_bits:
  assumes "acl_parts uo us go gs ms ot acl" "posix_acl_equiv_mode acl m = Inr (ne, m)" "n < 3"
  shows "bit (drop_bit 6 m) n \<longleftrightarrow> bit (e_perm uo) n"
proof -
  note pt = acl_partsD [OF assms(1)]
  have ge: "perm_ok (class_entry go ms)" using pt(8,10) by (auto simp: class_entry_def)
  have "m = (m AND NOT S_IRWXUGO) OR acl_mode uo (class_entry go ms) ot"
    using assms(2) equiv_mode_parts [OF assms(1), of m] by simp
  then have "bit m (6 + n) \<longleftrightarrow> bit ((m AND NOT S_IRWXUGO) OR acl_mode uo (class_entry go ms) ot) (6 + n)" by simp
  also have "\<dots> \<longleftrightarrow> bit (e_perm uo) n"
    using ge pt(9) assms(3) unfolding acl_mode_def perm_ok_bits by (auto simp: mode_bits)
  finally show ?thesis by (simp add: bit_drop_bit_eq)
qed

lemma acl_grants_owner:
  assumes "acl_parts uo us go gs ms ot acl" "u = cr_fsuid (current_cred k)"
  shows "acl_grants k u g acl want \<longleftrightarrow> perm_allows (e_perm uo) want"
proof -
  note pt = acl_partsD [OF assms(1)]
  have "(\<exists>e \<in> set acl. e_tag e = ACL_USER_OBJ \<and> perm_allows (e_perm e) want) \<longleftrightarrow> perm_allows (e_perm uo) want"
    using pt(2-6,10) unfolding pt(1) by auto
  then show ?thesis using assms(2) by (simp add: acl_grants_def)
qed

lemma acl_permission_check_acl:
  assumes "i_acl i = Some acl" "acl_consistent shmem_acl_ops i" "IS_POSIXACL i" "i_mode i AND S_IRWXG \<noteq> 0"
  shows "acl_permission_check i may (Some shmem_check_acl) k =
    (if acl_grants k (i_uid i) (i_gid i) acl (may AND MAY_RWX) then Inr () else Inl EACCES)"
proof -
  have v: "posix_acl_valid acl = Inr ()" "posix_acl_equiv_mode acl (i_mode i) = Inr (True, i_mode i)"
    using assms(1,2) by (auto simp: acl_consistent_def shmem_acl_ops_def shmem_get_acl_def)
  then obtain uo us go gs ms ot where p: "acl_parts uo us go gs ms ot acl"
    by (elim acl_validE)
  have wf: "acl_wf acl" using v(1) by (simp add: posix_acl_valid_iff)
  show ?thesis
  proof (cases "cr_fsuid (current_cred k) = i_uid i")
    case True
    then have "acl_grants k (i_uid i) (i_gid i) acl (may AND MAY_RWX) \<longleftrightarrow> perm_allows (drop_bit 6 (i_mode i)) (may AND MAY_RWX)"
      using acl_grants_owner [OF p True [symmetric]] perm_allows_cong [OF owner_bits [OF p v(2)]] by simp
    then show ?thesis using True by (simp add: acl_permission_check_def Let_def and_not_iff_perm_allows)
  next
    case False
    then show ?thesis
      using assms(1,3,4) posix_acl_permission_eq [OF wf]
      by (simp add: acl_permission_check_def Let_def shmem_check_acl_def shmem_get_acl_def)
  qed
qed

lemma generic_permission_eq:
  assumes "acl_permission_check i may ca k = (if g then Inr () else Inl EACCES)"
  shows "fst (generic_permission kc i may ca k) = (if g \<or> dac_override kc k i may then Inr () else Inl EACCES)"
  using assms
  by (auto simp: generic_permission_def dac_override_def capable_def cap_valid_def CAP_LAST_CAP_def
      CAP_DAC_OVERRIDE_def CAP_DAC_READ_SEARCH_def Let_def and.assoc split: if_splits)


text \<open>A file with an ACL: user 2000 may read and execute it through a named entry cut by the mask.\<close>

definition sample_acl_file :: inode where
  "sample_acl_file = sample_file\<lparr>i_mode := 0x81E8, i_uid := 1001, i_acl := Some sample_acl\<rparr>"

lemma sample_acl_file_ok:
  "acl_consistent shmem_acl_ops sample_acl_file" "IS_POSIXACL sample_acl_file" "i_mode sample_acl_file AND S_IRWXG \<noteq> 0"
  "\<not> IS_RDONLY sample_acl_file" "\<not> IS_IMMUTABLE sample_acl_file"
proof -
  have "posix_acl_equiv_mode sample_acl 0x81E8 = Inr (True, 0x81E8)"
    by (simp add: posix_acl_equiv_mode_def sample_acl_def ACL_tags S_bits)
  then show "acl_consistent shmem_acl_ops sample_acl_file"
    using sample_acl_valid
    by (simp add: acl_consistent_def shmem_acl_ops_def shmem_get_acl_def sample_acl_file_def sample_file_def)
qed (simp_all add: sample_acl_file_def sample_file_def IS_POSIXACL_def IS_RDONLY_def IS_IMMUTABLE_def MS_POSIXACL_def
    MS_RDONLY_def S_bits)


definition masked_acl :: posix_acl where
  "masked_acl =
     [\<lparr>e_tag = ACL_USER_OBJ, e_perm = 7, e_id = ACL_UNDEFINED_ID\<rparr>, \<lparr>e_tag = ACL_USER, e_perm = 7, e_id = 2000\<rparr>,
      \<lparr>e_tag = ACL_GROUP_OBJ, e_perm = 5, e_id = ACL_UNDEFINED_ID\<rparr>, \<lparr>e_tag = ACL_MASK, e_perm = 0, e_id = ACL_UNDEFINED_ID\<rparr>,
      \<lparr>e_tag = ACL_OTHER, e_perm = 4, e_id = ACL_UNDEFINED_ID\<rparr>]"

definition masked_file :: inode where
  "masked_file = sample_file\<lparr>i_mode := 0x81C4, i_uid := 1001, i_acl := Some masked_acl\<rparr>"

text \<open>
  A permission check skips an ACL whose mask is empty: user 2000, whom a consistent ACL names
  and denies reading through the empty mask, is granted reading with the permissions of others.
\<close>

theorem empty_mask_skips_acl:
  "acl_consistent shmem_acl_ops masked_file \<and>
   posix_acl_permission (running (user_cred 2000)) (i_uid masked_file) (i_gid masked_file) masked_acl MAY_READ = Inl EACCES \<and>
   fst (inode_permission victory_config (shmem_inode_operations victory_config) masked_file MAY_READ (running (user_cred 2000))) = Inr ()"
proof (intro conjI)
  have "posix_acl_valid masked_acl = Inr ()" by code_simp
  moreover have "posix_acl_equiv_mode masked_acl 0x81C4 = Inr (True, 0x81C4)"
    by (simp add: posix_acl_equiv_mode_def masked_acl_def ACL_tags S_bits)
  ultimately show "acl_consistent shmem_acl_ops masked_file"
    by (simp add: acl_consistent_def shmem_acl_ops_def shmem_get_acl_def masked_file_def sample_file_def)
qed code_simp+

text \<open>
  The two representations of plain permissions agree: the ACL made from the mode of an inode
  grants exactly what the mode bits grant.
\<close>

theorem from_mode_grants_mode:
  "\<exists>acl. posix_acl_from_mode True (i_mode i) = Inr acl \<and>
     posix_acl_permission k (i_uid i) (i_gid i) acl (may AND MAY_RWX) =
       (if mode_grants k i (may AND MAY_RWX) then Inr () else Inl EACCES)"
proof -
  let ?m = "i_mode i"
  have b: "\<And>n. n < 3 \<Longrightarrow> bit (drop_bit 6 (?m AND S_IRWXU)) n = bit (drop_bit 6 ?m) n"
    "\<And>n. n < 3 \<Longrightarrow> bit (drop_bit 3 (?m AND S_IRWXG)) n = bit (drop_bit 3 ?m) n"
    "\<And>n. n < 3 \<Longrightarrow> bit (?m AND S_IRWXO) n = bit ?m n"
    by (auto simp: bit_drop_bit_eq bit_and_iff bit_S)
  show ?thesis
    using perm_allows_cong [OF b(1)] perm_allows_cong [OF b(2)] perm_allows_cong [OF b(3)]
    by (simp del: drop_bit_and add: posix_acl_from_mode_def posix_acl_permission_def mode_grants_def)
qed

section \<open>What attribute changes do\<close>

definition has_cap :: "kconfig \<Rightarrow> kernel \<Rightarrow> nat \<Rightarrow> bool" where
  "has_cap kc k cap = cap_capable kc k (current_cred k) cap"

text \<open>A successful test of a capability marks the task.\<close>

definition mark :: "bool \<Rightarrow> kernel \<Rightarrow> kernel" where
  "mark b k = (if b then k\<lparr>current := (current k)\<lparr>pf_superpriv := True\<rparr>\<rparr> else k)"

lemma capable_mark: "cap_valid cap \<Longrightarrow> capable kc cap k = (has_cap kc k cap, mark (has_cap kc k cap) k)"
  by (simp add: capable_def has_cap_def mark_def)

lemma mark_simps [simp]:
  "current_cred (mark b k) = current_cred k" "in_group_p g (mark b k) = in_group_p g k"
  "has_cap kc (mark b k) cap = has_cap kc k cap" "mark b (mark b' k) = mark (b \<or> b') k" "mark False k = k"
  "bug_hit (current (mark b k)) = bug_hit (current k)"
proof -
  show c: "current_cred (mark b k) = current_cred k" by (simp add: mark_def current_cred_def split: option.splits)
  show "in_group_p g (mark b k) = in_group_p g k" by (simp add: in_group_p_def c)
  show "has_cap kc (mark b k) cap = has_cap kc k cap" by (simp add: has_cap_def cap_capable_def in_egroup_p_def c)
qed (simp_all add: mark_def)

lemma or_else_mark:
  "cap_valid cap \<Longrightarrow> or_else b (capable kc cap) k = (b \<or> has_cap kc k cap, mark (\<not> b \<and> has_cap kc k cap) k)"
  by (simp add: or_else_def capable_mark)

lemma is_owner_or_cap_mark:
  "is_owner_or_cap kc i k =
     (cr_fsuid (current_cred k) = i_uid i \<or> has_cap kc k CAP_FOWNER,
      mark (cr_fsuid (current_cred k) \<noteq> i_uid i \<and> has_cap kc k CAP_FOWNER) k)"
  by (simp add: is_owner_or_cap_def or_else_mark)

abbreviation owns :: "kernel \<Rightarrow> inode \<Rightarrow> bool" where
  "owns k i \<equiv> cr_fsuid (current_cred k) = i_uid i"

definition change_allowed :: "kconfig \<Rightarrow> kernel \<Rightarrow> inode \<Rightarrow> iattr \<Rightarrow> bool" where
  "change_allowed kc k i a \<longleftrightarrow> attr_sets a ATTR_FORCE \<or>
     (attr_sets a ATTR_UID \<longrightarrow> owns k i \<and> ia_uid a = i_uid i \<or> has_cap kc k CAP_CHOWN) \<and>
     (attr_sets a ATTR_GID \<longrightarrow> owns k i \<and> (in_group_p (ia_gid a) k \<or> ia_gid a = i_gid i) \<or> has_cap kc k CAP_CHOWN) \<and>
     (attr_sets a ATTR_MODE \<or> attr_sets a (ATTR_MTIME_SET OR ATTR_ATIME_SET OR ATTR_TIMES_SET) \<longrightarrow>
        owns k i \<or> has_cap kc k CAP_FOWNER)"

text \<open>The group that decides on the set-group-id bit is the new one.\<close>

definition change_attr :: "kconfig \<Rightarrow> kernel \<Rightarrow> inode \<Rightarrow> iattr \<Rightarrow> iattr" where
  "change_attr kc k i a =
     (if \<not> attr_sets a ATTR_FORCE \<and> attr_sets a ATTR_MODE \<and>
         \<not> in_group_p (if attr_sets a ATTR_GID then ia_gid a else i_gid i) k \<and> \<not> has_cap kc k CAP_FSETID
      then a\<lparr>ia_mode := ia_mode a AND NOT S_ISGID\<rparr> else a)"

definition marked :: "kernel \<Rightarrow> kernel \<Rightarrow> bool" where
  "marked k k' \<longleftrightarrow> (\<exists>b. k' = mark b k)"

lemma markedI [simp]: "marked k k" "marked k (mark b k)"
  unfolding marked_def by (metis mark_simps(5)) blast

lemma marked_trans: "marked a b \<Longrightarrow> marked b c \<Longrightarrow> marked a c"
  unfolding marked_def by auto

lemma attr_sets_ia_mode [simp]: "attr_sets (a\<lparr>ia_mode := m\<rparr>) f = attr_sets a f"
  by (simp add: attr_sets_def)

lemma foreign_mark [simp]:
  "uid_change_foreign i a (mark b k) = uid_change_foreign i a k"
  "gid_change_foreign i a (mark b k) = gid_change_foreign i a k"
  by (simp_all add: uid_change_foreign_def gid_change_foreign_def)

lemma require_or_else_mark:
  "cap_valid cap \<Longrightarrow> require (\<lambda>k. or_else (p k) (capable kc cap) k) e k =
     (if p k \<or> has_cap kc k cap then Inr () else Inl e, mark (\<not> p k \<and> has_cap kc k cap) k)"
  by (simp add: require_def or_else_mark split: bool.split)

lemma require_owner_mark:
  "require (is_owner_or_cap kc i) e k =
     (if owns k i \<or> has_cap kc k CAP_FOWNER then Inr () else Inl e, mark (\<not> owns k i \<and> has_cap kc k CAP_FOWNER) k)"
  by (simp add: require_def is_owner_or_cap_mark split: bool.split)

lemma markedD:
  assumes "marked k k'"
  shows "current_cred k' = current_cred k" "in_group_p g k' = in_group_p g k" "has_cap kc k' cap = has_cap kc k cap"
    "bug_hit (current k') = bug_hit (current k)"
  using assms by (auto simp: marked_def)

lemma owner_change_ok_eq:
  assumes "owner_change_ok kc i a k = (r, k')"
  shows "r = (if (uid_change_foreign i a k \<or> gid_change_foreign i a k) \<and> \<not> has_cap kc k CAP_CHOWN then Inl EPERM else Inr ())"
    "marked k k'"
  using assms by (auto simp: owner_change_ok_def kbind_def require_or_else_mark split: if_splits)

lemma mode_change_ok_eq:
  assumes "mode_change_ok kc i a k = (r, k')"
  shows "r = (if attr_sets a ATTR_MODE \<and> \<not> owns k i \<and> \<not> has_cap kc k CAP_FOWNER then Inl EPERM
      else Inr (if attr_sets a ATTR_MODE \<and> \<not> in_group_p (if attr_sets a ATTR_GID then ia_gid a else i_gid i) k \<and>
                   \<not> has_cap kc k CAP_FSETID
                then a\<lparr>ia_mode := ia_mode a AND NOT S_ISGID\<rparr> else a))" "marked k k'"
proof -
  define g where "g = (if attr_sets a ATTR_GID then ia_gid a else i_gid i)"
  show "r = (if attr_sets a ATTR_MODE \<and> \<not> owns k i \<and> \<not> has_cap kc k CAP_FOWNER then Inl EPERM
      else Inr (if attr_sets a ATTR_MODE \<and> \<not> in_group_p (if attr_sets a ATTR_GID then ia_gid a else i_gid i) k \<and>
                   \<not> has_cap kc k CAP_FSETID
                then a\<lparr>ia_mode := ia_mode a AND NOT S_ISGID\<rparr> else a))" "marked k k'"
    using assms unfolding mode_change_ok_def g_def [symmetric]
    by (auto simp: kbind_def require_owner_mark or_else_mark kreturn_def split: if_splits)
qed

lemma time_change_ok_eq:
  assumes "time_change_ok kc i a k = (r, k')"
  shows "r = (if attr_sets a (ATTR_MTIME_SET OR ATTR_ATIME_SET OR ATTR_TIMES_SET) \<and> \<not> owns k i \<and> \<not> has_cap kc k CAP_FOWNER
      then Inl EPERM else Inr ())" "marked k k'"
  using assms by (auto simp: time_change_ok_def require_owner_mark kreturn_def split: if_splits)

lemma inode_change_ok_eq:
  assumes "inode_change_ok kc i a k = (r, k')"
  shows "r = (if change_allowed kc k i a then Inr (change_attr kc k i a) else Inl EPERM) \<and> marked k k'"
proof (cases "attr_sets a ATTR_FORCE")
  case True
  then show ?thesis
    using assms by (auto simp: inode_change_ok_def change_allowed_def change_attr_def kreturn_def)
next
  case False
  let ?own = "owns k i \<or> has_cap kc k CAP_FOWNER" and ?a = "change_attr kc k i a"
  obtain r1 k1 where s1: "owner_change_ok kc i a k = (r1, k1)" by fastforce
  obtain r2 k2 where s2: "mode_change_ok kc i a k1 = (r2, k2)" by fastforce
  obtain r3 k3 where s3: "time_change_ok kc i ?a k2 = (r3, k3)" by fastforce
  note e1 = owner_change_ok_eq [OF s1]
  have e2: "r2 = (if attr_sets a ATTR_MODE \<and> \<not> ?own then Inl EPERM else Inr ?a)"
    using mode_change_ok_eq(1) [OF s2] False unfolding markedD [OF e1(2)] change_attr_def by simp
  have m2: "marked k k2" by (rule marked_trans [OF e1(2) mode_change_ok_eq(2) [OF s2]])
  have e3: "r3 = (if attr_sets a (ATTR_MTIME_SET OR ATTR_ATIME_SET OR ATTR_TIMES_SET) \<and> \<not> ?own then Inl EPERM else Inr ())"
    using time_change_ok_eq(1) [OF s3] unfolding markedD [OF m2] change_attr_def by simp
  have m3: "marked k k3" by (rule marked_trans [OF m2 time_change_ok_eq(2) [OF s3]])
  have allowed: "change_allowed kc k i a \<longleftrightarrow> \<not> ((uid_change_foreign i a k \<or> gid_change_foreign i a k) \<and> \<not> has_cap kc k CAP_CHOWN) \<and>
      \<not> (attr_sets a ATTR_MODE \<and> \<not> ?own) \<and> \<not> (attr_sets a (ATTR_MTIME_SET OR ATTR_ATIME_SET OR ATTR_TIMES_SET) \<and> \<not> ?own)"
    using False by (auto simp: change_allowed_def uid_change_foreign_def gid_change_foreign_def)
  have run: "(r, k') = (case r1 of Inl e \<Rightarrow> (Inl e, k1) | Inr _ \<Rightarrow> (case r2 of Inl e \<Rightarrow> (Inl e, k2) | Inr _ \<Rightarrow>
      (case r3 of Inl e \<Rightarrow> (Inl e, k3) | Inr _ \<Rightarrow> (Inr ?a, k3))))"
    using assms False s1 s2 s3 e2
    by (cases r1; cases r2; cases r3) (auto simp: inode_change_ok_def kbind_def kreturn_def split: if_splits)
  show ?thesis
    using run e1 m2 m3 unfolding allowed e2 e3 by (auto split: if_splits)
qed

text \<open>
  C39. An attribute change is refused with EPERM exactly when it gives the file away or to a group
  the caller is not in without CAP_CHOWN, or sets the mode or time stamps without being the owner
  or having CAP_FOWNER; if allowed, the attributes pass unchanged but for the set-group-id
  bit, which is lost for a caller outside the file's new group without CAP_FSETID.
\<close>

theorem inode_change_ok_exact:
  "fst (inode_change_ok kc i a k) =
     (if change_allowed kc k i a then Inr (change_attr kc k i a) else Inl EPERM)"
  using inode_change_ok_eq [of kc i a k "fst (inode_change_ok kc i a k)" "snd (inode_change_ok kc i a k)"] by simp

lemma attr_sets_updates [simp]:
  "attr_sets (a\<lparr>ia_ctime := t\<rparr>) f = attr_sets a f" "attr_sets (a\<lparr>ia_atime := t\<rparr>) f = attr_sets a f"
  "attr_sets (a\<lparr>ia_mtime := t\<rparr>) f = attr_sets a f" "attr_sets (a\<lparr>ia_uid := u\<rparr>) f = attr_sets a f"
  "attr_sets (a\<lparr>ia_gid := g\<rparr>) f = attr_sets a f" "attr_sets (a\<lparr>ia_size := s\<rparr>) f = attr_sets a f"
  "attr_sets (a\<lparr>ia_valid := v\<rparr>) f = (v AND f \<noteq> 0)"
  by (simp_all add: attr_sets_def)

lemma attr_sets_change_attr [simp]: "attr_sets (change_attr kc k i a) f = attr_sets a f"
  by (simp add: change_attr_def)

lemma change_attr_fields [simp]:
  "ia_uid (change_attr kc k i a) = ia_uid a" "ia_gid (change_attr kc k i a) = ia_gid a" "ia_size (change_attr kc k i a) = ia_size a"
  by (simp_all add: change_attr_def)

lemma vmtruncate_cases:
  assumes "vmtruncate env n c = (r, c')"
  shows "(\<exists>e. r = Inl e) \<and> fc_inode c' = fc_inode c \<and> fc_kernel c' = fc_kernel c \<or>
    r = Inr () \<and> c' = c\<lparr>fc_inode := (fc_inode c)\<lparr>i_size := n\<rparr>\<rparr>"
  using assms by (auto simp: vmtruncate_def split: prod.splits sum.splits)

lemmas if_inode = if_distrib [of i_uid] if_distrib [of i_gid] if_distrib [of i_mode] if_distrib [of i_acl]
  if_distrib [of i_default_acl] if_distrib [of i_flags] if_distrib [of i_sb] if_distrib [of i_size]

lemma setattr_fields_simps [simp]:
  "i_uid (setattr_fields env a i) = (if attr_sets a ATTR_UID then ia_uid a else i_uid i)"
  "i_gid (setattr_fields env a i) = (if attr_sets a ATTR_GID then ia_gid a else i_gid i)"
  "i_mode (setattr_fields env a i) = i_mode i" "i_size (setattr_fields env a i) = i_size i"
  "i_acl (setattr_fields env a i) = i_acl i" "i_default_acl (setattr_fields env a i) = i_default_acl i"
  "i_flags (setattr_fields env a i) = i_flags i" "i_sb (setattr_fields env a i) = i_sb i"
  by (simp_all add: setattr_fields_def Let_def if_inode)

text \<open>What the attributes make of an inode; the time stamps aside.\<close>

lemma inode_setattr_eq:
  assumes "inode_setattr kc env a c = (r, c')"
  defines "i \<equiv> fc_inode c" and "i' \<equiv> fc_inode c'"
  shows "(\<exists>e. r = Inl e) \<and> i' = i \<and> fc_kernel c' = fc_kernel c \<or>
    r = Inr () \<and> marked (fc_kernel c) (fc_kernel c') \<and>
    i_uid i' = (if attr_sets a ATTR_UID then ia_uid a else i_uid i) \<and>
    i_gid i' = (if attr_sets a ATTR_GID then ia_gid a else i_gid i) \<and>
    i_mode i' = (if attr_sets a ATTR_MODE
      then if in_group_p (i_gid i') (fc_kernel c) \<or> has_cap kc (fc_kernel c) CAP_FSETID then ia_mode a else ia_mode a AND NOT S_ISGID
      else i_mode i) \<and>
    i_acl i' = i_acl i \<and> i_default_acl i' = i_default_acl i \<and> i_flags i' = i_flags i \<and> i_sb i' = i_sb i"
proof -
  obtain r0 c0 where s: "(if attr_sets a ATTR_SIZE \<and> ia_size a \<noteq> i_size (fc_inode c) then vmtruncate env (ia_size a) c else (Inr (), c)) = (r0, c0)"
    by fastforce
  have "(\<exists>e. r0 = Inl e) \<and> fc_inode c0 = i \<and> fc_kernel c0 = fc_kernel c \<or>
      r0 = Inr () \<and> fc_kernel c0 = fc_kernel c \<and> (\<exists>n. fc_inode c0 = i\<lparr>i_size := n\<rparr>)"
  proof (cases "attr_sets a ATTR_SIZE \<and> ia_size a \<noteq> i_size (fc_inode c)")
    case True
    then show ?thesis using s vmtruncate_cases [of env "ia_size a" c r0 c0] by (auto simp: i_def)
  next
    case False
    then have "r0 = Inr ()" "c0 = c" using s by (auto split: if_splits)
    moreover have "i = i\<lparr>i_size := i_size i\<rparr>" by simp
    ultimately show ?thesis unfolding i_def by blast
  qed
  then consider e where "r0 = Inl e" "fc_inode c0 = i" "fc_kernel c0 = fc_kernel c"
    | n where "r0 = Inr ()" "fc_inode c0 = i\<lparr>i_size := n\<rparr>" "fc_kernel c0 = fc_kernel c" by blast
  then show ?thesis
  proof cases
    case 1
    then show ?thesis using assms(1) by (auto simp: inode_setattr_def s i'_def)
  next
    case (2 n)
    define j where "j = setattr_fields env a (fc_inode c0)"
    define ok where "ok \<longleftrightarrow> in_group_p (i_gid j) (fc_kernel c) \<or> has_cap kc (fc_kernel c) CAP_FSETID"
    have "inode_setattr kc env a c = (if attr_sets a ATTR_MODE
        then (Inr (), c0\<lparr>fc_kernel := mark (\<not> in_group_p (i_gid j) (fc_kernel c) \<and> has_cap kc (fc_kernel c) CAP_FSETID) (fc_kernel c),
               fc_inode := j\<lparr>i_mode := (if ok then ia_mode a else ia_mode a AND NOT S_ISGID)\<rparr>\<rparr>)
        else (Inr (), c0\<lparr>fc_inode := j\<rparr>))"
      unfolding inode_setattr_def s 2(1,3) prod.case sum.case Let_def j_def [symmetric] or_else_mark [OF CAP_valid(8)] ok_def
      by (rule refl)
    note run = assms(1) [unfolded this]
    have j: "i_uid j = (if attr_sets a ATTR_UID then ia_uid a else i_uid i)" "i_gid j = (if attr_sets a ATTR_GID then ia_gid a else i_gid i)"
      "i_mode j = i_mode i" "i_acl j = i_acl i" "i_default_acl j = i_default_acl i" "i_flags j = i_flags i" "i_sb j = i_sb i"
      unfolding j_def 2(2) by simp_all
    show ?thesis
    proof (cases "attr_sets a ATTR_MODE")
      case True
      then have "i' = j\<lparr>i_mode := (if ok then ia_mode a else ia_mode a AND NOT S_ISGID)\<rparr>" "r = Inr ()" "marked (fc_kernel c) (fc_kernel c')"
        using run by (auto simp: i'_def)
      then show ?thesis using True j ok_def by (simp del: if_split)
    next
      case False
      then have "i' = j" "r = Inr ()" "fc_kernel c' = fc_kernel c" using run 2(3) by (auto simp: i'_def)
      then show ?thesis using False j by (simp del: if_split)
    qed
  qed
qed

end
