(* ===== verification/Tmpfs_Files.thy ===== *)
theory Tmpfs_Files
  imports Inode_Access
begin

text \<open>
  Sequences of calls on one tmpfs file: setting ACLs, chmod, chown, truncation and the removal of
  set-id bits on a write, as the callers in fs/open.c, mm/filemap.c and mm/shmem_acl.c make them. A
  call list is run by \<open>run_fs_calls\<close>; the lemmas follow one call through \<open>notify_change\<close>, and the
  theorems are about every list: ACLs and mode bits stay consistent, and an unprivileged caller
  stays confined.
\<close>

section \<open>ACLs stay consistent on tmpfs\<close>

lemma S_IS_type:
  assumes "m AND S_IFMT = m' AND S_IFMT"
  shows "S_ISDIR m \<longleftrightarrow> S_ISDIR m'" "S_ISLNK m \<longleftrightarrow> S_ISLNK m'" "S_ISREG m \<longleftrightarrow> S_ISREG m'"
  using assms by (simp_all add: S_ISDIR_def S_ISLNK_def S_ISREG_def)

lemma sgid_type: "(m AND NOT S_ISGID) AND S_IFMT = m AND S_IFMT" "(m AND NOT S_ISUID) AND S_IFMT = m AND S_IFMT"
proof -
  have "NOT S_ISGID AND S_IFMT = S_IFMT" "NOT S_ISUID AND S_IFMT = S_IFMT" by (simp_all add: S_mode_defs)
  then show "(m AND NOT S_ISGID) AND S_IFMT = m AND S_IFMT" "(m AND NOT S_ISUID) AND S_IFMT = m AND S_IFMT"
    by (simp_all add: and.assoc)
qed

lemma shmem_notify_change_consistent:
  assumes "acl_consistent shmem_acl_ops (fc_inode c)" "acl_alloc env" "\<not> S_ISLNK (i_mode (fc_inode c))"
    and type: "attr_sets a ATTR_MODE \<Longrightarrow> ia_mode a AND S_IFMT = i_mode (fc_inode c) AND S_IFMT"
    and run: "shmem_notify_change kc env a c = (r, c')"
  shows "acl_consistent shmem_acl_ops (fc_inode c') \<and> i_mode (fc_inode c') AND S_IFMT = i_mode (fc_inode c) AND S_IFMT"
proof -
  let ?i = "fc_inode c"
  obtain r1 k1 where s1: "inode_change_ok kc ?i a (fc_kernel c) = (r1, k1)" by fastforce
  note e1 = inode_change_ok_eq [OF s1]
  show ?thesis
  proof (cases "change_allowed kc (fc_kernel c) ?i a")
    case False
    then have "r1 = Inl EPERM" using e1 by simp
    then have "fc_inode c' = ?i" using run s1 by (auto simp: shmem_notify_change_def)
    then show ?thesis using assms(1) by simp
  next
    case True
    let ?a = "change_attr kc (fc_kernel c) ?i a"
    have r1: "r1 = Inr ?a" using True e1 by simp
    obtain r2 c2 where s2: "inode_setattr kc env ?a (c\<lparr>fc_kernel := k1\<rparr>) = (r2, c2)" by fastforce
    have ty: "ia_mode ?a AND S_IFMT = i_mode ?i AND S_IFMT" if "attr_sets a ATTR_MODE"
      using type [OF that] by (simp add: change_attr_def sgid_type)
    consider e where "r2 = Inl e" "fc_inode c2 = ?i"
      | "r2 = Inr ()" "i_acl (fc_inode c2) = i_acl ?i" "i_default_acl (fc_inode c2) = i_default_acl ?i"
        "i_mode (fc_inode c2) AND S_IFMT = i_mode ?i AND S_IFMT" "attr_sets a ATTR_MODE \<or> i_mode (fc_inode c2) = i_mode ?i"
      using inode_setattr_eq [OF s2] ty by (auto simp: sgid_type)
    then show ?thesis
    proof cases
      case 1
      then have "fc_inode c' = ?i" using run s1 r1 s2 by (auto simp: shmem_notify_change_def)
      then show ?thesis using assms(1) by simp
    next
      case 2
      note get = shmem_acl_ops_def shmem_get_acl_def
      have old: "\<And>acl. getacl shmem_acl_ops (fc_inode c2) ACL_TYPE_ACCESS = Some acl \<Longrightarrow>
          posix_acl_valid acl = Inr () \<and> map_sum id fst (posix_acl_equiv_mode acl (i_mode ?i)) = Inr True"
        "\<And>d. getacl shmem_acl_ops (fc_inode c2) ACL_TYPE_DEFAULT = Some d \<Longrightarrow> posix_acl_valid d = Inr () \<and> S_ISDIR (i_mode (fc_inode c2))"
        using assms(1) 2(2,3) S_IS_type(1) [OF 2(4)] by (simp_all add: acl_consistent_def get)
      have lnk: "\<not> S_ISLNK (i_mode (fc_inode c2))" using assms(3) S_IS_type(2) [OF 2(4)] by simp
      show ?thesis
      proof (cases "attr_sets a ATTR_MODE")
        case True
        obtain i' where "generic_acl_chmod True (fc_inode c2) shmem_acl_ops = (Inr (), i')" "acl_consistent shmem_acl_ops i'"
          "i_mode i' = i_mode (fc_inode c2)"
          using shmem.generic_acl_chmod_consistent [OF old lnk] by blast
        then show ?thesis
          using run s1 r1 s2 2(1,4) True assms(2) by (auto simp: shmem_notify_change_def)
      next
        case False
        then have "fc_inode c' = fc_inode c2" using run s1 r1 s2 2(1) by (auto simp: shmem_notify_change_def)
        moreover have "acl_consistent shmem_acl_ops (fc_inode c2)"
          using assms(1) 2 False by (simp add: acl_consistent_def get)
        ultimately show ?thesis using 2(4) by simp
      qed
    qed
  qed
qed

section \<open>What notify_change passes on\<close>

text \<open>A mode that lost at most the set-id bits.\<close>

definition drops_sid :: "u16 \<Rightarrow> u16 \<Rightarrow> bool" where
  "drops_sid m m' \<longleftrightarrow> m' AND NOT m = 0 \<and> m' AND NOT (S_ISUID OR S_ISGID) = m AND NOT (S_ISUID OR S_ISGID)"

lemma bit_sid: "bit S_ISUID n \<longleftrightarrow> n = 11" "bit S_ISGID n \<longleftrightarrow> n = 10"
proof -
  have f: "S_ISUID = push_bit 11 1" "S_ISGID = push_bit 10 1" by (simp_all add: S_mode_defs)
  show "bit S_ISUID n \<longleftrightarrow> n = 11" "bit S_ISGID n \<longleftrightarrow> n = 10"
    unfolding f bit_push_bit_iff bit_1_iff by auto
qed

lemma drops_sid_bits: "drops_sid m m' \<longleftrightarrow> (\<forall>n. (bit m' n \<longrightarrow> bit m n) \<and> (bit m n \<and> n \<noteq> 11 \<and> n \<noteq> 10 \<longrightarrow> bit m' n))"
  unfolding drops_sid_def bit_eq_iff [where 'a = u16] bit_and_iff bit_or_iff bit_not_iff bit_sid
  by (auto dest: bit_u16_less)

lemma drops_sid_simps [simp]:
  "drops_sid m m" "drops_sid m (m AND NOT S_ISUID)" "drops_sid m (m AND NOT S_ISGID)"
  "drops_sid m ((m AND NOT S_ISUID) AND NOT S_ISGID)"
  by (auto simp: drops_sid_bits bit_and_iff bit_not_iff bit_sid dest: bit_u16_less)

lemma drops_sid_trans: "drops_sid a b \<Longrightarrow> drops_sid b c \<Longrightarrow> drops_sid a c"
  unfolding drops_sid_bits by blast

lemma drops_sid_type: "drops_sid m m' \<Longrightarrow> m' AND S_IFMT = m AND S_IFMT"
proof -
  assume d: "drops_sid m m'"
  have f: "S_IFMT = push_bit 12 (mask 4)" by (simp add: S_IFMT_def mask_eq_exp_minus_1)
  have b: "bit S_IFMT n \<longleftrightarrow> 12 \<le> n \<and> n < 16" for n
    unfolding f bit_push_bit_iff bit_mask_iff by auto
  show ?thesis
    using d unfolding drops_sid_bits by (intro bit_word_eqI) (auto simp: bit_and_iff b)
qed

lemma flag_or_mode:
  "ATTR_MODE AND f = 0 \<Longrightarrow> (v OR ATTR_MODE) AND f = v AND f"
  by (simp add: bit.conj_disj_distrib2)

text \<open>The attributes the file system sees, against those of the caller.\<close>

definition passed_attr :: "inode \<Rightarrow> iattr \<Rightarrow> iattr \<Rightarrow> bool" where
  "passed_attr i a a' \<longleftrightarrow>
     (\<forall>f \<in> {ATTR_UID, ATTR_GID, ATTR_FORCE, ATTR_SIZE}. attr_sets a' f = attr_sets a f) \<and>
     ia_uid a' = ia_uid a \<and> ia_gid a' = ia_gid a \<and> ia_size a' = ia_size a \<and>
     (attr_sets a' ATTR_MODE \<longrightarrow> attr_sets a ATTR_MODE \<and> ia_mode a' = ia_mode a \<or> drops_sid (i_mode i) (ia_mode a')) \<and>
     (attr_sets a ATTR_MODE \<longrightarrow> attr_sets a' ATTR_MODE \<and> ia_mode a' = ia_mode a) \<and>
     (attr_sets a ATTR_KILL_SUID \<and> i_mode i AND S_ISUID \<noteq> 0 \<longrightarrow> attr_sets a' ATTR_MODE \<and> ia_mode a' AND S_ISUID = 0) \<and>
     (attr_sets a ATTR_KILL_SGID \<and> i_mode i AND (S_ISGID OR S_IXGRP) = S_ISGID OR S_IXGRP \<longrightarrow>
        attr_sets a' ATTR_MODE \<and> ia_mode a' AND S_ISGID = 0)"

lemma ATTR_disjoint [simp]:
  "ATTR_MODE AND ATTR_UID = 0" "ATTR_MODE AND ATTR_GID = 0" "ATTR_MODE AND ATTR_FORCE = 0" "ATTR_MODE AND ATTR_SIZE = 0"
  "ATTR_MODE AND ATTR_KILL_SUID = 0" "ATTR_MODE AND ATTR_KILL_SGID = 0" "ATTR_MODE AND ATTR_MODE \<noteq> 0"
  by (simp_all add: ATTR_defs)

lemma sid_masks [simp]:
  "(m AND NOT S_ISUID) AND S_ISUID = 0" "(m AND NOT S_ISGID) AND S_ISGID = 0" "((m AND NOT S_ISUID) AND NOT S_ISGID) AND S_ISUID = 0"
  by (auto simp: bit_eq_iff bit_and_iff bit_not_iff)

lemma flag_or_mode_self: "(v OR ATTR_MODE) AND ATTR_MODE \<noteq> 0"
proof -
  have "bit ((v OR ATTR_MODE) AND ATTR_MODE) 0" by (simp add: ATTR_MODE_def bit_or_iff bit_and_iff)
  then show ?thesis by (metis bit_0_eq bot_apply bot_bool_def)
qed

lemma notify_kill_sid_passed:
  assumes "\<not> (attr_sets a ATTR_MODE \<and> (attr_sets a ATTR_KILL_SUID \<or> attr_sets a ATTR_KILL_SGID))"
  shows "passed_attr i a (notify_kill_sid i a)"
proof -
  define su where "su \<longleftrightarrow> attr_sets a ATTR_KILL_SUID \<and> i_mode i AND S_ISUID \<noteq> 0"
  define sg where "sg \<longleftrightarrow> attr_sets a ATTR_KILL_SGID \<and> i_mode i AND (S_ISGID OR S_IXGRP) = S_ISGID OR S_IXGRP"
  let ?v = "ia_valid a OR ATTR_MODE"
  have sets: "attr_sets (a\<lparr>ia_valid := ?v, ia_mode := m\<rparr>) f = attr_sets a f" if "ATTR_MODE AND f = 0" for f m
    using that by (simp add: attr_sets_def flag_or_mode)
  have "notify_kill_sid i a =
     (if su then if sg then a\<lparr>ia_valid := ?v, ia_mode := (i_mode i AND NOT S_ISUID) AND NOT S_ISGID\<rparr>
                 else a\<lparr>ia_valid := ?v, ia_mode := i_mode i AND NOT S_ISUID\<rparr>
      else if sg then a\<lparr>ia_valid := ?v, ia_mode := i_mode i AND NOT S_ISGID\<rparr> else a)"
    using assms sets [of ATTR_KILL_SGID] flag_or_mode_self
    by (auto simp: notify_kill_sid_def Let_def su_def sg_def)
  then show ?thesis
    using assms sets flag_or_mode_self by (auto simp: passed_attr_def su_def sg_def)
qed

definition same_request :: "iattr \<Rightarrow> iattr \<Rightarrow> bool" where
  "same_request a b \<longleftrightarrow>
     (\<forall>f \<in> {ATTR_UID, ATTR_GID, ATTR_FORCE, ATTR_SIZE, ATTR_MODE, ATTR_KILL_SUID, ATTR_KILL_SGID}. attr_sets b f = attr_sets a f) \<and>
     ia_uid b = ia_uid a \<and> ia_gid b = ia_gid a \<and> ia_size b = ia_size a \<and> ia_mode b = ia_mode a"

lemma passed_attr_same: "same_request a b \<Longrightarrow> passed_attr i b a' \<Longrightarrow> passed_attr i a a'"
  by (simp add: same_request_def passed_attr_def)

lemma same_request_trans: "same_request a b \<Longrightarrow> same_request b d \<Longrightarrow> same_request a d"
  by (simp add: same_request_def)

lemma kill_priv_flags [simp]:
  "NOT ATTR_KILL_PRIV AND ATTR_UID = ATTR_UID" "NOT ATTR_KILL_PRIV AND ATTR_GID = ATTR_GID"
  "NOT ATTR_KILL_PRIV AND ATTR_FORCE = ATTR_FORCE" "NOT ATTR_KILL_PRIV AND ATTR_SIZE = ATTR_SIZE"
  "NOT ATTR_KILL_PRIV AND ATTR_MODE = ATTR_MODE" "NOT ATTR_KILL_PRIV AND ATTR_KILL_SUID = ATTR_KILL_SUID"
  "NOT ATTR_KILL_PRIV AND ATTR_KILL_SGID = ATTR_KILL_SGID"
  by (simp_all add: ATTR_defs)

lemma same_request_kill_priv: "same_request a (snd (notify_kill_priv kc env a))"
  by (simp add: notify_kill_priv_def same_request_def Let_def and.assoc attr_sets_def)

lemma same_request_times:
  "same_request a (a\<lparr>ia_ctime := t\<rparr>)" "same_request a (if b then a\<lparr>ia_atime := t\<rparr> else a)" "same_request a (if b then a\<lparr>ia_mtime := t\<rparr> else a)"
  by (simp_all add: same_request_def)

lemma kill_flags_or: "attr_sets a (ATTR_KILL_SUID OR ATTR_KILL_SGID) \<longleftrightarrow> attr_sets a ATTR_KILL_SUID \<or> attr_sets a ATTR_KILL_SGID"
  by (auto simp: attr_sets_def bit.conj_disj_distrib or_eq_0_iff)

lemma only_kill_flags: "\<not> attr_sets a (NOT (ATTR_KILL_SUID OR ATTR_KILL_SGID)) \<Longrightarrow> \<not> attr_sets a ATTR_MODE"
proof -
  assume "\<not> attr_sets a (NOT (ATTR_KILL_SUID OR ATTR_KILL_SGID))"
  then have "ia_valid a AND NOT (ATTR_KILL_SUID OR ATTR_KILL_SGID) = 0" by (simp add: attr_sets_def)
  then have "(ia_valid a AND NOT (ATTR_KILL_SUID OR ATTR_KILL_SGID)) AND ATTR_MODE = 0" by (simp only: and_zero_eq zero_and_eq)
  moreover have "NOT (ATTR_KILL_SUID OR ATTR_KILL_SGID) AND ATTR_MODE = ATTR_MODE" by (simp add: ATTR_defs)
  ultimately have "ia_valid a AND ATTR_MODE = 0" by (simp only: and.assoc)
  then show ?thesis by (simp add: attr_sets_def)
qed

lemma notify_change_cases:
  assumes run: "notify_change kc env ops a c = (r, c')"
    and nk: "\<not> (attr_sets a ATTR_MODE \<and> (attr_sets a ATTR_KILL_SUID \<or> attr_sets a ATTR_KILL_SGID))"
  obtains (err) e where "r = Inl e" "c' = c"
    | (idle) a' where "r = Inr ()" "c' = c" "passed_attr (fc_inode c) a a'" "\<not> attr_sets a' ATTR_MODE"
    | (call) a' where "passed_attr (fc_inode c) a a'" "notify_setattr kc env ops a' c = (r, c')"
proof -
  let ?i = "fc_inode c"
  let ?now = "current_fs_time (jiffy_usecs env) (kernel_time env) (i_sb ?i)"
  let ?a0 = "a\<lparr>ia_ctime := ?now\<rparr>"
  let ?a1 = "if \<not> attr_sets ?a0 ATTR_ATIME_SET then ?a0\<lparr>ia_atime := ?now\<rparr> else ?a0"
  let ?a2 = "if \<not> attr_sets ?a1 ATTR_MTIME_SET then ?a1\<lparr>ia_mtime := ?now\<rparr> else ?a1"
  obtain r3 a3 where p: "notify_kill_priv kc env ?a2 = (r3, a3)" by fastforce
  have s: "same_request a a3"
    using same_request_kill_priv [of ?a2 kc env] unfolding p snd_conv
    by (rule same_request_trans [OF same_request_times(1) same_request_trans [OF same_request_times(2)
          same_request_trans [OF same_request_times(3)]]])
  then have nk3: "\<not> (attr_sets a3 ATTR_MODE \<and> (attr_sets a3 ATTR_KILL_SUID \<or> attr_sets a3 ATTR_KILL_SGID))"
    using nk by (simp add: same_request_def)
  have pa: "passed_attr ?i a (notify_kill_sid ?i a3)"
    by (rule passed_attr_same [OF s notify_kill_sid_passed [OF nk3]])
  have bug: "\<not> (attr_sets a3 (ATTR_KILL_SUID OR ATTR_KILL_SGID) \<and> attr_sets a3 ATTR_MODE)"
    using nk3 by (auto simp: kill_flags_or)
  note d = run [unfolded notify_change_def Let_def p prod.case if_not_P [OF bug]]
  show thesis
  proof (cases "attr_sets a (ATTR_MODE OR ATTR_UID OR ATTR_GID OR ATTR_TIMES_SET) \<and> (IS_IMMUTABLE ?i \<or> IS_APPEND ?i)")
    case True
    then show thesis using d err by auto
  next
    case False
    note d = d [unfolded if_not_P [OF False]]
    show thesis
    proof (cases r3)
      case (Inl e)
      then show thesis using d err by auto
    next
      case (Inr u)
      show thesis
      proof (cases "attr_sets (notify_kill_sid ?i a3) (NOT (ATTR_KILL_SUID OR ATTR_KILL_SGID))")
        case True
        then show thesis using d Inr call [OF pa] by simp
      next
        case False
        then show thesis using d Inr idle [OF _ _ pa only_kill_flags [OF False]] by auto
      qed
    qed
  qed
qed

section \<open>Sequences of calls on one tmpfs file\<close>

datatype fs_call =
    Set_access_acl "u8 list option"
  | Set_default_acl "u8 list option"
  | Chmod u16
  | Chown uid_t gid_t
  | Truncate int bool
  | Remove_suid

text \<open>The arguments that callers in the kernel pass: \<open>truncate\<close> gives no time attributes, \<open>ftruncate\<close> two.\<close>

definition do_fs_call :: "kconfig \<Rightarrow> fs_env \<Rightarrow> iattr \<Rightarrow> fs_call \<Rightarrow> fs_ctx \<Rightarrow> unit ret \<times> fs_ctx" where
  "do_fs_call kc env stack call c =
     (let ops = shmem_inode_operations kc;
          setx = (\<lambda>set val. case set kc (acl_alloc env) '''' val (fc_inode c) (fc_kernel c) of
                    (r, inode, k) \<Rightarrow> (r, c\<lparr>fc_inode := inode, fc_kernel := k\<rparr>))
      in case call of
           Set_access_acl val \<Rightarrow> setx shmem_set_acl_access val
         | Set_default_acl val \<Rightarrow> setx shmem_set_acl_default val
         | Chmod mode \<Rightarrow> chmod_locked kc env ops stack mode c
         | Chown user grp \<Rightarrow> chown_common kc env ops stack user grp c
         | Truncate len tm \<Rightarrow> do_truncate kc env ops stack len (if tm then ATTR_MTIME OR ATTR_CTIME else 0) tm c
         | Remove_suid \<Rightarrow> file_remove_suid kc env ops stack c)"

fun run_fs_calls :: "kconfig \<Rightarrow> fs_env \<Rightarrow> iattr \<Rightarrow> fs_call list \<Rightarrow> fs_ctx \<Rightarrow> fs_ctx" where
  "run_fs_calls kc env stack [] c = c"
| "run_fs_calls kc env stack (call # calls) c =
     run_fs_calls kc env stack calls (snd (do_fs_call kc env stack call c))"

text \<open>Requests by which the callers of \<open>notify_change\<close> change a file of type and mode \<open>m\<close>.\<close>

definition request_ok :: "inode \<Rightarrow> iattr \<Rightarrow> bool" where
  "request_ok i a \<longleftrightarrow>
     (attr_sets a ATTR_MODE \<longrightarrow> ia_mode a AND S_IFMT = i_mode i AND S_IFMT \<and> \<not> attr_sets a ATTR_KILL_SUID \<and> \<not> attr_sets a ATTR_KILL_SGID) \<and>
     (attr_sets a ATTR_FORCE \<longrightarrow> \<not> attr_sets a ATTR_MODE \<and> \<not> attr_sets a ATTR_UID \<and> \<not> attr_sets a ATTR_GID)"

text \<open>The kernel may only have marked the use of a capability.\<close>

lemma should_remove_suid_cases:
  assumes "should_remove_suid kc i k = (kill, k')"
  shows "marked k k'" "kill \<in> {0, ATTR_KILL_SUID, ATTR_KILL_SGID, ATTR_KILL_SUID OR ATTR_KILL_SGID}"
  using assms by (auto simp: should_remove_suid_def Let_def capable_mark split: if_splits bool.splits)

lemma chmod_type: "((m AND S_IALLUGO) OR (i AND NOT S_IALLUGO)) AND S_IFMT = i AND S_IFMT"
proof -
  have e: "S_IALLUGO = mask 12" "S_IFMT = push_bit 12 (mask 4)"
    by (simp_all add: S_mode_defs S_bits mask_eq_exp_minus_1)
  show ?thesis
    unfolding e by (intro bit_word_eqI) (auto simp: bit_and_iff bit_or_iff bit_not_iff bit_push_bit_iff bit_mask_iff)
qed

lemma chown_request:
  obtains a where "chown_common kc env ops stack user grp c = notify_change kc env ops a c"
    "\<not> attr_sets a ATTR_MODE" "\<not> attr_sets a ATTR_FORCE" "attr_sets a ATTR_UID \<longleftrightarrow> user \<noteq> - 1" "attr_sets a ATTR_GID \<longleftrightarrow> grp \<noteq> - 1"
    "user \<noteq> - 1 \<longrightarrow> ia_uid a = user" "grp \<noteq> - 1 \<longrightarrow> ia_gid a = grp"
    "\<not> S_ISDIR (i_mode (fc_inode c)) \<longrightarrow> attr_sets a ATTR_KILL_SUID \<and> attr_sets a ATTR_KILL_SGID"
proof -
  define a1 where "a1 = stack\<lparr>ia_valid := ATTR_CTIME\<rparr>"
  define a2 where "a2 = (if user \<noteq> - 1 then a1\<lparr>ia_valid := ia_valid a1 OR ATTR_UID, ia_uid := user\<rparr> else a1)"
  define a3 where "a3 = (if grp \<noteq> - 1 then a2\<lparr>ia_valid := ia_valid a2 OR ATTR_GID, ia_gid := grp\<rparr> else a2)"
  define a4 where "a4 = (if \<not> S_ISDIR (i_mode (fc_inode c))
    then a3\<lparr>ia_valid := ia_valid a3 OR ATTR_KILL_SUID OR ATTR_KILL_SGID OR ATTR_KILL_PRIV\<rparr> else a3)"
  show thesis
  proof (rule that [of a4])
    show "chown_common kc env ops stack user grp c = notify_change kc env ops a4 c"
      unfolding chown_common_def Let_def a4_def a3_def a2_def a1_def by (rule refl)
  qed (simp_all add: a4_def a3_def a2_def a1_def attr_sets_def ATTR_defs)
qed

lemma force_request:
  assumes "kill \<in> {0, ATTR_KILL_SUID, ATTR_KILL_SGID, ATTR_KILL_SUID OR ATTR_KILL_SGID}"
    and "base \<in> {0, ATTR_SIZE, ATTR_SIZE OR ATTR_MTIME OR ATTR_CTIME OR ATTR_FILE}"
  shows "request_ok i (a\<lparr>ia_valid := base OR kill OR ATTR_FORCE\<rparr>)" "request_ok i (a\<lparr>ia_valid := base\<rparr>)"
  using assms by (auto simp: request_ok_def ATTR_defs)

lemma fs_call_cases:
  assumes "do_fs_call kc env stack call c = (r, c')"
  obtains (acl) t val where "t = ACL_TYPE_ACCESS \<or> t = ACL_TYPE_DEFAULT"
      "generic_acl_set kc (acl_alloc env) shmem_acl_ops t val (fc_inode c) (fc_kernel c) = (r, fc_inode c', fc_kernel c')"
    | (notify) a c1 where "request_ok (fc_inode c) a" "fc_inode c1 = fc_inode c" "marked (fc_kernel c) (fc_kernel c1)"
      "notify_change kc env (shmem_inode_operations kc) a c1 = (r, c')"
    | (none) "fc_inode c' = fc_inode c" "marked (fc_kernel c) (fc_kernel c')"
proof (cases call)
  case (Set_access_acl val)
  then show thesis
    using assms acl [of ACL_TYPE_ACCESS val]
    by (auto simp: do_fs_call_def shmem_set_acl_access_def split: prod.splits)
next
  case (Set_default_acl val)
  then show thesis
    using assms acl [of ACL_TYPE_DEFAULT val]
    by (auto simp: do_fs_call_def shmem_set_acl_default_def split: prod.splits)
next
  case (Chmod mode)
  let ?m = "if mode = - 1 then i_mode (fc_inode c) else mode"
  let ?a = "stack\<lparr>ia_mode := (?m AND S_IALLUGO) OR (i_mode (fc_inode c) AND NOT S_IALLUGO), ia_valid := ATTR_MODE OR ATTR_CTIME\<rparr>"
  have "request_ok (fc_inode c) ?a"
    using chmod_type by (simp add: request_ok_def ATTR_defs)
  moreover have "notify_change kc env (shmem_inode_operations kc) ?a c = (r, c')"
    using assms Chmod by (simp add: do_fs_call_def chmod_locked_def Let_def)
  ultimately show thesis using notify [of ?a c] by simp
next
  case (Chown user grp)
  obtain a where "chown_common kc env (shmem_inode_operations kc) stack user grp c = notify_change kc env (shmem_inode_operations kc) a c"
    "\<not> attr_sets a ATTR_MODE" "\<not> attr_sets a ATTR_FORCE" by (rule chown_request)
  then show thesis
    using assms Chown notify [of a c] by (simp add: do_fs_call_def request_ok_def)
next
  case (Truncate len tm)
  obtain kill k where k: "should_remove_suid kc (fc_inode c) (fc_kernel c) = (kill, k)" by fastforce
  let ?base = "if tm then ATTR_SIZE OR ATTR_MTIME OR ATTR_CTIME OR ATTR_FILE else ATTR_SIZE"
  define a where "a = (if kill \<noteq> 0 then stack\<lparr>ia_size := len, ia_valid := ?base OR kill OR ATTR_FORCE\<rparr>
    else stack\<lparr>ia_size := len, ia_valid := ?base\<rparr>)"
  have ok: "request_ok (fc_inode c) a"
    using should_remove_suid_cases(2) [OF k] force_request [of kill ?base "fc_inode c" "stack\<lparr>ia_size := len\<rparr>"]
    by (auto simp: a_def)
  show thesis
  proof (cases "len < 0")
    case True
    then show thesis using assms Truncate none by (auto simp: do_fs_call_def do_truncate_def)
  next
    case False
    then have "notify_change kc env (shmem_inode_operations kc) a (c\<lparr>fc_kernel := k\<rparr>) = (r, c')"
      using assms Truncate k by (auto simp: do_fs_call_def do_truncate_def Let_def a_def or.assoc split: if_splits)
    then show thesis using notify [OF ok, of "c\<lparr>fc_kernel := k\<rparr>"] should_remove_suid_cases(1) [OF k] by simp
  qed
next
  case Remove_suid
  obtain kill k where k: "should_remove_suid kc (fc_inode c) (fc_kernel c) = (kill, k)" by fastforce
  let ?a = "stack\<lparr>ia_valid := 0 OR kill OR ATTR_FORCE\<rparr>"
  have ok: "request_ok (fc_inode c) ?a"
    using should_remove_suid_cases(2) [OF k] by (rule force_request) simp
  have "fc_inode c' = fc_inode c \<and> fc_kernel c' = k \<or> notify_change kc env (shmem_inode_operations kc) ?a (c\<lparr>fc_kernel := k\<rparr>) = (r, c')"
    using assms Remove_suid k
    by (auto simp: do_fs_call_def file_remove_suid_def Let_def or.commute split: if_splits sum.splits)
  then show thesis using notify [OF ok, of "c\<lparr>fc_kernel := k\<rparr>"] none should_remove_suid_cases(1) [OF k] by auto
qed

lemma type_of_perm_bits: "m AND NOT S_IRWXUGO = m' AND NOT S_IRWXUGO \<Longrightarrow> m AND S_IFMT = m' AND S_IFMT"
proof -
  assume a: "m AND NOT S_IRWXUGO = m' AND NOT S_IRWXUGO"
  have f: "NOT S_IRWXUGO AND S_IFMT = S_IFMT" by (simp add: S_IFMT_def S_bits)
  have "(m AND NOT S_IRWXUGO) AND S_IFMT = (m' AND NOT S_IRWXUGO) AND S_IFMT" using a by simp
  then show ?thesis by (simp only: and.assoc f)
qed

lemma passed_attrD:
  assumes "passed_attr i a a'"
  shows "f \<in> {ATTR_UID, ATTR_GID, ATTR_FORCE, ATTR_SIZE} \<Longrightarrow> attr_sets a' f = attr_sets a f"
    "attr_sets a' ATTR_MODE \<Longrightarrow> attr_sets a ATTR_MODE \<and> ia_mode a' = ia_mode a \<or> drops_sid (i_mode i) (ia_mode a')"
  using assms unfolding passed_attr_def by blast+

lemma fs_call_consistent:
  assumes "acl_consistent shmem_acl_ops (fc_inode c)" "acl_alloc env" "\<not> S_ISLNK (i_mode (fc_inode c))"
    and "do_fs_call kc env stack call c = (r, c')"
  shows "acl_consistent shmem_acl_ops (fc_inode c') \<and> i_mode (fc_inode c') AND S_IFMT = i_mode (fc_inode c) AND S_IFMT"
  using assms(4)
proof (cases rule: fs_call_cases)
  case (acl t val)
  then show ?thesis
    using shmem.generic_acl_set_consistent [OF assms(1) acl] type_of_perm_bits by blast
next
  case (notify a c1)
  have nk: "\<not> (attr_sets a ATTR_MODE \<and> (attr_sets a ATTR_KILL_SUID \<or> attr_sets a ATTR_KILL_SGID))"
    using notify(1) by (auto simp: request_ok_def)
  from notify(4) nk show ?thesis
  proof (cases rule: notify_change_cases)
    case (call a')
    have "ia_mode a' AND S_IFMT = i_mode (fc_inode c1) AND S_IFMT" if "attr_sets a' ATTR_MODE"
    proof -
      have "attr_sets a ATTR_MODE \<and> ia_mode a' = ia_mode a \<or> drops_sid (i_mode (fc_inode c1)) (ia_mode a')"
        by (rule passed_attrD(2) [OF call(1) that])
      then show ?thesis
        using notify(1,2) drops_sid_type unfolding request_ok_def by metis
    qed
    then show ?thesis
      using shmem_notify_change_consistent [of c1 env a' kc r c'] call(2) assms(1-3) notify(2)
      by (simp add: notify_setattr_def shmem_inode_operations_def)
  qed (use assms(1) notify(2) in simp_all)
qed (use assms(1) in simp)


definition sample_env :: fs_env where
  "sample_env = \<lparr>jiffy_usecs = 3906, kernel_time = \<lparr>tv_sec = 100, tv_nsec = 5\<rparr>, fsize_limit = - 1, xattr_caps_size = None,
     xattr_caps_remove = None, acl_alloc = True\<rparr>"

definition sample_attr :: iattr where
  "sample_attr = \<lparr>ia_valid = 0, ia_mode = 0, ia_uid = 0, ia_gid = 0, ia_size = 0, ia_atime = \<lparr>tv_sec = 0, tv_nsec = 0\<rparr>,
     ia_mtime = \<lparr>tv_sec = 0, tv_nsec = 0\<rparr>, ia_ctime = \<lparr>tv_sec = 0, tv_nsec = 0\<rparr>\<rparr>"

definition sample_ctx :: "cred \<Rightarrow> inode \<Rightarrow> fs_ctx" where
  "sample_ctx cr i = \<lparr>fc_kernel = running cr, fc_inode = i, fc_sigxfsz = False\<rparr>"


section \<open>What an unprivileged caller can change\<close>

text \<open>The effect of a change on the inode, whether the file system is tmpfs or has no callback of its own.\<close>

definition change_effect :: "kconfig \<Rightarrow> iattr \<Rightarrow> kernel \<Rightarrow> inode \<Rightarrow> inode \<Rightarrow> bool" where
  "change_effect kc a k i i' \<longleftrightarrow> change_allowed kc k i a \<and>
     i_uid i' = (if attr_sets a ATTR_UID then ia_uid a else i_uid i) \<and>
     i_gid i' = (if attr_sets a ATTR_GID then ia_gid a else i_gid i) \<and>
     (attr_sets a ATTR_MODE \<and> (i_mode i' = ia_mode a \<or> i_mode i' = ia_mode a AND NOT S_ISGID) \<or>
      \<not> attr_sets a ATTR_MODE \<and> i_mode i' = i_mode i)"

lemma change_effect_setattr:
  assumes "inode_change_ok kc (fc_inode c) a (fc_kernel c) = (Inr b, k1)"
    and "inode_setattr kc env b (c\<lparr>fc_kernel := k1\<rparr>) = (r, c')"
  shows "marked (fc_kernel c) (fc_kernel c') \<and>
    (is_err r \<and> fc_inode c' = fc_inode c \<or> r = Inr () \<and> change_effect kc a (fc_kernel c) (fc_inode c) (fc_inode c'))"
proof -
  have e: "change_allowed kc (fc_kernel c) (fc_inode c) a" "b = change_attr kc (fc_kernel c) (fc_inode c) a" "marked (fc_kernel c) k1"
    using inode_change_ok_eq [OF assms(1)] by (auto split: if_splits)
  have i: "((m AND NOT S_ISGID) AND NOT S_ISGID) = m AND NOT S_ISGID" for m :: u16
    by (simp add: and.assoc)
  from inode_setattr_eq [OF assms(2)] show ?thesis
  proof (elim disjE conjE exE)
    assume "marked (fc_kernel (c\<lparr>fc_kernel := k1\<rparr>)) (fc_kernel c')"
    then have "marked (fc_kernel c) (fc_kernel c')" using marked_trans [OF e(3)] by simp
    moreover assume "r = Inr ()" "i_uid (fc_inode c') = (if attr_sets b ATTR_UID then ia_uid b else i_uid (fc_inode (c\<lparr>fc_kernel := k1\<rparr>)))"
      "i_gid (fc_inode c') = (if attr_sets b ATTR_GID then ia_gid b else i_gid (fc_inode (c\<lparr>fc_kernel := k1\<rparr>)))"
      "i_mode (fc_inode c') = (if attr_sets b ATTR_MODE
        then if in_group_p (i_gid (fc_inode c')) (fc_kernel (c\<lparr>fc_kernel := k1\<rparr>)) \<or> has_cap kc (fc_kernel (c\<lparr>fc_kernel := k1\<rparr>)) CAP_FSETID
          then ia_mode b else ia_mode b AND NOT S_ISGID
        else i_mode (fc_inode (c\<lparr>fc_kernel := k1\<rparr>)))"
    ultimately show ?thesis
      using e(1) unfolding e(2) change_effect_def by (auto simp: change_attr_def i split: if_splits)
  qed (use e(3) in auto)
qed

lemma notify_setattr_effect:
  assumes "op_setattr ops = None \<or> op_setattr ops = Some (shmem_notify_change kc)"
    and run: "notify_setattr kc env ops a c = (r, c')"
  shows "marked (fc_kernel c) (fc_kernel c') \<and>
    (is_err r \<and> fc_inode c' = fc_inode c \<or> change_effect kc a (fc_kernel c) (fc_inode c) (fc_inode c'))"
proof -
  obtain r1 k1 where s1: "inode_change_ok kc (fc_inode c) a (fc_kernel c) = (r1, k1)" by fastforce
  show ?thesis
  proof (cases r1)
    case (Inl e)
    have "fc_inode c' = fc_inode c" "fc_kernel c' = k1" "r = Inl e"
      using assms s1 Inl by (auto simp: notify_setattr_def shmem_notify_change_def)
    then show ?thesis using inode_change_ok_eq [OF s1] by simp
  next
    case (Inr b)
    obtain r2 c2 where s2: "inode_setattr kc env b (c\<lparr>fc_kernel := k1\<rparr>) = (r2, c2)" by fastforce
    note e = change_effect_setattr [OF s1 [unfolded Inr] s2]
    have chmod: "i_uid (snd (generic_acl_chmod al i shmem_acl_ops)) = i_uid i" "i_gid (snd (generic_acl_chmod al i shmem_acl_ops)) = i_gid i"
      "i_mode (snd (generic_acl_chmod al i shmem_acl_ops)) = i_mode i" for al i
      by (auto simp: generic_acl_chmod_def shmem_acl_ops_def shmem_set_acl_def split: option.split sum.split)
    show ?thesis
    proof (cases "op_setattr ops = None \<or> is_err r2 \<or> \<not> attr_sets b ATTR_MODE")
      case True
      then have "c' = c2" "r = r2"
        using assms s1 Inr s2 by (auto simp: notify_setattr_def shmem_notify_change_def is_err_def split: sum.splits)
      then show ?thesis using e by auto
    next
      case False
      then have "r2 = Inr ()" by (cases r2) auto
      then have "c' = c2\<lparr>fc_inode := snd (generic_acl_chmod (acl_alloc env) (fc_inode c2) shmem_acl_ops)\<rparr>"
        using assms s1 Inr s2 False by (auto simp: notify_setattr_def shmem_notify_change_def split: prod.splits)
      then show ?thesis using e \<open>r2 = Inr ()\<close> unfolding change_effect_def by (simp add: chmod)
    qed
  qed
qed

definition confined_inode :: "kernel \<Rightarrow> inode \<Rightarrow> inode \<Rightarrow> bool" where
  "confined_inode k i i' \<longleftrightarrow> i_uid i' = i_uid i \<and> (i_gid i' = i_gid i \<or> owns k i \<and> in_group_p (i_gid i') k) \<and>
     (\<not> owns k i \<longrightarrow> drops_sid (i_mode i) (i_mode i'))"

lemma confined_inode_refl [simp]: "confined_inode k i i"
  by (simp add: confined_inode_def)

lemma confined_inode_trans: "confined_inode k a b \<Longrightarrow> confined_inode k b d \<Longrightarrow> confined_inode k a d"
  unfolding confined_inode_def using drops_sid_trans by auto

lemma confined_effect:
  assumes "change_effect kc a' k i i'" "passed_attr i a a'" "request_ok i a"
    and "\<not> has_cap kc k CAP_CHOWN" "\<not> has_cap kc k CAP_FOWNER"
  shows "confined_inode k i i'"
proof -
  have f: "attr_sets a' ATTR_FORCE = attr_sets a ATTR_FORCE" "attr_sets a' ATTR_UID = attr_sets a ATTR_UID"
    "attr_sets a' ATTR_GID = attr_sets a ATTR_GID"
    "attr_sets a' ATTR_MODE \<longrightarrow> attr_sets a ATTR_MODE \<or> drops_sid (i_mode i) (ia_mode a')"
    using passed_attrD [OF assms(2)] by blast+
  have force: "\<not> attr_sets a ATTR_MODE" "\<not> attr_sets a' ATTR_UID" "\<not> attr_sets a' ATTR_GID" if "attr_sets a' ATTR_FORCE"
    using assms(3) that f unfolding request_ok_def by simp_all
  have al: "change_allowed kc k i a'" using assms(1) by (simp add: change_effect_def)
  have uid: "i_uid i' = i_uid i" and gid: "i_gid i' = i_gid i \<or> owns k i \<and> in_group_p (i_gid i') k"
    using assms(1,4) al force(2,3) unfolding change_effect_def change_allowed_def by (auto split: if_splits)
  have "drops_sid (i_mode i) (i_mode i')" if "\<not> owns k i"
  proof (cases "attr_sets a' ATTR_MODE")
    case True
    then have "attr_sets a' ATTR_FORCE" using al that assms(5) unfolding change_allowed_def by auto
    then have "drops_sid (i_mode i) (ia_mode a')" using True f(4) force(1) by blast
    moreover have "i_mode i' = ia_mode a' \<or> i_mode i' = ia_mode a' AND NOT S_ISGID"
      using assms(1) True unfolding change_effect_def by (elim conjE disjE) simp_all
    ultimately show ?thesis using drops_sid_trans [OF _ drops_sid_simps(3)] by (elim disjE) simp_all
  next
    case False
    then show ?thesis using assms(1) by (simp add: change_effect_def)
  qed
  then show ?thesis using uid gid by (simp add: confined_inode_def)
qed

lemma shmem_acl_set_confined:
  assumes run: "generic_acl_set kc al shmem_acl_ops t val i k = (r, i', k')" and "\<not> has_cap kc k CAP_FOWNER"
  shows "marked k k' \<and> confined_inode k i i'"
proof (cases "owns k i")
  case True
  then have o: "is_owner_or_cap kc i k = (True, k)" by (rule is_owner_or_cap_owner)
  have "k' = k"
    using run unfolding generic_acl_set_def o
    by (auto split: if_splits sum.splits option.splits prod.splits)
  moreover from run have "i_uid i' = i_uid i \<and> i_gid i' = i_gid i"
    by (cases rule: generic_acl_set_cases) (simp_all add: shmem_acl_ops_def shmem_set_acl_def)
  ultimately show ?thesis using True by (simp add: confined_inode_def)
next
  case False
  then have "is_owner_or_cap kc i k = (False, k)" using assms(2) by (simp add: is_owner_or_cap_mark)
  then have "i' = i" "k' = k" using run by (auto simp: generic_acl_set_def split: if_splits)
  then show ?thesis by simp
qed

lemma fs_call_confined:
  assumes "\<not> has_cap kc (fc_kernel c) CAP_CHOWN" "\<not> has_cap kc (fc_kernel c) CAP_FOWNER"
    and "do_fs_call kc env stack call c = (r, c')"
  shows "marked (fc_kernel c) (fc_kernel c') \<and> confined_inode (fc_kernel c) (fc_inode c) (fc_inode c')"
  using assms(3)
proof (cases rule: fs_call_cases)
  case (acl t val)
  then show ?thesis using shmem_acl_set_confined assms(2) by blast
next
  case (notify a c1)
  note m = markedD [OF notify(3)]
  have nk: "\<not> (attr_sets a ATTR_MODE \<and> (attr_sets a ATTR_KILL_SUID \<or> attr_sets a ATTR_KILL_SGID))"
    using notify(1) by (auto simp: request_ok_def)
  have caps: "\<not> has_cap kc (fc_kernel c1) CAP_CHOWN" "\<not> has_cap kc (fc_kernel c1) CAP_FOWNER" using assms(1,2) m(3) by simp_all
  have conf: "confined_inode (fc_kernel c1) (fc_inode c1) i' \<longleftrightarrow> confined_inode (fc_kernel c) (fc_inode c) i'" for i'
    by (simp add: confined_inode_def m notify(2))
  from notify(4) nk show ?thesis
  proof (cases rule: notify_change_cases)
    case (call a')
    have "op_setattr (shmem_inode_operations kc) = None \<or> op_setattr (shmem_inode_operations kc) = Some (shmem_notify_change kc)"
      by (simp add: shmem_inode_operations_def)
    from notify_setattr_effect [OF this call(2)]
    have e: "marked (fc_kernel c1) (fc_kernel c')"
      "fc_inode c' = fc_inode c1 \<or> change_effect kc a' (fc_kernel c1) (fc_inode c1) (fc_inode c')" by blast+
    have "confined_inode (fc_kernel c1) (fc_inode c1) (fc_inode c')"
      using e(2) confined_effect [OF _ call(1) notify(1) [folded notify(2)] caps] by auto
    then show ?thesis using e(1) notify(3) marked_trans conf by blast
  qed (use notify(2,3) in simp_all)
qed simp



lemma sid_tests:
  "x AND S_ISUID = 0 \<longleftrightarrow> \<not> bit x 11" "x AND S_ISGID = 0 \<longleftrightarrow> \<not> bit x 10"
  "x AND (S_ISGID OR S_IXGRP) = S_ISGID OR S_IXGRP \<longleftrightarrow> bit x 10 \<and> bit x 3"
proof -
  have f: "S_ISUID = 2 ^ 11" "S_ISGID = 2 ^ 10" "S_IXGRP = 2 ^ 3" by (simp_all add: S_mode_defs)
  show "x AND S_ISUID = 0 \<longleftrightarrow> \<not> bit x 11" "x AND S_ISGID = 0 \<longleftrightarrow> \<not> bit x 10"
    unfolding f by (rule and_exp_eq_0_iff_not_bit)+
  show "x AND (S_ISGID OR S_IXGRP) = S_ISGID OR S_IXGRP \<longleftrightarrow> bit x 10 \<and> bit x 3"
    unfolding and_eq_right_iff f bit_or_iff bit_exp_iff by (auto dest: spec [of _ 10] spec [of _ 3])
qed

text \<open>
  C40. A successful chown of a file that is not a directory, on tmpfs or on a file system without
  its own callback, leaves neither a set-user-id bit nor a set-group-id bit beside group execute
  permission, whoever calls it.
\<close>

theorem chown_clears_setid:
  assumes "op_setattr ops = None \<or> op_setattr ops = Some (shmem_notify_change kc)"
    and "\<not> S_ISDIR (i_mode (fc_inode c))" "chown_common kc env ops stack user grp c = (Inr (), c')"
  shows "i_mode (fc_inode c') AND S_ISUID = 0 \<and> i_mode (fc_inode c') AND (S_ISGID OR S_IXGRP) \<noteq> S_ISGID OR S_IXGRP"
proof -
  let ?m = "i_mode (fc_inode c)" and ?m' = "i_mode (fc_inode c')"
  obtain a where a: "chown_common kc env ops stack user grp c = notify_change kc env ops a c" "\<not> attr_sets a ATTR_MODE"
    "attr_sets a ATTR_KILL_SUID \<and> attr_sets a ATTR_KILL_SGID"
    using assms(2) chown_request [of kc env ops stack user grp c] by metis
  have kill: "?m AND S_ISUID \<noteq> 0 \<Longrightarrow> attr_sets a' ATTR_MODE \<and> ia_mode a' AND S_ISUID = 0"
    "?m AND (S_ISGID OR S_IXGRP) = S_ISGID OR S_IXGRP \<Longrightarrow> attr_sets a' ATTR_MODE \<and> ia_mode a' AND S_ISGID = 0"
    if "passed_attr (fc_inode c) a a'" for a'
    using that a(3) unfolding passed_attr_def by blast+
  have nk: "\<not> (attr_sets a ATTR_MODE \<and> (attr_sets a ATTR_KILL_SUID \<or> attr_sets a ATTR_KILL_SGID))" using a(2) by simp
  from assms(3) [unfolded a(1)] nk show ?thesis
  proof (cases rule: notify_change_cases)
    case (idle a')
    then show ?thesis using kill [OF idle(3)] by blast
  next
    case (call a')
    have "change_effect kc a' (fc_kernel c) (fc_inode c) (fc_inode c')"
      using notify_setattr_effect [OF assms(1) call(2)] by simp
    then have "attr_sets a' ATTR_MODE \<and> (?m' = ia_mode a' \<or> ?m' = ia_mode a' AND NOT S_ISGID) \<or> \<not> attr_sets a' ATTR_MODE \<and> ?m' = ?m"
      unfolding change_effect_def by (elim conjE)
    then have t: "(if attr_sets a' ATTR_MODE then bit (ia_mode a') n else bit ?m n)" if "bit ?m' n" for n
      using that by (auto simp: bit_and_iff)
    have s: "bit ?m n" if "attr_sets a' ATTR_MODE" "bit (ia_mode a') n" for n
      using passed_attrD(2) [OF call(1) that(1)] that a(2) unfolding drops_sid_bits by blast
    have k: "bit ?m 11 \<Longrightarrow> attr_sets a' ATTR_MODE \<and> \<not> bit (ia_mode a') 11"
      "bit ?m 10 \<and> bit ?m 3 \<Longrightarrow> attr_sets a' ATTR_MODE \<and> \<not> bit (ia_mode a') 10"
      using kill [OF call(1)] unfolding sid_tests by blast+
    show ?thesis
      unfolding sid_tests using t [of 11] t [of 10] t [of 3] s k by (cases "attr_sets a' ATTR_MODE") auto
  qed simp
qed

definition suid_file :: inode where
  "suid_file = sample_file\<lparr>i_mode := 0x8DED\<rparr>"

theorem chown_clears_setid_witness:
  "\<exists>c'. chown_common victory_config sample_env (shmem_inode_operations victory_config) sample_attr 1000 1000
       (sample_ctx (user_cred 1000) suid_file) = (Inr (), c') \<and> i_mode (fc_inode c') AND S_ISUID = 0"
proof -
  let ?run = "chown_common victory_config sample_env (shmem_inode_operations victory_config) sample_attr 1000 1000
    (sample_ctx (user_cred 1000) suid_file)"
  have "fst ?run = Inr ()" by code_simp
  then have run: "?run = (Inr (), snd ?run)" by (metis prod.collapse)
  moreover have "i_mode (fc_inode (snd ?run)) AND S_ISUID = 0"
    by (rule chown_clears_setid [OF _ _ run, THEN conjunct1])
      (simp_all add: shmem_inode_operations_def sample_ctx_def suid_file_def S_ISDIR_def S_mode_defs)
  ultimately show ?thesis by blast
qed

definition sgid_file :: inode where
  "sgid_file = sample_file\<lparr>i_mode := 0x85ED, i_gid := 0\<rparr>"

text \<open>
  Setting an ACL keeps a set-group-id bit that a chmod by the same caller takes away: the owner
  of a set-group-id file, in none of its groups, sets an ACL and the bit stays; the same mode set
  by chmod loses it.
\<close>

theorem acl_set_keeps_setgid:
  "i_mode (fc_inode (snd (do_fs_call victory_config sample_env sample_attr
       (Set_access_acl (Some (snd (posix_acl_to_xattr sample_acl (Some 100))))) (sample_ctx (user_cred 1000) sgid_file)))) AND S_ISGID \<noteq> 0 \<and>
   i_mode (fc_inode (snd (do_fs_call victory_config sample_env sample_attr (Chmod 0x5E8)
       (sample_ctx (user_cred 1000) sgid_file)))) AND S_ISGID = 0"
  by (rule conjI; code_simp)

end
