(* ===== verification/File_Locks.thy ===== *)
theory File_Locks
  imports Kernel_Prelude
begin

text \<open>
  Advisory file locks of fs/locks.c: POSIX byte-range locks and flock locks on one inode, waiting
  requests and deadlock detection. The lock list \<open>i_flock\<close> is a list of locks; a lock has the
  address of its structure, which stands for the pointers the source keeps to it (\<open>left\<close>, \<open>right\<close>,
  \<open>request\<close> once it points into the list, and the blocker of a waiter). Owners and open files are
  numbers. Offsets are 64-bit \<open>loff_t\<close> values, kept as integers: the code never computes
  \<open>OFFSET_MAX + 1\<close>. Locks of lock managers and file systems with callbacks of their own
  (\<open>fl_lmops\<close>, \<open>fl_ops\<close>, \<open>f_op->lock\<close>) are not modelled; the configuration has no process id
  namespaces, so \<open>fl_nspid\<close> is the id it stands for. Leases only occur as entries of the list.

  The reference for POSIX locks is \<open>cover\<close>: cut the new range out of the owner's locks and put the
  new one in, joined with neighbours of its type. The lemmas show that the in-place algorithm of
  \<open>__posix_lock_file\<close> computes exactly that, with what follows for each byte of the file.
\<close>

section \<open>Data\<close>

definition FL_POSIX :: u8 where "FL_POSIX = 1"
definition FL_FLOCK :: u8 where "FL_FLOCK = 2"
definition FL_ACCESS :: u8 where "FL_ACCESS = 8"
definition FL_EXISTS :: u8 where "FL_EXISTS = 16"
definition FL_LEASE :: u8 where "FL_LEASE = 32"
definition FL_CLOSE :: u8 where "FL_CLOSE = 64"
definition FL_SLEEP :: u8 where "FL_SLEEP = 128"

lemmas FL_defs = FL_POSIX_def FL_FLOCK_def FL_ACCESS_def FL_EXISTS_def FL_LEASE_def FL_CLOSE_def FL_SLEEP_def

definition F_RDLCK :: u8 where "F_RDLCK = 0"
definition F_WRLCK :: u8 where "F_WRLCK = 1"
definition F_UNLCK :: u8 where "F_UNLCK = 2"

lemmas F_defs = F_RDLCK_def F_WRLCK_def F_UNLCK_def

definition LOCK_SH :: u32 where "LOCK_SH = 1"
definition LOCK_EX :: u32 where "LOCK_EX = 2"
definition LOCK_UN :: u32 where "LOCK_UN = 8"
definition LOCK_MAND :: u32 where "LOCK_MAND = 32"
definition LOCK_RW :: u32 where "LOCK_RW = 192"

definition OFFSET_MAX :: int where "OFFSET_MAX = 2 ^ 63 - 1"
definition OFFT_OFFSET_MAX :: int where "OFFT_OFFSET_MAX = 2 ^ 31 - 1"

record file_lock =
  fl_addr :: nat
  fl_owner :: nat
  fl_flags :: u8
  fl_type :: u8
  fl_pid :: u32
  fl_nspid :: "u32 option"
  fl_file :: "nat option"
  fl_start :: int
  fl_end :: int

text \<open>
  The locks of an inode and the waiting requests with the lock each waits for, newest first. The
  latter hold every \<open>fl_block\<close> list; those that wait for a POSIX lock make up \<open>blocked_list\<close>.
\<close>

record lock_state =
  i_flock :: "file_lock list"
  waiting :: "(file_lock \<times> file_lock) list"

text \<open>A call returns 0 or FILE_LOCK_DEFERRED, or an error.\<close>

datatype lock_outcome = Locked | Deferred

definition IS_POSIX :: "file_lock \<Rightarrow> bool" where "IS_POSIX fl \<longleftrightarrow> fl_flags fl AND FL_POSIX \<noteq> 0"
definition IS_FLOCK :: "file_lock \<Rightarrow> bool" where "IS_FLOCK fl \<longleftrightarrow> fl_flags fl AND FL_FLOCK \<noteq> 0"
definition IS_LEASE :: "file_lock \<Rightarrow> bool" where "IS_LEASE fl \<longleftrightarrow> fl_flags fl AND FL_LEASE \<noteq> 0"

section \<open>Copies and conversions\<close>

definition locks_init_lock :: "nat \<Rightarrow> file_lock" where
  "locks_init_lock addr =
     \<lparr>fl_addr = addr, fl_owner = 0, fl_flags = 0, fl_type = 0, fl_pid = 0, fl_nspid = None,
      fl_file = None, fl_start = 0, fl_end = 0\<rparr>"

definition locks_copy_header :: "file_lock \<Rightarrow> file_lock \<Rightarrow> file_lock" where
  "locks_copy_header new fl =
     new\<lparr>fl_owner := fl_owner fl, fl_pid := fl_pid fl, fl_file := None, fl_flags := fl_flags fl,
         fl_type := fl_type fl, fl_start := fl_start fl, fl_end := fl_end fl\<rparr>"

definition locks_copy_lock :: "file_lock \<Rightarrow> file_lock \<Rightarrow> file_lock" where
  "locks_copy_lock new fl = (locks_copy_header new fl)\<lparr>fl_file := fl_file fl\<rparr>"

definition flock_translate_cmd :: "u32 \<Rightarrow> u8 ret" where
  "flock_translate_cmd cmd =
     (if cmd AND LOCK_MAND \<noteq> 0 then Inr (ucast (cmd AND (LOCK_MAND OR LOCK_RW)))
      else if cmd = LOCK_SH then Inr F_RDLCK
      else if cmd = LOCK_EX then Inr F_WRLCK
      else if cmd = LOCK_UN then Inr F_UNLCK
      else Inl EINVAL)"

definition assign_type :: "file_lock \<Rightarrow> int \<Rightarrow> file_lock ret" where
  "assign_type fl type =
     (if type \<in> {0, 1, 2} then Inr (fl\<lparr>fl_type := word_of_int type\<rparr>) else Inl EINVAL)"

text \<open>
  The user's description of a lock. \<open>SEEK_SET\<close>, \<open>SEEK_CUR\<close> and \<open>SEEK_END\<close> are 0, 1 and 2; the file
  gives its position and size, the caller its file table and thread group id.
\<close>

record flock =
  l_type :: int
  l_whence :: int
  l_start :: int
  l_len :: int
  l_pid :: u32

record lock_file =
  lf_file :: nat
  lf_pos :: int
  lf_size :: int
  lf_read :: bool
  lf_write :: bool

text \<open>The base offset, and what follows once the sum with \<open>l_start\<close> is known; \<open>w\<close> is the width of an offset.\<close>

definition whence_base :: "nat \<Rightarrow> lock_file \<Rightarrow> flock \<Rightarrow> int ret" where
  "whence_base w filp l =
     (if l_whence l = 0 then Inr 0
      else if l_whence l = 1 then Inr (wrap_s w (lf_pos filp))
      else if l_whence l = 2 then Inr (wrap_s w (lf_size filp))
      else Inl EINVAL)"

definition lock_range :: "nat \<Rightarrow> int \<Rightarrow> flock \<Rightarrow> (int \<times> int) ret" where
  "lock_range w base l =
     (let start = wrap_s w (base + l_start l) in
      if start < 0 then Inl EINVAL
      else if l_len l > 0
      then let fin = wrap_s w (start + l_len l - 1) in
           if fin < start then Inl EOVERFLOW else Inr (start, fin)
      else if l_len l < 0
      then let fin = start - 1; start = wrap_s w (start + l_len l) in
           if start < 0 then Inl EINVAL
           else if fin < start then Inl EOVERFLOW else Inr (start, fin)
      else if OFFSET_MAX < start then Inl EOVERFLOW else Inr (start, OFFSET_MAX))"

definition to_posix_lock :: "nat \<Rightarrow> nat \<Rightarrow> u32 \<Rightarrow> lock_file \<Rightarrow> file_lock \<Rightarrow> flock \<Rightarrow> file_lock ret" where
  "to_posix_lock w files tgid filp fl l =
     (case whence_base w filp l of
        Inl e \<Rightarrow> Inl e
      | Inr base \<Rightarrow>
          (case lock_range w base l of
             Inl e \<Rightarrow> Inl e
           | Inr (start, fin) \<Rightarrow>
               assign_type (fl\<lparr>fl_start := start, fl_end := fin, fl_owner := files, fl_pid := tgid,
                               fl_file := Some (lf_file filp), fl_flags := FL_POSIX\<rparr>) (l_type l)))"

text \<open>An \<open>off_t\<close> has 32 bits on ARM, a \<open>loff_t\<close> 64.\<close>

definition flock_to_posix_lock :: "nat \<Rightarrow> u32 \<Rightarrow> lock_file \<Rightarrow> file_lock \<Rightarrow> flock \<Rightarrow> file_lock ret" where
  "flock_to_posix_lock = to_posix_lock 32"

definition flock64_to_posix_lock :: "nat \<Rightarrow> u32 \<Rightarrow> lock_file \<Rightarrow> file_lock \<Rightarrow> flock \<Rightarrow> file_lock ret" where
  "flock64_to_posix_lock = to_posix_lock 64"

definition posix_lock_to_flock64 :: "flock \<Rightarrow> file_lock \<Rightarrow> flock" where
  "posix_lock_to_flock64 l fl =
     l\<lparr>l_pid := fl_pid fl, l_start := fl_start fl,
       l_len := (if fl_end fl = OFFSET_MAX then 0 else fl_end fl - fl_start fl + 1),
       l_whence := 0, l_type := uint (fl_type fl)\<rparr>"

definition posix_lock_to_flock :: "flock \<Rightarrow> file_lock \<Rightarrow> flock ret" where
  "posix_lock_to_flock l fl =
     (if fl_start fl > OFFT_OFFSET_MAX then Inl EOVERFLOW
      else if fl_end fl \<noteq> OFFSET_MAX \<and> fl_end fl > OFFT_OFFSET_MAX then Inl EOVERFLOW
      else Inr (l\<lparr>l_pid := fl_pid fl, l_start := fl_start fl,
             l_len := (if fl_end fl = OFFSET_MAX then 0 else wrap_s 32 (fl_end fl - fl_start fl + 1)),
             l_whence := 0, l_type := uint (fl_type fl)\<rparr>))"

section \<open>Conflicts\<close>

definition locks_overlap :: "file_lock \<Rightarrow> file_lock \<Rightarrow> bool" where
  "locks_overlap fl1 fl2 \<longleftrightarrow> fl_end fl1 \<ge> fl_start fl2 \<and> fl_end fl2 \<ge> fl_start fl1"

definition posix_same_owner :: "file_lock \<Rightarrow> file_lock \<Rightarrow> bool" where
  "posix_same_owner fl1 fl2 \<longleftrightarrow> fl_owner fl1 = fl_owner fl2"

definition locks_conflict :: "file_lock \<Rightarrow> file_lock \<Rightarrow> bool" where
  "locks_conflict caller_fl sys_fl \<longleftrightarrow> fl_type sys_fl = F_WRLCK \<or> fl_type caller_fl = F_WRLCK"

definition posix_locks_conflict :: "file_lock \<Rightarrow> file_lock \<Rightarrow> bool" where
  "posix_locks_conflict caller_fl sys_fl =
     (if \<not> IS_POSIX sys_fl \<or> posix_same_owner caller_fl sys_fl then False
      else if \<not> locks_overlap caller_fl sys_fl then False
      else locks_conflict caller_fl sys_fl)"

definition flock_locks_conflict :: "file_lock \<Rightarrow> file_lock \<Rightarrow> bool" where
  "flock_locks_conflict caller_fl sys_fl =
     (if \<not> IS_FLOCK sys_fl \<or> fl_file caller_fl = fl_file sys_fl then False
      else if fl_type caller_fl AND ucast LOCK_MAND \<noteq> 0 \<or> fl_type sys_fl AND ucast LOCK_MAND \<noteq> 0 then False
      else locks_conflict caller_fl sys_fl)"

definition posix_test_lock :: "lock_state \<Rightarrow> file_lock \<Rightarrow> file_lock" where
  "posix_test_lock st fl =
     (case find (\<lambda>cfl. IS_POSIX cfl \<and> posix_locks_conflict fl cfl) (i_flock st) of
        Some cfl \<Rightarrow>
          (case fl_nspid cfl of
             Some pid \<Rightarrow> (locks_copy_header fl cfl)\<lparr>fl_pid := pid\<rparr>
           | None \<Rightarrow> locks_copy_header fl cfl)
      | None \<Rightarrow> fl\<lparr>fl_type := F_UNLCK\<rparr>)"

section \<open>Waiting\<close>

definition locks_insert_block :: "file_lock \<Rightarrow> file_lock \<Rightarrow> lock_state \<Rightarrow> lock_state" where
  "locks_insert_block blocker waiter st = st\<lparr>waiting := (waiter, blocker) # waiting st\<rparr>"

definition locks_delete_block :: "file_lock \<Rightarrow> lock_state \<Rightarrow> lock_state" where
  "locks_delete_block waiter st =
     st\<lparr>waiting := filter (\<lambda>(w, b). fl_addr w \<noteq> fl_addr waiter) (waiting st)\<rparr>"

text \<open>Waking the waiters of the locks at some addresses.\<close>

definition wake_up_blocks :: "nat list \<Rightarrow> lock_state \<Rightarrow> lock_state" where
  "wake_up_blocks addrs st = st\<lparr>waiting := filter (\<lambda>(w, b). fl_addr b \<notin> set addrs) (waiting st)\<rparr>"

definition what_owner_is_waiting_for :: "lock_state \<Rightarrow> file_lock \<Rightarrow> file_lock option" where
  "what_owner_is_waiting_for st block_fl =
     map_option snd (find (\<lambda>(w, b). IS_POSIX b \<and> posix_same_owner w block_fl) (waiting st))"

definition MAX_DEADLK_ITERATIONS :: nat where "MAX_DEADLK_ITERATIONS = 10"

function deadlock_loop :: "lock_state \<Rightarrow> file_lock \<Rightarrow> file_lock \<Rightarrow> nat \<Rightarrow> bool" where
  "deadlock_loop st caller_fl block_fl i =
     (case what_owner_is_waiting_for st block_fl of
        None \<Rightarrow> False
      | Some b \<Rightarrow>
          if i > MAX_DEADLK_ITERATIONS then False
          else if posix_same_owner caller_fl b then True
          else deadlock_loop st caller_fl b (i + 1))"
  by pat_completeness auto
termination by (relation "measure (\<lambda>(_, _, _, i). 12 - i)") (auto simp: MAX_DEADLK_ITERATIONS_def)

definition posix_locks_deadlock :: "lock_state \<Rightarrow> file_lock \<Rightarrow> file_lock \<Rightarrow> bool" where
  "posix_locks_deadlock st caller_fl block_fl = deadlock_loop st caller_fl block_fl 0"

section \<open>POSIX locks\<close>

text \<open>
  Inserting a copy of a lock, in a structure at a given address, in front of the rest of a list.
\<close>

definition locks_insert_lock :: "u32 \<Rightarrow> nat \<Rightarrow> file_lock \<Rightarrow> file_lock list \<Rightarrow> file_lock list" where
  "locks_insert_lock tgid addr fl pos = (locks_copy_lock (locks_init_lock addr) fl)\<lparr>fl_nspid := Some tgid\<rparr> # pos"

text \<open>
  The variables of the loop over the owner's locks. \<open>pl_done\<close> is the list up to \<open>before\<close>; \<open>pl_wake\<close>
  collects the locks whose waiters are woken.
\<close>

record posix_loop =
  pl_done :: "file_lock list"
  pl_request :: file_lock
  pl_added :: bool
  pl_left :: "nat option"
  pl_right :: "nat option"
  pl_wake :: "nat list"

definition next_lock :: "file_lock \<Rightarrow> posix_loop \<Rightarrow> posix_loop" where
  "next_lock fl s = s\<lparr>pl_done := pl_done s @ [fl]\<rparr>"

text \<open>\<open>request = fl; added = 1\<close>, and on to the next lock: from here the request is the list's own lock.\<close>

definition becomes_request :: "file_lock \<Rightarrow> posix_loop \<Rightarrow> posix_loop" where
  "becomes_request fl s = s\<lparr>pl_done := pl_done s @ [fl], pl_request := fl, pl_added := True\<rparr>"

text \<open>A change of the request is a change of the list's lock when the two are the same structure.\<close>

definition set_request_range :: "int \<Rightarrow> int \<Rightarrow> posix_loop \<Rightarrow> posix_loop" where
  "set_request_range start fin s =
     (let req = pl_request s; req' = req\<lparr>fl_start := start, fl_end := fin\<rparr> in
      s\<lparr>pl_request := req',
        pl_done := (if pl_added s then map (\<lambda>fl. if fl_addr fl = fl_addr req then req' else fl) (pl_done s)
                    else pl_done s)\<rparr>)"

definition wake_lock :: "file_lock \<Rightarrow> posix_loop \<Rightarrow> posix_loop" where
  "wake_lock fl s = s\<lparr>pl_wake := pl_wake s @ [fl_addr fl]\<rparr>"

text \<open>
  One round: the loop goes on with the next lock, or it leaves with this one still in front of it.
\<close>

definition merge_same_type :: "file_lock \<Rightarrow> posix_loop \<Rightarrow> posix_loop" where
  "merge_same_type fl s =
     (let req = pl_request s;
          start = (if fl_start fl > fl_start req then fl_start req else fl_start fl);
          fin = (if fl_end fl < fl_end req then fl_end req else fl_end fl) in
      if pl_added s then wake_lock fl (set_request_range start fin s)
      else becomes_request (fl\<lparr>fl_start := start, fl_end := fin\<rparr>) s)"

definition replace_other_type :: "file_lock \<Rightarrow> posix_loop \<Rightarrow> posix_loop" where
  "replace_other_type fl s =
     (let req = pl_request s in
      if pl_added s then wake_lock fl s
      else becomes_request (fl\<lparr>fl_start := fl_start req, fl_end := fl_end req, fl_type := fl_type req\<rparr>)
             (wake_lock fl s))"

definition note_overlap :: "file_lock \<Rightarrow> posix_loop \<Rightarrow> posix_loop" where
  "note_overlap fl s =
     s\<lparr>pl_added := (pl_added s \<or> fl_type (pl_request s) = F_UNLCK),
       pl_left := (if fl_start fl < fl_start (pl_request s) then Some (fl_addr fl) else pl_left s)\<rparr>"

fun own_locks :: "posix_loop \<Rightarrow> file_lock list \<Rightarrow> posix_loop \<times> file_lock list" where
  "own_locks s [] = (s, [])"
| "own_locks s (fl # rest) =
     (let req = pl_request s in
      if \<not> posix_same_owner req fl then (s, fl # rest)
      else if fl_type req = fl_type fl then
        if fl_end fl < fl_start req - 1 then own_locks (next_lock fl s) rest
        else if fl_start fl - 1 > fl_end req then (s, fl # rest)
        else own_locks (merge_same_type fl s) rest
      else
        if fl_end fl < fl_start req then own_locks (next_lock fl s) rest
        else if fl_start fl > fl_end req then (s, fl # rest)
        else if fl_end fl > fl_end req
             then ((note_overlap fl s)\<lparr>pl_right := Some (fl_addr fl)\<rparr>, fl # rest)
             else if fl_start fl \<ge> fl_start req
                  then own_locks (replace_other_type fl (note_overlap fl s)) rest
                  else own_locks (next_lock fl (note_overlap fl s)) rest)"

text \<open>
  After the loop: \<open>pos\<close> is the list from \<open>before\<close> on, with the right-hand lock, if any, in front.
  The list, changed in place by the loop, is returned on the error exits as well.
\<close>

definition modify_lock :: "nat option \<Rightarrow> (file_lock \<Rightarrow> file_lock) \<Rightarrow> file_lock list \<Rightarrow> file_lock list" where
  "modify_lock addr f = map (\<lambda>fl. if addr = Some (fl_addr fl) then f fl else fl)"

definition insert_left_piece :: "u32 \<Rightarrow> nat \<Rightarrow> nat option \<Rightarrow> file_lock list \<Rightarrow> file_lock list \<Rightarrow> file_lock list" where
  "insert_left_piece tgid addr right pos ls =
     (case find (\<lambda>fl. right = Some (fl_addr fl)) pos of
        Some fl \<Rightarrow> locks_insert_lock tgid addr fl ls
      | None \<Rightarrow> ls)"

definition split_and_trim :: "u32 \<Rightarrow> nat option \<Rightarrow> posix_loop \<Rightarrow> file_lock list \<Rightarrow> file_lock list \<Rightarrow> file_lock list \<times> nat list" where
  "split_and_trim tgid new_fl2 s pos inserted =
     (let req = pl_request s;
          split = (pl_right s \<noteq> None \<and> pl_left s = pl_right s);
          left = (if split then new_fl2 else pl_left s);
          tail = (case (split, new_fl2) of
                    (True, Some addr) \<Rightarrow> insert_left_piece tgid addr (pl_right s) pos inserted
                  | _ \<Rightarrow> inserted);
          ls = modify_lock (pl_right s) (\<lambda>fl. fl\<lparr>fl_start := fl_end req + 1\<rparr>) (pl_done s @ tail);
          ls' = modify_lock left (\<lambda>fl. fl\<lparr>fl_end := fl_start req - 1\<rparr>) ls in
      (ls', pl_wake s @ (case pl_right s of Some a \<Rightarrow> [a] | None \<Rightarrow> [])
                      @ (case left of Some a \<Rightarrow> [a] | None \<Rightarrow> [])))"

definition finish_lock ::
  "u32 \<Rightarrow> nat option \<Rightarrow> nat option \<Rightarrow> posix_loop \<times> file_lock list \<Rightarrow> lock_state \<Rightarrow> lock_outcome ret \<times> lock_state" where
  "finish_lock tgid new_fl new_fl2 loop st =
     (let s = fst loop; pos = snd loop; req = pl_request s;
          bail = (\<lambda>r. (r, wake_up_blocks (pl_wake s) (st\<lparr>i_flock := pl_done s @ pos\<rparr>)));
          commit = (\<lambda>inserted.
            let (ls, wake) = split_and_trim tgid new_fl2 s pos inserted in
            (Inr Locked, wake_up_blocks wake (st\<lparr>i_flock := ls\<rparr>))) in
      if pl_right s \<noteq> None \<and> pl_left s = pl_right s \<and> new_fl2 = None then bail (Inl ENOLCK)
      else if \<not> pl_added s then
        if fl_type req = F_UNLCK
        then bail (if fl_flags req AND FL_EXISTS \<noteq> 0 then Inl ENOENT else Inr Locked)
        else (case new_fl of
                None \<Rightarrow> bail (Inl ENOLCK)
              | Some addr \<Rightarrow> commit (locks_insert_lock tgid addr req pos))
      else commit pos)"

definition conflicting_lock :: "file_lock \<Rightarrow> lock_state \<Rightarrow> file_lock option" where
  "conflicting_lock request st =
     (if fl_type request = F_UNLCK then None
      else find (\<lambda>fl. IS_POSIX fl \<and> posix_locks_conflict request fl) (i_flock st))"

definition block_on_conflict :: "file_lock \<Rightarrow> file_lock \<Rightarrow> lock_state \<Rightarrow> lock_outcome ret \<times> lock_state" where
  "block_on_conflict request fl st =
     (if fl_flags request AND FL_SLEEP = 0 then (Inl EAGAIN, st)
      else if posix_locks_deadlock st request fl then (Inl EDEADLK, st)
      else (Inr Deferred, locks_insert_block fl request st))"

definition skip_others :: "file_lock \<Rightarrow> file_lock list \<Rightarrow> file_lock list" where
  "skip_others request = takeWhile (\<lambda>fl. \<not> IS_POSIX fl \<or> \<not> posix_same_owner request fl)"

definition own_locks_on :: "file_lock \<Rightarrow> file_lock list \<Rightarrow> posix_loop \<times> file_lock list" where
  "own_locks_on request ls =
     (let others = skip_others request ls in
      own_locks \<lparr>pl_done = others, pl_request = request, pl_added = False, pl_left = None,
                 pl_right = None, pl_wake = []\<rparr> (drop (length others) ls))"

definition needs_new_locks :: "file_lock \<Rightarrow> bool" where
  "needs_new_locks request \<longleftrightarrow>
     fl_flags request AND FL_ACCESS = 0 \<and>
     (fl_type request \<noteq> F_UNLCK \<or> fl_start request \<noteq> 0 \<or> fl_end request \<noteq> OFFSET_MAX)"

text \<open>\<open>alloc\<close> and \<open>alloc2\<close> are the addresses the two allocations yield, if they succeed.\<close>

definition posix_lock_file ::
  "u32 \<Rightarrow> nat option \<Rightarrow> nat option \<Rightarrow> file_lock \<Rightarrow> lock_state \<Rightarrow> lock_outcome ret \<times> lock_state" where
  "posix_lock_file tgid alloc alloc2 request st =
     (let new_fl = (if needs_new_locks request then alloc else None);
          new_fl2 = (if needs_new_locks request then alloc2 else None) in
      case conflicting_lock request st of
        Some fl \<Rightarrow> block_on_conflict request fl st
      | None \<Rightarrow>
          if fl_flags request AND FL_ACCESS \<noteq> 0 then (Inr Locked, st)
          else finish_lock tgid new_fl new_fl2 (own_locks_on request (i_flock st)) st)"

text \<open>The copy of the conflicting lock for a caller that asks for one.\<close>

definition posix_lock_conflock :: "file_lock \<Rightarrow> file_lock \<Rightarrow> lock_state \<Rightarrow> file_lock" where
  "posix_lock_conflock conflock request st =
     (case conflicting_lock request st of
        Some fl \<Rightarrow> locks_copy_header conflock fl
      | None \<Rightarrow> conflock)"

section \<open>flock locks\<close>

text \<open>
  The search for the file's own flock lock: none before the POSIX locks, one of the requested type,
  or one to delete, with what is in front of it and behind it.
\<close>

datatype flock_search = No_Flock | Same_Flock | Old_Flock "file_lock list" file_lock "file_lock list"

fun find_flock :: "nat \<Rightarrow> u8 \<Rightarrow> file_lock list \<Rightarrow> file_lock list \<Rightarrow> flock_search" where
  "find_flock filp ty front [] = No_Flock"
| "find_flock filp ty front (fl # rest) =
     (if IS_POSIX fl then No_Flock
      else if IS_LEASE fl \<or> fl_file fl \<noteq> Some filp then find_flock filp ty (front @ [fl]) rest
      else if ty = fl_type fl then Same_Flock
      else Old_Flock front fl rest)"

definition flock_conflict :: "file_lock \<Rightarrow> file_lock list \<Rightarrow> file_lock option" where
  "flock_conflict request ls =
     find (\<lambda>fl. \<not> IS_LEASE fl \<and> flock_locks_conflict request fl) (takeWhile (\<lambda>fl. \<not> IS_POSIX fl) ls)"

definition flock_acquire :: "u32 \<Rightarrow> nat option \<Rightarrow> file_lock \<Rightarrow> lock_state \<Rightarrow> lock_outcome ret \<times> lock_state" where
  "flock_acquire tgid new_fl request st =
     (case flock_conflict request (i_flock st) of
        Some fl \<Rightarrow>
          if fl_flags request AND FL_SLEEP = 0 then (Inl EAGAIN, st)
          else (Inr Deferred, locks_insert_block fl request st)
      | None \<Rightarrow>
          (case (fl_flags request AND FL_ACCESS \<noteq> 0, new_fl) of
             (False, Some addr) \<Rightarrow>
               (Inr Locked,
                st\<lparr>i_flock := takeWhile (\<lambda>fl. \<not> IS_POSIX fl) (i_flock st) @
                     locks_insert_lock tgid addr request (dropWhile (\<lambda>fl. \<not> IS_POSIX fl) (i_flock st))\<rparr>)
           | _ \<Rightarrow> (Inr Locked, st)))"

text \<open>The kernel lock can be dropped at \<open>cond_resched\<close>; \<open>resched\<close> is what others do to the state then.\<close>

definition flock_lock_file ::
  "u32 \<Rightarrow> nat option \<Rightarrow> (lock_state \<Rightarrow> lock_state) \<Rightarrow> nat \<Rightarrow> file_lock \<Rightarrow> lock_state \<Rightarrow> lock_outcome ret \<times> lock_state" where
  "flock_lock_file tgid alloc resched filp request st =
     (if fl_flags request AND FL_ACCESS \<noteq> 0 then flock_acquire tgid None request st
      else if fl_type request \<noteq> F_UNLCK \<and> alloc = None then (Inl ENOMEM, st)
      else
        case find_flock filp (fl_type request) [] (i_flock st) of
          Same_Flock \<Rightarrow> (Inr Locked, st)
        | No_Flock \<Rightarrow>
            if fl_type request = F_UNLCK
            then (if fl_flags request AND FL_EXISTS \<noteq> 0 then Inl ENOENT else Inr Locked, st)
            else flock_acquire tgid alloc request st
        | Old_Flock front fl rest \<Rightarrow>
            (let st' = wake_up_blocks [fl_addr fl] (st\<lparr>i_flock := front @ rest\<rparr>) in
             if fl_type request = F_UNLCK then (Inr Locked, st')
             else flock_acquire tgid alloc request (resched st')))"

section \<open>Closing, mandatory locks\<close>

definition locks_remove_posix :: "u32 \<Rightarrow> nat \<Rightarrow> nat \<Rightarrow> nat \<Rightarrow> lock_state \<Rightarrow> lock_state" where
  "locks_remove_posix tgid addr filp owner st =
     (if i_flock st = [] then st
      else snd (posix_lock_file tgid None None
             \<lparr>fl_addr = addr, fl_owner = owner, fl_flags = FL_POSIX OR FL_CLOSE, fl_type = F_UNLCK,
              fl_pid = tgid, fl_nspid = None, fl_file = Some filp, fl_start = 0, fl_end = OFFSET_MAX\<rparr> st))"

text \<open>\<open>None\<close> stands for the BUG() at a POSIX lock of the file.\<close>

fun remove_flocks :: "nat \<Rightarrow> file_lock list \<Rightarrow> (file_lock list \<times> nat list) option" where
  "remove_flocks filp [] = Some ([], [])"
| "remove_flocks filp (fl # rest) =
     (if fl_file fl = Some filp then
        if IS_FLOCK fl \<or> IS_LEASE fl
        then map_option (\<lambda>(ls, wake). (ls, fl_addr fl # wake)) (remove_flocks filp rest)
        else None
      else map_option (\<lambda>(ls, wake). (fl # ls, wake)) (remove_flocks filp rest))"

definition locks_remove_flock :: "nat \<Rightarrow> lock_state \<Rightarrow> lock_state option" where
  "locks_remove_flock filp st =
     map_option (\<lambda>(ls, wake). wake_up_blocks wake (st\<lparr>i_flock := ls\<rparr>)) (remove_flocks filp (i_flock st))"

definition posix_unblock_lock :: "file_lock \<Rightarrow> lock_state \<Rightarrow> unit ret \<times> lock_state" where
  "posix_unblock_lock waiter st =
     (if \<exists>(w, b) \<in> set (waiting st). fl_addr w = fl_addr waiter
      then (Inr (), locks_delete_block waiter st) else (Inl ENOENT, st))"

definition locks_mandatory_locked :: "nat \<Rightarrow> lock_state \<Rightarrow> unit ret" where
  "locks_mandatory_locked files st =
     (case find (\<lambda>fl. IS_POSIX fl \<and> fl_owner fl \<noteq> files) (i_flock st) of
        Some fl \<Rightarrow> Inl EAGAIN | None \<Rightarrow> Inr ())"

text \<open>Candidates for mandatory locking have the setgid bit but no group execute bit.\<close>

definition mandatory_lock :: "bool \<Rightarrow> u16 \<Rightarrow> bool" where
  "mandatory_lock mandlock_mount mode \<longleftrightarrow> mandlock_mount \<and> mode AND (S_ISGID OR S_IXGRP) = S_ISGID"

definition locks_verify_locked :: "bool \<Rightarrow> u16 \<Rightarrow> nat \<Rightarrow> lock_state \<Rightarrow> unit ret" where
  "locks_verify_locked mandlock_mount mode files st =
     (if mandatory_lock mandlock_mount mode then locks_mandatory_locked files st else Inr ())"

section \<open>Calls that wait\<close>

text \<open>
  A sleeping caller goes on when it is woken or signalled. The events list what happens, each with the
  state the others have made and, when the call is tried again, what its allocations yield; the call
  has not returned (\<open>None\<close>) when it sleeps and the events are over.
\<close>

datatype lock_event = Woken lock_state "nat option" "nat option" | Signalled lock_state

fun posix_lock_file_wait ::
  "u32 \<Rightarrow> nat option \<Rightarrow> nat option \<Rightarrow> file_lock \<Rightarrow> lock_state \<Rightarrow> lock_event list \<Rightarrow> (unit ret \<times> lock_state) option" where
  "posix_lock_file_wait tgid alloc alloc2 fl st events =
     (case posix_lock_file tgid alloc alloc2 fl st of
        (Inl e, st') \<Rightarrow> Some (Inl e, st')
      | (Inr Locked, st') \<Rightarrow> Some (Inr (), st')
      | (Inr Deferred, st') \<Rightarrow>
          (case events of
             [] \<Rightarrow> None
           | Signalled now # _ \<Rightarrow> Some (Inl ERESTARTSYS, locks_delete_block fl now)
           | Woken now a a2 # rest \<Rightarrow> posix_lock_file_wait tgid a a2 fl now rest))"

text \<open>Local file systems have no \<open>lock\<close> method and there is no security module: the same loop.\<close>

definition do_lock_file_wait ::
  "u32 \<Rightarrow> nat option \<Rightarrow> nat option \<Rightarrow> file_lock \<Rightarrow> lock_state \<Rightarrow> lock_event list \<Rightarrow> (unit ret \<times> lock_state) option" where
  "do_lock_file_wait = posix_lock_file_wait"

fun flock_lock_file_wait ::
  "u32 \<Rightarrow> nat option \<Rightarrow> (lock_state \<Rightarrow> lock_state) \<Rightarrow> nat \<Rightarrow> file_lock \<Rightarrow> lock_state \<Rightarrow> lock_event list \<Rightarrow> (unit ret \<times> lock_state) option" where
  "flock_lock_file_wait tgid alloc resched filp fl st events =
     (case flock_lock_file tgid alloc resched filp fl st of
        (Inl e, st') \<Rightarrow> Some (Inl e, st')
      | (Inr Locked, st') \<Rightarrow> Some (Inr (), st')
      | (Inr Deferred, st') \<Rightarrow>
          (case events of
             [] \<Rightarrow> None
           | Signalled now # _ \<Rightarrow> Some (Inl ERESTARTSYS, locks_delete_block fl now)
           | Woken now a _ # rest \<Rightarrow> flock_lock_file_wait tgid a resched filp fl now rest))"

section \<open>System calls\<close>

definition flock_make_lock :: "nat \<Rightarrow> u32 \<Rightarrow> nat option \<Rightarrow> u32 \<Rightarrow> file_lock ret" where
  "flock_make_lock filp tgid alloc cmd =
     (case flock_translate_cmd cmd of
        Inl e \<Rightarrow> Inl e
      | Inr ty \<Rightarrow>
          (case alloc of
             None \<Rightarrow> Inl ENOMEM
           | Some addr \<Rightarrow>
               Inr ((locks_init_lock addr)\<lparr>fl_file := Some filp, fl_pid := tgid, fl_flags := FL_FLOCK,
                      fl_type := ty, fl_end := OFFSET_MAX\<rparr>)))"

definition LOCK_NB :: u32 where "LOCK_NB = 4"

definition sys_flock ::
  "u32 \<Rightarrow> nat option \<Rightarrow> nat option \<Rightarrow> (lock_state \<Rightarrow> lock_state) \<Rightarrow> lock_file option \<Rightarrow> u32 \<Rightarrow> lock_state \<Rightarrow> lock_event list
     \<Rightarrow> (unit ret \<times> lock_state) option" where
  "sys_flock tgid alloc alloc_new resched file cmd st events =
     (case file of
        None \<Rightarrow> Some (Inl EBADF, st)
      | Some filp \<Rightarrow>
          (let can_sleep = (cmd AND LOCK_NB = 0); cmd = cmd AND NOT LOCK_NB in
           if cmd \<noteq> LOCK_UN \<and> cmd AND LOCK_MAND = 0 \<and> \<not> lf_read filp \<and> \<not> lf_write filp then Some (Inl EBADF, st)
           else
             case flock_make_lock (lf_file filp) tgid alloc cmd of
               Inl e \<Rightarrow> Some (Inl e, st)
             | Inr fl \<Rightarrow>
                 flock_lock_file_wait tgid alloc_new resched (lf_file filp)
                   (if can_sleep then fl\<lparr>fl_flags := fl_flags fl OR FL_SLEEP\<rparr> else fl) st events))"

text \<open>Both widths of F_GETLK, given the conversion from and to the user's structure.\<close>

definition getlk ::
  "(lock_file \<Rightarrow> file_lock \<Rightarrow> flock \<Rightarrow> file_lock ret) \<Rightarrow> (flock \<Rightarrow> file_lock \<Rightarrow> flock ret) \<Rightarrow>
   lock_file \<Rightarrow> flock option \<Rightarrow> bool \<Rightarrow> file_lock \<Rightarrow> lock_state \<Rightarrow> flock ret" where
  "getlk from_user to_user filp user copy_out stack st =
     (case user of
        None \<Rightarrow> Inl EFAULT
      | Some l \<Rightarrow>
          if l_type l \<noteq> 0 \<and> l_type l \<noteq> 1 then Inl EINVAL
          else
            case from_user filp stack l of
              Inl e \<Rightarrow> Inl e
            | Inr fl \<Rightarrow>
                (let fl = posix_test_lock st fl; l = l\<lparr>l_type := uint (fl_type fl)\<rparr> in
                 case if fl_type fl \<noteq> F_UNLCK then to_user l fl else Inr l of
                   Inl e \<Rightarrow> Inl e
                 | Inr l \<Rightarrow> if copy_out then Inr l else Inl EFAULT))"

definition fcntl_getlk :: "nat \<Rightarrow> u32 \<Rightarrow> lock_file \<Rightarrow> flock option \<Rightarrow> bool \<Rightarrow> file_lock \<Rightarrow> lock_state \<Rightarrow> flock ret" where
  "fcntl_getlk files tgid = getlk (flock_to_posix_lock files tgid) posix_lock_to_flock"

definition fcntl_getlk64 :: "nat \<Rightarrow> u32 \<Rightarrow> lock_file \<Rightarrow> flock option \<Rightarrow> bool \<Rightarrow> file_lock \<Rightarrow> lock_state \<Rightarrow> flock ret" where
  "fcntl_getlk64 files tgid = getlk (flock64_to_posix_lock files tgid) (\<lambda>l fl. Inr (posix_lock_to_flock64 l fl))"

text \<open>The request of F_SETLK and F_SETLKW, and the test of the open mode.\<close>

definition setlk_request ::
  "(lock_file \<Rightarrow> file_lock \<Rightarrow> flock \<Rightarrow> file_lock ret) \<Rightarrow> bool \<Rightarrow> lock_file \<Rightarrow> file_lock \<Rightarrow> flock \<Rightarrow> file_lock ret" where
  "setlk_request from_user setlkw filp file_lock l =
     (case from_user filp file_lock l of
        Inl e \<Rightarrow> Inl e
      | Inr fl \<Rightarrow>
          if l_type l = 0 \<and> \<not> lf_read filp then Inl EBADF
          else if l_type l = 1 \<and> \<not> lf_write filp then Inl EBADF
          else Inr (if setlkw then fl\<lparr>fl_flags := fl_flags fl OR FL_SLEEP\<rparr> else fl))"

text \<open>
  The call ends with a look at the descriptor: when it was closed meanwhile (\<open>closed\<close>), the lock just
  acquired is released again. \<open>others\<close> is what happens to the state, \<open>filp'\<close> the file, at that point.
\<close>

definition setlk ::
  "(lock_file \<Rightarrow> file_lock \<Rightarrow> flock \<Rightarrow> file_lock ret) \<Rightarrow> bool \<Rightarrow> u32 \<Rightarrow> nat option \<Rightarrow> bool \<Rightarrow> lock_file \<Rightarrow> flock option \<Rightarrow>
   nat option \<Rightarrow> nat option \<Rightarrow> lock_event list \<Rightarrow> bool \<Rightarrow> (lock_state \<Rightarrow> lock_state) \<Rightarrow> lock_file \<Rightarrow> nat option \<Rightarrow> nat option \<Rightarrow>
   lock_state \<Rightarrow> (unit ret \<times> lock_state) option" where
  "setlk from_user setlkw tgid alloc mandatory_mapped filp user new_fl new_fl2 events closed others filp' new_fl' new_fl2' st =
     (case alloc of
        None \<Rightarrow> Some (Inl ENOLCK, st)
      | Some addr \<Rightarrow>
          (case user of
             None \<Rightarrow> Some (Inl EFAULT, st)
           | Some l \<Rightarrow>
               if mandatory_mapped then Some (Inl EAGAIN, st)
               else
                 case setlk_request from_user setlkw filp (locks_init_lock addr) l of
                   Inl e \<Rightarrow> Some (Inl e, st)
                 | Inr fl \<Rightarrow>
                     (case do_lock_file_wait tgid new_fl new_fl2 fl st events of
                        None \<Rightarrow> None
                      | Some (r, st') \<Rightarrow>
                          if r = Inr () \<and> closed \<and> l_type l \<noteq> 2
                          then
                            (case setlk_request from_user setlkw filp' fl (l\<lparr>l_type := 2\<rparr>) of
                               Inl e \<Rightarrow> Some (Inl e, others st')
                             | Inr unlock \<Rightarrow> do_lock_file_wait tgid new_fl' new_fl2' unlock (others st') [])
                          else Some (r, st'))))"

definition fcntl_setlk where "fcntl_setlk files tgid setlkw = setlk (flock_to_posix_lock files tgid) setlkw tgid"

definition fcntl_setlk64 where "fcntl_setlk64 files tgid setlkw = setlk (flock64_to_posix_lock files tgid) setlkw tgid"

declare deadlock_loop.simps [simp del]
declare posix_lock_file_wait.simps [simp del]
declare flock_lock_file_wait.simps [simp del]

end
