(* ===== verification/Lock_Coverage.thy ===== *)
theory Lock_Coverage
  imports File_Locks
begin

text \<open>
  The reference for POSIX locks: \<open>cover\<close> cuts a range out of an owner's sorted ranges and puts the new
  one in, joined with neighbours of its type. Its meaning for each byte is \<open>cover_type_at\<close>, and it
  keeps the ranges sorted, disjoint and coalesced (\<open>cover_ranges_ok\<close>).
\<close>

section \<open>The reference: covering a range\<close>

type_synonym range = "int \<times> int \<times> u8"

definition rng :: "file_lock \<Rightarrow> range" where "rng fl = (fl_start fl, fl_end fl, fl_type fl)"

definition cut_left :: "int \<Rightarrow> range list \<Rightarrow> range list" where
  "cut_left s R = map (\<lambda>(a, b, ty). (a, min b (s - 1), ty)) (filter (\<lambda>(a, b, ty). a < s) R)"

definition cut_right :: "int \<Rightarrow> range list \<Rightarrow> range list" where
  "cut_right e R = map (\<lambda>(a, b, ty). (max a (e + 1), b, ty)) (filter (\<lambda>(a, b, ty). e < b) R)"

text \<open>Concatenation that joins two touching ranges of one type at the seam.\<close>

fun join :: "range list \<Rightarrow> range list \<Rightarrow> range list" where
  "join [] R = R"
| "join [x] [] = [x]"
| "join [(a, b, ty)] ((a', b', ty') # R) =
     (if ty = ty' \<and> a' = b + 1 then (a, b', ty) # R else (a, b, ty) # (a', b', ty') # R)"
| "join (x # y # L) R = x # join (y # L) R"

definition cover :: "int \<Rightarrow> int \<Rightarrow> u8 \<Rightarrow> range list \<Rightarrow> range list" where
  "cover s e t R =
     join (cut_left s R) (join (if t = F_UNLCK then [] else [(s, e, t)]) (cut_right e R))"

text \<open>The ranges of one owner: sorted, disjoint, and ranges of one type never touch.\<close>

definition apart :: "range \<Rightarrow> range \<Rightarrow> bool" where
  "apart x y \<longleftrightarrow>
     fst (snd x) < fst y \<and> (snd (snd x) = snd (snd y) \<longrightarrow> fst (snd x) + 1 < fst y)"

definition ranges_ok :: "range list \<Rightarrow> bool" where
  "ranges_ok R \<longleftrightarrow> sorted_wrt apart R \<and> (\<forall>(a, b, ty) \<in> set R. a \<le> b \<and> ty \<in> {F_RDLCK, F_WRLCK})"

lemma ranges_ok_Cons [simp]:
  "ranges_ok ((a, b, ty) # R) \<longleftrightarrow>
     a \<le> b \<and> ty \<in> {F_RDLCK, F_WRLCK} \<and> (\<forall>y \<in> set R. apart (a, b, ty) y) \<and> ranges_ok R"
  by (auto simp: ranges_ok_def)

lemma ranges_ok_Nil [simp]: "ranges_ok []"
  by (simp add: ranges_ok_def)

lemma cut_left_Nil [simp]: "cut_left s [] = []"
  by (simp add: cut_left_def)

lemma cut_right_Nil [simp]: "cut_right e [] = []"
  by (simp add: cut_right_def)

lemma cut_left_Cons [simp]:
  "cut_left s ((a, b, ty) # R) = (if a < s then (a, min b (s - 1), ty) # cut_left s R else cut_left s R)"
  by (simp add: cut_left_def)

lemma cut_right_Cons [simp]:
  "cut_right e ((a, b, ty) # R) = (if e < b then (max a (e + 1), b, ty) # cut_right e R else cut_right e R)"
  by (simp add: cut_right_def)

lemma cut_left_beyond: "\<forall>y \<in> set R. s \<le> fst y \<Longrightarrow> cut_left s R = []"
  by (auto simp: cut_left_def filter_empty_conv)

lemma ranges_okD: "ranges_ok R \<Longrightarrow> (a, b, ty) \<in> set R \<Longrightarrow> a \<le> b \<and> ty \<in> {F_RDLCK, F_WRLCK}"
  by (auto simp: ranges_ok_def)

lemma cut_right_beyond: "ranges_ok R \<Longrightarrow> \<forall>y \<in> set R. e < fst y \<Longrightarrow> cut_right e R = R"
proof (induction R)
  case (Cons y R)
  then show ?case by (cases y) auto
qed simp

lemma beyond_after: "ranges_ok ((a, b, ty) # R) \<Longrightarrow> y \<in> set R \<Longrightarrow> b < fst y"
  by (auto simp: apart_def)

lemma join_single:
  "join [x] R =
     (if R \<noteq> [] \<and> snd (snd x) = snd (snd (hd R)) \<and> fst (hd R) = fst (snd x) + 1
      then (fst x, fst (snd (hd R)), snd (snd x)) # tl R else x # R)"
proof (cases R)
  case Nil
  then show ?thesis by simp
next
  case (Cons y R')
  then show ?thesis by (cases x; cases y) auto
qed

lemma join_Cons_apart: "R \<noteq> [] \<Longrightarrow> \<not> (snd (snd x) = snd (snd (hd R)) \<and> fst (hd R) = fst (snd x) + 1) \<Longrightarrow> join [x] R = x # R"
  by (auto simp: join_single)

lemma join_single_apart: "\<forall>y \<in> set R. apart x y \<Longrightarrow> join [x] R = x # R"
  by (cases R) (auto simp: join_single apart_def)

lemma join_Cons: "L \<noteq> [] \<Longrightarrow> join (x # L) R = x # join L R"
  by (cases L) simp_all

lemma join_hd: "fst (hd (join [x] R)) = fst x" "snd (snd (hd (join [x] R))) = snd (snd x)" "join [x] R \<noteq> []"
  by (simp_all add: join_single)

lemma cover_beyond:
  assumes "ranges_ok R" "s \<le> e" "\<forall>y \<in> set R. apart (s, e, t) y"
  shows "cover s e t R = (if t = F_UNLCK then [] else [(s, e, t)]) @ R"
proof -
  have "\<forall>y \<in> set R. e < fst y" using assms(3) by (auto simp: apart_def)
  then have "cut_left s R = []" "cut_right e R = R"
    using assms cut_left_beyond [of R s] cut_right_beyond [of R e] by force+
  then show ?thesis using join_single_apart [OF assms(3)] by (simp add: cover_def)
qed

lemma cut_right_lower: "y \<in> set (cut_right e R) \<Longrightarrow> e < fst y"
  by (auto simp: cut_right_def)

lemma cover_skip:
  assumes "b < s" "a \<le> b" "ty = t \<longrightarrow> b < s - 1" "s \<le> e"
  shows "cover s e t ((a, b, ty) # R) = (a, b, ty) # cover s e t R"
proof -
  define M where "M = join (if t = F_UNLCK then [] else [(s, e, t)]) (cut_right e R)"
  have "join [(a, b, ty)] M = (a, b, ty) # M"
  proof (cases "M = []")
    case False
    have "\<not> (ty = snd (snd (hd M)) \<and> fst (hd M) = b + 1)"
    proof (cases "t = F_UNLCK")
      case True
      then have "hd M \<in> set (cut_right e R)" using False by (simp add: M_def)
      then show ?thesis using cut_right_lower [of "hd M" e R] assms by auto
    next
      case False
      then show ?thesis using assms join_hd [of "(s, e, t)" "cut_right e R"] by (auto simp: M_def)
    qed
    then show ?thesis using False by (intro join_Cons_apart) auto
  qed simp
  moreover have "cover s e t ((a, b, ty) # R) = join ((a, b, ty) # cut_left s R) M"
    using assms by (simp add: cover_def M_def min_def)
  ultimately show ?thesis
    by (cases "cut_left s R = []") (auto simp: cover_def M_def join_Cons)
qed

lemma cover_inside: "a \<ge> s \<Longrightarrow> b \<le> e \<Longrightarrow> cover s e t ((a, b, ty) # R) = cover s e t R"
  by (simp add: cover_def)

lemma cover_merge:
  assumes "ranges_ok ((a, b, t) # R)" "s \<le> e" "s - 1 \<le> b" "a \<le> e + 1"
  shows "cover s e t ((a, b, t) # R) = cover (min s a) (max e b) t R"
proof -
  have t: "t \<noteq> F_UNLCK" using assms(1) by (auto simp: F_defs)
  have after: "\<forall>y \<in> set R. b < fst y" using assms(1) beyond_after by blast
  then have L: "cut_left s R = []" "cut_left (min s a) R = []"
    using assms by (auto intro!: cut_left_beyond)
  have ok: "ranges_ok R" "\<forall>y \<in> set R. apart (a, b, t) y" using assms(1) by auto
  have R: "b > e \<Longrightarrow> cut_right e R = R \<and> cut_right b R = R"
    using after ok(1) by (auto intro!: cut_right_beyond)
  have j: "join [(x, b, t)] R = (x, b, t) # R" for x
    using ok(2) by (intro join_single_apart) (auto simp: apart_def)
  show ?thesis
  proof (cases "b > e")
    case True
    then show ?thesis using assms t L R j by (auto simp: cover_def min_def max_def)
  next
    case False
    then show ?thesis using assms t L
      by (cases "cut_right e R") (auto simp: cover_def min_def max_def)
  qed
qed

lemma cover_left:
  assumes "ranges_ok ((a, b, ty) # R)" "a < s" "s \<le> b" "b \<le> e" "ty \<noteq> t"
  shows "cover s e t ((a, b, ty) # R) = (a, s - 1, ty) # cover s e t R"
proof -
  have "\<forall>y \<in> set R. s \<le> fst y" using assms beyond_after [OF assms(1)] by fastforce
  then have L: "cut_left s R = []" by (rule cut_left_beyond)
  define M where "M = join (if t = F_UNLCK then [] else [(s, e, t)]) (cut_right e R)"
  have "join [(a, s - 1, ty)] M = (a, s - 1, ty) # M"
  proof (cases "t = F_UNLCK")
    case True
    then have "\<forall>y \<in> set M. e < fst y" using cut_right_lower by (auto simp: M_def)
    then show ?thesis using assms by (cases M) auto
  next
    case False
    then show ?thesis using assms join_hd [of "(s, e, t)" "cut_right e R"]
      by (intro join_Cons_apart) (auto simp: M_def)
  qed
  then show ?thesis using assms L by (simp add: cover_def M_def min_def)
qed

lemma cover_right:
  assumes "ranges_ok ((a, b, ty) # R)" "a \<le> e" "e < b" "s \<le> e" "ty \<noteq> t"
  shows "cover s e t ((a, b, ty) # R) =
    (if a < s then [(a, s - 1, ty)] else []) @ (if t = F_UNLCK then [] else [(s, e, t)]) @ (e + 1, b, ty) # R"
proof -
  have after: "\<forall>y \<in> set R. b < fst y" using beyond_after [OF assms(1)] by blast
  then have L: "cut_left s R = []" using assms by (intro cut_left_beyond) auto
  have R: "cut_right e R = R" using after assms by (intro cut_right_beyond) auto
  show ?thesis using assms L R by (auto simp: cover_def min_def max_def)
qed

text \<open>The cases the loop distinguishes, as an induction rule over the ranges.\<close>

lemma cover_induct [consumes 2, case_names Beyond Skip Merge Right Inside Left]:
  assumes ok: "ranges_ok R" "s \<le> e"
  assumes Beyond: "\<And>s e R. ranges_ok R \<Longrightarrow> s \<le> e \<Longrightarrow> \<forall>y \<in> set R. apart (s, e, t) y \<Longrightarrow> P s e R"
  assumes Skip: "\<And>s e a b ty R. ranges_ok ((a, b, ty) # R) \<Longrightarrow> s \<le> e \<Longrightarrow> b < s \<Longrightarrow> (ty = t \<longrightarrow> b < s - 1) \<Longrightarrow>
                   P s e R \<Longrightarrow> P s e ((a, b, ty) # R)"
  assumes Merge: "\<And>s e a b R. ranges_ok ((a, b, t) # R) \<Longrightarrow> s \<le> e \<Longrightarrow> s - 1 \<le> b \<Longrightarrow> a \<le> e + 1 \<Longrightarrow>
                   P (min s a) (max e b) R \<Longrightarrow> P s e ((a, b, t) # R)"
  assumes Right: "\<And>s e a b ty R. ranges_ok ((a, b, ty) # R) \<Longrightarrow> s \<le> e \<Longrightarrow> a \<le> e \<Longrightarrow> e < b \<Longrightarrow> ty \<noteq> t \<Longrightarrow>
                   P s e ((a, b, ty) # R)"
  assumes Inside: "\<And>s e a b ty R. ranges_ok ((a, b, ty) # R) \<Longrightarrow> s \<le> e \<Longrightarrow> s \<le> a \<Longrightarrow> b \<le> e \<Longrightarrow> ty \<noteq> t \<Longrightarrow>
                   P s e R \<Longrightarrow> P s e ((a, b, ty) # R)"
  assumes Left: "\<And>s e a b ty R. ranges_ok ((a, b, ty) # R) \<Longrightarrow> s \<le> e \<Longrightarrow> a < s \<Longrightarrow> s \<le> b \<Longrightarrow> b \<le> e \<Longrightarrow>
                   ty \<noteq> t \<Longrightarrow> P s e R \<Longrightarrow> P s e ((a, b, ty) # R)"
  shows "P s e R"
  using ok
proof (induction R arbitrary: s e)
  case Nil
  then show ?case by (intro Beyond) auto
next
  case (Cons y R)
  obtain a b ty where y: "y = (a, b, ty)" by (cases y)
  note ok = Cons.prems [unfolded y]
  have ab: "a \<le> b" "ranges_ok R" using ok(1) by auto
  have beyond: "e < a \<Longrightarrow> (ty = t \<longrightarrow> e + 1 < a) \<Longrightarrow> \<forall>z \<in> set ((a, b, ty) # R). apart (s, e, t) z"
    using ok(1) by (fastforce simp: apart_def)
  consider "b < s" "ty = t \<longrightarrow> b < s - 1" | "e < a" "ty = t \<longrightarrow> e + 1 < a"
    | "ty = t" "s - 1 \<le> b" "a \<le> e + 1" | "ty \<noteq> t" "s \<le> b" "a \<le> e" "e < b"
    | "ty \<noteq> t" "s \<le> a" "b \<le> e" | "ty \<noteq> t" "a < s" "s \<le> b" "b \<le> e"
  proof (cases "ty = t")
    case True
    have "b < s - 1 \<or> e + 1 < a \<or> s - 1 \<le> b \<and> a \<le> e + 1" by linarith
    then show ?thesis using True that(1-3) by (elim disjE conjE) auto
  next
    case False
    then show ?thesis using that(1,2,4-6) by (meson not_less)
  qed
  then have "P s e ((a, b, ty) # R)"
  proof cases
    case 1 show ?thesis by (rule Skip [OF ok 1 Cons.IH [OF ab(2) ok(2)]])
  next
    case 2 show ?thesis by (rule Beyond [OF ok beyond [OF 2]])
  next
    case 3
    have "P (min s a) (max e b) R" by (rule Cons.IH [OF ab(2)]) (use ok(2) in simp)
    then show ?thesis using Merge [OF ok [unfolded 3(1)] 3(2,3)] 3(1) by simp
  next
    case 4 show ?thesis by (rule Right [OF ok 4(3,4,1)])
  next
    case 5 show ?thesis by (rule Inside [OF ok 5(2,3,1) Cons.IH [OF ab(2) ok(2)]])
  next
    case 6 show ?thesis by (rule Left [OF ok 6(2-4,1) Cons.IH [OF ab(2) ok(2)]])
  qed
  then show ?case by (simp add: y)
qed

definition type_at :: "range list \<Rightarrow> int \<Rightarrow> u8 option" where
  "type_at R x = map_option (snd \<circ> snd) (find (\<lambda>(a, b, ty). a \<le> x \<and> x \<le> b) R)"

lemma type_at_Nil [simp]: "type_at [] x = None"
  by (simp add: type_at_def)

lemma type_at_Cons [simp]:
  "type_at ((a, b, ty) # R) x = (if a \<le> x \<and> x \<le> b then Some ty else type_at R x)"
  by (simp add: type_at_def)

lemma type_at_append: "type_at (R @ R') x = (case type_at R x of None \<Rightarrow> type_at R' x | r \<Rightarrow> r)"
  by (induction R) auto

lemma type_at_before: "\<forall>y \<in> set R. x < fst y \<Longrightarrow> type_at R x = None"
  by (auto simp: type_at_def find_None_iff)

lemma cover_type_at:
  assumes "ranges_ok R" "s \<le> e"
  shows "type_at (cover s e t R) x =
    (if s \<le> x \<and> x \<le> e then (if t = F_UNLCK then None else Some t) else type_at R x)"
  using assms
proof (induction rule: cover_induct [where t = t])
  case (Beyond s e R)
  then have "x \<le> e \<Longrightarrow> type_at R x = None" by (intro type_at_before) (auto simp: apart_def)
  then show ?case using cover_beyond [OF Beyond] by auto
next
  case (Skip s e a b ty R)
  then show ?case using cover_skip [of b s a ty t e R] by auto
next
  case (Merge s e a b R)
  have "t \<noteq> F_UNLCK" using Merge by (auto simp: F_defs)
  then show ?case using Merge cover_merge [of a b t R s e] by (auto simp: min_def max_def)
next
  case (Right s e a b ty R)
  then have "x \<le> b \<Longrightarrow> type_at R x = None" by (intro type_at_before) (auto simp: apart_def)
  then show ?case using Right cover_right [of a b ty R e s t] by (auto split: if_splits)
next
  case (Inside s e a b ty R)
  then show ?case using cover_inside [of s a b e t ty R] by auto
next
  case (Left s e a b ty R)
  then show ?case using cover_left [of a b ty R s e t] by auto
qed

lemma cover_apart:
  assumes "ranges_ok R" "s \<le> e" "\<forall>y \<in> set R. apart x y" "apart x (s, e, t)" "y \<in> set (cover s e t R)"
  shows "apart x y"
  using assms
proof (induction rule: cover_induct [where t = t])
  case (Beyond s e R)
  then show ?case using cover_beyond [OF Beyond(1-3)] by (auto split: if_splits)
next
  case (Skip s e a b ty R)
  then show ?case using cover_skip [of b s a ty t e R] by auto
next
  case (Merge s e a b R)
  then show ?case using cover_merge [of a b t R s e] by (auto simp: apart_def min_def)
next
  case (Right s e a b ty R)
  then show ?case using cover_right [of a b ty R e s t] by (auto simp: apart_def split: if_splits)
next
  case (Inside s e a b ty R)
  then show ?case using cover_inside [of s a b e t ty R] by auto
next
  case (Left s e a b ty R)
  then show ?case using cover_left [of a b ty R s e t] by (auto simp: apart_def)
qed

lemma cover_ranges_ok:
  assumes "ranges_ok R" "s \<le> e" "t \<in> {F_RDLCK, F_WRLCK, F_UNLCK}"
  shows "ranges_ok (cover s e t R)"
  using assms(1,2)
proof (induction rule: cover_induct [where t = t])
  case (Beyond s e R)
  then show ?case using cover_beyond [OF Beyond] assms(3) by auto
next
  case (Skip s e a b ty R)
  have "apart (a, b, ty) (s, e, t)" using Skip(3,4) by (auto simp: apart_def)
  then have "\<forall>y \<in> set (cover s e t R). apart (a, b, ty) y"
    using Skip cover_apart [of R s e "(a, b, ty)" t] by auto
  then show ?case using Skip cover_skip [of b s a ty t e R] by auto
next
  case (Merge s e a b R)
  then show ?case using cover_merge [of a b t R s e] by simp
next
  case (Right s e a b ty R)
  then show ?case using assms(3) cover_right [of a b ty R e s t] by (fastforce simp: apart_def)
next
  case (Inside s e a b ty R)
  then show ?case using cover_inside [of s a b e t ty R] by simp
next
  case (Left s e a b ty R)
  have "\<forall>y \<in> set R. apart (a, s - 1, ty) y" "apart (a, s - 1, ty) (s, e, t)"
    using Left by (auto simp: apart_def)
  then have "\<forall>y \<in> set (cover s e t R). apart (a, s - 1, ty) y"
    using Left cover_apart [of R s e "(a, s - 1, ty)" t] by auto
  then show ?case using Left cover_left [of a b ty R s e t] by auto
qed

end
