(* ===== verification/Posix_Locks.thy ===== *)
theory Posix_Locks
  imports Lock_Coverage "HOL-Library.Sublist"
begin

text \<open>
  The in-place algorithm of \<open>__posix_lock_file\<close> computes the reference \<open>cover\<close>. A loop invariant
  (\<open>loop_inv\<close>) and one lemma per branch of the loop lead to \<open>own_locks_covers\<close>; the loop touches
  nothing but the owner's locks, it changes nothing when the call fails later, and a lock whose
  waiters are not woken keeps its owner and type and never shrinks (\<open>survives\<close>).
  \<open>posix_lock_file_cases\<close> lists every way a call can end.
\<close>

section \<open>The loop computes the reference\<close>

lemma modify_lock_Nil [simp]: "modify_lock a f [] = []"
  by (simp add: modify_lock_def)

lemma modify_lock_append [simp]: "modify_lock a f (xs @ ys) = modify_lock a f xs @ modify_lock a f ys"
  by (simp add: modify_lock_def)

lemma modify_lock_Cons [simp]:
  "modify_lock a f (fl # ls) = (if a = Some (fl_addr fl) then f fl else fl) # modify_lock a f ls"
  by (simp add: modify_lock_def)

lemma modify_lock_notin: "\<forall>x. a = Some x \<longrightarrow> x \<notin> fl_addr ` set ls \<Longrightarrow> modify_lock a f ls = ls"
  by (induction ls) auto

lemma modify_lock_None [simp]: "modify_lock None f ls = ls"
  by (simp add: modify_lock_notin)

lemma rng_insert [simp]:
  "map rng (locks_insert_lock tgid a fl pos) = rng fl # map rng pos"
  "map fl_addr (locks_insert_lock tgid a fl pos) = a # map fl_addr pos"
  "modify_lock b f (locks_insert_lock tgid a fl pos) =
     (if b = Some a then f (hd (locks_insert_lock tgid a fl [])) # modify_lock b f pos
      else locks_insert_lock tgid a fl (modify_lock b f pos))"
  by (simp_all add: locks_insert_lock_def rng_def locks_copy_lock_def locks_copy_header_def locks_init_lock_def)

lemma rng_insert_hd [simp]:
  "rng ((hd (locks_insert_lock tgid a fl []))\<lparr>fl_end := x\<rparr>) = (fl_start fl, x, fl_type fl)"
  "fl_addr (hd (locks_insert_lock tgid a fl [])) = a"
  "fl_start (hd (locks_insert_lock tgid a fl [])) = fl_start fl"
  "fl_type (hd (locks_insert_lock tgid a fl [])) = fl_type fl"
  by (simp_all add: locks_insert_lock_def rng_def locks_copy_lock_def locks_copy_header_def locks_init_lock_def)

text \<open>The locks in front of the request, and what the function makes of the end of the loop.\<close>

definition kept :: "posix_loop \<Rightarrow> file_lock list" where
  "kept s = (if pl_added s \<and> fl_type (pl_request s) \<noteq> F_UNLCK then butlast (pl_done s) else pl_done s)"

definition trimmed :: "posix_loop \<Rightarrow> file_lock list" where
  "trimmed s = modify_lock (pl_left s) (\<lambda>fl. fl\<lparr>fl_end := fl_start (pl_request s) - 1\<rparr>) (kept s)"

definition loop_result :: "u32 \<Rightarrow> nat \<Rightarrow> nat \<Rightarrow> posix_loop \<times> file_lock list \<Rightarrow> file_lock list" where
  "loop_result tgid n1 n2 r =
     fst (split_and_trim tgid (Some n2) (fst r) (snd r)
       (if pl_added (fst r) \<or> fl_type (pl_request (fst r)) = F_UNLCK then snd r
        else locks_insert_lock tgid n1 (pl_request (fst r)) (snd r)))"

definition loop_inv :: "posix_loop \<Rightarrow> file_lock list \<Rightarrow> bool" where
  "loop_inv s rest \<longleftrightarrow>
     distinct (map fl_addr (pl_done s @ rest)) \<and> ranges_ok (map rng rest) \<and>
     (\<forall>fl \<in> set rest. posix_same_owner (pl_request s) fl) \<and>
     fl_start (pl_request s) \<le> fl_end (pl_request s) \<and> pl_right s = None \<and>
     (pl_added s \<and> fl_type (pl_request s) \<noteq> F_UNLCK \<longrightarrow> pl_done s \<noteq> [] \<and> last (pl_done s) = pl_request s) \<and>
     (pl_added s \<or> pl_left s \<noteq> None \<longrightarrow> (\<forall>fl \<in> set rest. fl_start (pl_request s) < fl_start fl)) \<and>
     (\<forall>l. pl_left s = Some l \<longrightarrow> l \<in> fl_addr ` set (kept s))"

lemma loop_invD:
  assumes "loop_inv s rest"
  shows "distinct (map fl_addr (pl_done s @ rest))" "ranges_ok (map rng rest)"
    "\<forall>fl \<in> set rest. posix_same_owner (pl_request s) fl"
    "fl_start (pl_request s) \<le> fl_end (pl_request s)" "pl_right s = None"
    "\<forall>l. pl_left s = Some l \<longrightarrow> l \<in> fl_addr ` set (kept s)"
    "pl_added s \<or> pl_left s \<noteq> None \<Longrightarrow> \<forall>fl \<in> set rest. fl_start (pl_request s) < fl_start fl"
    "pl_added s \<Longrightarrow> fl_type (pl_request s) \<noteq> F_UNLCK \<Longrightarrow> pl_done s = kept s @ [pl_request s]"
    "\<not> pl_added s \<or> fl_type (pl_request s) = F_UNLCK \<Longrightarrow> pl_done s = kept s"
  using assms by (auto simp: loop_inv_def kept_def) (metis append_butlast_last_id)

lemma left_fresh:
  assumes "loop_inv s rest" "pl_left s = Some l"
  shows "l \<notin> fl_addr ` set rest" "pl_added s \<Longrightarrow> fl_type (pl_request s) \<noteq> F_UNLCK \<Longrightarrow> l \<noteq> fl_addr (pl_request s)"
    "l \<in> fl_addr ` set (pl_done s @ rest)"
proof -
  have l: "l \<in> fl_addr ` set (kept s)" using loop_invD(6) [OF assms(1)] assms(2) by blast
  have k: "set (kept s) \<subseteq> set (pl_done s)" by (auto simp: kept_def dest: in_set_butlastD)
  have d: "distinct (map fl_addr (pl_done s @ rest))" by (rule loop_invD(1) [OF assms(1)])
  show "l \<notin> fl_addr ` set rest" "l \<in> fl_addr ` set (pl_done s @ rest)"
    using l k d by auto
  show "l \<noteq> fl_addr (pl_request s)" if "pl_added s" "fl_type (pl_request s) \<noteq> F_UNLCK"
  proof -
    have "fl_addr (pl_request s) \<notin> fl_addr ` set (kept s)" using d loop_invD(8) [OF assms(1) that] by simp
    then show ?thesis using l by blast
  qed
qed

definition new_part :: "posix_loop \<Rightarrow> range list" where
  "new_part s = (if fl_type (pl_request s) = F_UNLCK then [] else [rng (pl_request s)])"

lemma exit_no_right:
  assumes inv: "loop_inv s rest" and n: "{n1, n2} \<inter> fl_addr ` set (pl_done s @ rest) = {}"
  shows "map rng (loop_result tgid n1 n2 (s, rest)) = map rng (trimmed s) @ new_part s @ map rng rest"
proof -
  have left: "\<forall>x. pl_left s = Some x \<longrightarrow> x \<notin> fl_addr ` set rest" using left_fresh(1) [OF inv] by blast
  have n1: "pl_left s \<noteq> Some n1" using n left_fresh(3) [OF inv] by auto
  have req: "pl_added s \<Longrightarrow> fl_type (pl_request s) \<noteq> F_UNLCK \<Longrightarrow> pl_left s \<noteq> Some (fl_addr (pl_request s))"
    using left_fresh(2) [OF inv] by blast
  have "modify_lock (pl_left s) f rest = rest" for f by (rule modify_lock_notin [OF left])
  then show ?thesis
    using loop_invD(5,8,9) [OF inv] n1 req
    by (cases "pl_added s"; cases "fl_type (pl_request s) = F_UNLCK")
       (auto simp: loop_result_def split_and_trim_def trimmed_def new_part_def Let_def)
qed

lemma exit_right:
  assumes inv: "loop_inv s (fl # rest)" and n: "n1 \<noteq> n2" "{n1, n2} \<inter> fl_addr ` set (pl_done s @ fl # rest) = {}"
    and s': "s' = (note_overlap fl s)\<lparr>pl_right := Some (fl_addr fl)\<rparr>"
  shows "map rng (loop_result tgid n1 n2 (s', fl # rest)) =
    map rng (trimmed s) @
    (if fl_start fl < fl_start (pl_request s) then [(fl_start fl, fl_start (pl_request s) - 1, fl_type fl)] else []) @
    new_part s @ (fl_end (pl_request s) + 1, fl_end fl, fl_type fl) # map rng rest"
proof -
  have d: "fl_addr fl \<notin> fl_addr ` set (pl_done s)" "fl_addr fl \<notin> fl_addr ` set rest"
    using loop_invD(1) [OF inv] by auto
  have mod [simp]: "modify_lock (Some (fl_addr fl)) f (pl_done s) = pl_done s"
    "modify_lock (Some (fl_addr fl)) f rest = rest" for f
    using d by (auto intro!: modify_lock_notin)
  have mod2 [simp]: "modify_lock (Some n2) f (pl_done s) = pl_done s" "modify_lock (Some n2) f rest = rest" for f
    using n by (auto intro!: modify_lock_notin)
  show ?thesis
  proof (cases "fl_start fl < fl_start (pl_request s)")
    case True
    then have na: "\<not> pl_added s" "pl_left s = None" using loop_invD(7) [OF inv] by fastforce+
    then have k: "kept s = pl_done s" by (simp add: kept_def)
    show ?thesis
      using True n na k
      by (auto simp: loop_result_def split_and_trim_def trimmed_def new_part_def Let_def s' note_overlap_def
          insert_left_piece_def rng_def)
  next
    case False
    have left: "\<forall>x. pl_left s = Some x \<longrightarrow> x \<notin> fl_addr ` set rest" "pl_left s \<noteq> Some (fl_addr fl)"
      using left_fresh(1) [OF inv] by auto
    have n1: "pl_left s \<noteq> Some n1" using n left_fresh(3) [OF inv] by auto
    have req: "pl_added s \<Longrightarrow> fl_type (pl_request s) \<noteq> F_UNLCK \<Longrightarrow> pl_left s \<noteq> Some (fl_addr (pl_request s))"
      using left_fresh(2) [OF inv] by blast
    have m [simp]: "modify_lock (pl_left s) f rest = rest" for f by (rule modify_lock_notin [OF left(1)])
    have fr: "fl_addr fl \<noteq> n1" "fl_addr fl \<noteq> n2" using n by auto
    define g where "g = (\<lambda>fl :: file_lock. fl\<lparr>fl_end := fl_start (pl_request s) - 1\<rparr>)"
    define h where "h = (\<lambda>fl :: file_lock. fl\<lparr>fl_start := fl_end (pl_request s) + 1\<rparr>)"
    define ins where "ins = (if pl_added s \<or> fl_type (pl_request s) = F_UNLCK then fl # rest
      else locks_insert_lock tgid n1 (pl_request s) (fl # rest))"
    have "loop_result tgid n1 n2 (s', fl # rest) =
      modify_lock (pl_left s) g (modify_lock (Some (fl_addr fl)) h (pl_done s @ ins))"
      using False left(2)
      by (simp add: loop_result_def split_and_trim_def Let_def s' note_overlap_def g_def h_def ins_def)
    also have "\<dots> = modify_lock (pl_left s) g (pl_done s) @
      (if pl_added s \<or> fl_type (pl_request s) = F_UNLCK then h fl # rest
       else locks_insert_lock tgid n1 (pl_request s) (h fl # rest))"
      using left(2) n1 fr by (simp add: ins_def h_def)
    finally have res: "loop_result tgid n1 n2 (s', fl # rest) = \<dots>" .
    have "map rng (modify_lock (pl_left s) g (pl_done s)) =
      map rng (trimmed s) @ (if pl_added s \<and> fl_type (pl_request s) \<noteq> F_UNLCK then [rng (pl_request s)] else [])"
      using loop_invD(8,9) [OF inv] req by (simp add: trimmed_def g_def)
    then show ?thesis using False unfolding res by (simp add: new_part_def h_def rng_def)
  qed
qed

lemma fresh_before:
  assumes "loop_inv s (fl # rest)" "fl_start fl \<le> fl_start (pl_request s)"
  shows "\<not> pl_added s" "pl_left s = None" "kept s = pl_done s" "trimmed s = pl_done s"
proof -
  show "\<not> pl_added s" "pl_left s = None" using loop_invD(7) [OF assms(1)] assms(2) by fastforce+
  then show "kept s = pl_done s" "trimmed s = pl_done s" by (auto simp: kept_def trimmed_def)
qed

lemma loop_inv_rest:
  assumes "loop_inv s (fl # rest)"
  shows "ranges_ok (map rng rest)" "\<forall>x \<in> set rest. posix_same_owner (pl_request s) x"
    "fl_start fl \<le> fl_end fl" "\<forall>x \<in> set rest. fl_end fl < fl_start x" "fl_type fl \<noteq> F_UNLCK"
    "posix_same_owner (pl_request s) fl"
  using loop_invD(2,3) [OF assms] by (auto simp: rng_def apart_def F_defs)

lemma skip_step:
  assumes inv: "loop_inv s (fl # rest)" and "fl_end fl < fl_start (pl_request s)"
  shows "loop_inv (next_lock fl s) rest" "trimmed (next_lock fl s) = trimmed s @ [fl]"
proof -
  have f: "\<not> pl_added s" "pl_left s = None" "trimmed s = pl_done s"
    using fresh_before [OF inv] loop_inv_rest(3) [OF inv] assms(2) by auto
  then show "trimmed (next_lock fl s) = trimmed s @ [fl]" by (simp add: trimmed_def kept_def next_lock_def)
  show "loop_inv (next_lock fl s) rest"
    using f loop_invD(1,4,5) [OF inv] loop_inv_rest(1,2) [OF inv]
    by (simp add: loop_inv_def next_lock_def)
qed

lemma left_step:
  assumes inv: "loop_inv s (fl # rest)"
    and "fl_start fl < fl_start (pl_request s)" "fl_start (pl_request s) \<le> fl_end fl"
  shows "loop_inv (next_lock fl (note_overlap fl s)) rest"
    "trimmed (next_lock fl (note_overlap fl s)) = trimmed s @ [fl\<lparr>fl_end := fl_start (pl_request s) - 1\<rparr>]"
proof -
  have f: "\<not> pl_added s" "pl_left s = None" "trimmed s = pl_done s"
    using fresh_before [OF inv] assms(2) by auto
  have "fl_addr fl \<notin> fl_addr ` set (pl_done s)" using loop_invD(1) [OF inv] by auto
  then show "trimmed (next_lock fl (note_overlap fl s)) = trimmed s @ [fl\<lparr>fl_end := fl_start (pl_request s) - 1\<rparr>]"
    using f assms(2) by (auto simp: trimmed_def kept_def next_lock_def note_overlap_def intro!: modify_lock_notin)
  have "\<forall>x \<in> set rest. fl_start (pl_request s) < fl_start x" using loop_inv_rest(4) [OF inv] assms(3) by fastforce
  then show "loop_inv (next_lock fl (note_overlap fl s)) rest"
    using f assms(2) loop_invD(1,4,5) [OF inv] loop_inv_rest(1,2) [OF inv]
    by (auto simp: loop_inv_def next_lock_def note_overlap_def kept_def)
qed

lemma replace_step:
  assumes inv: "loop_inv s (fl # rest)"
    and ge: "fl_start (pl_request s) \<le> fl_start fl" "fl_type fl \<noteq> fl_type (pl_request s)"
  defines "s' \<equiv> replace_other_type fl (note_overlap fl s)"
  shows "loop_inv s' rest" "trimmed s' = trimmed s" "rng (pl_request s') = rng (pl_request s)"
    "fl_addr ` set (pl_done s' @ rest) \<subseteq> fl_addr ` set (pl_done s @ fl # rest)"
proof -
  have o: "posix_same_owner (pl_request s) fl" by (rule loop_inv_rest(6) [OF inv])
  have *: "\<forall>x \<in> set rest. fl_start (pl_request s) < fl_start x"
    using loop_inv_rest(3,4) [OF inv] ge(1) by fastforce
  have k: "kept s' = kept s" "pl_left s' = pl_left s"
    using ge(1) by (auto simp: s'_def kept_def replace_other_type_def note_overlap_def wake_lock_def becomes_request_def Let_def)
  then show "trimmed s' = trimmed s" "rng (pl_request s') = rng (pl_request s)"
    by (auto simp: trimmed_def rng_def s'_def replace_other_type_def note_overlap_def wake_lock_def becomes_request_def Let_def)
  show "fl_addr ` set (pl_done s' @ rest) \<subseteq> fl_addr ` set (pl_done s @ fl # rest)"
    by (auto simp: s'_def replace_other_type_def note_overlap_def wake_lock_def becomes_request_def Let_def)
  show "loop_inv s' rest"
    using * o loop_invD(1,4,5,6,8) [OF inv] loop_inv_rest(1,2) [OF inv] k
    unfolding loop_inv_def k
    by (auto simp: s'_def replace_other_type_def note_overlap_def wake_lock_def becomes_request_def Let_def posix_same_owner_def)
qed

lemma merge_step:
  assumes inv: "loop_inv s (fl # rest)" and t: "fl_type fl = fl_type (pl_request s)"
    and touch: "fl_start (pl_request s) - 1 \<le> fl_end fl" "fl_start fl \<le> fl_end (pl_request s) + 1"
  defines "s' \<equiv> merge_same_type fl s"
  shows "loop_inv s' rest" "trimmed s' = trimmed s"
    "rng (pl_request s') = (min (fl_start (pl_request s)) (fl_start fl), max (fl_end (pl_request s)) (fl_end fl), fl_type (pl_request s))"
    "fl_addr ` set (pl_done s' @ rest) \<subseteq> fl_addr ` set (pl_done s @ fl # rest)"
proof -
  have o: "posix_same_owner (pl_request s) fl" by (rule loop_inv_rest(6) [OF inv])
  have u: "fl_type (pl_request s) \<noteq> F_UNLCK" using loop_inv_rest(5) [OF inv] t by simp
  define lo where "lo = min (fl_start (pl_request s)) (fl_start fl)"
  define hi where "hi = max (fl_end (pl_request s)) (fl_end fl)"
  have le: "lo \<le> hi" "\<forall>x \<in> set rest. lo < fl_start x"
    using loop_invD(4) [OF inv] loop_inv_rest(3,4) [OF inv] by (auto simp: lo_def hi_def)
  have lo: "pl_added s \<or> pl_left s \<noteq> None \<Longrightarrow> lo = fl_start (pl_request s)"
    using loop_invD(7) [OF inv] by (fastforce simp: lo_def)
  have all: "loop_inv s' rest \<and> trimmed s' = trimmed s \<and> rng (pl_request s') = (lo, hi, fl_type (pl_request s)) \<and>
    fl_addr ` set (pl_done s' @ rest) \<subseteq> fl_addr ` set (pl_done s @ fl # rest)"
  proof (cases "pl_added s")
    case True
    have d: "pl_done s = kept s @ [pl_request s]" by (rule loop_invD(8) [OF inv True u])
    have "fl_addr (pl_request s) \<notin> fl_addr ` set (kept s)" using loop_invD(1) [OF inv] unfolding d by simp
    then have m: "map (\<lambda>x. if fl_addr x = fl_addr (pl_request s) then r else x) (kept s) = kept s" for r
      by (intro map_idI) (metis image_eqI)
    define r where "r = (pl_request s)\<lparr>fl_start := lo, fl_end := hi\<rparr>"
    have s': "s' = s\<lparr>pl_request := r, pl_done := kept s @ [r], pl_wake := pl_wake s @ [fl_addr fl]\<rparr>"
      using True d m by (simp add: s'_def merge_same_type_def wake_lock_def set_request_range_def Let_def r_def lo_def hi_def min_def max_def)
    have k: "kept s' = kept s" using True u by (simp add: s' kept_def r_def)
    have 1: "trimmed s' = trimmed s" using k lo True by (simp add: trimmed_def s' r_def)
    have 2: "rng (pl_request s') = (lo, hi, fl_type (pl_request s))" by (simp add: s' r_def rng_def)
    have 3: "fl_addr ` set (pl_done s' @ rest) \<subseteq> fl_addr ` set (pl_done s @ fl # rest)"
      using d by (auto simp: s' r_def)
    have "loop_inv s' rest"
      using le o loop_invD(1,5,6) [OF inv] loop_inv_rest(1,2) [OF inv] d
      unfolding loop_inv_def k by (auto simp: s' r_def posix_same_owner_def)
    then show ?thesis using 1 2 3 by blast
  next
    case False
    define r where "r = fl\<lparr>fl_start := lo, fl_end := hi\<rparr>"
    have s': "s' = s\<lparr>pl_request := r, pl_done := pl_done s @ [r], pl_added := True\<rparr>"
      using False by (simp add: s'_def merge_same_type_def becomes_request_def Let_def r_def lo_def hi_def min_def max_def)
    have k: "kept s' = kept s" using False u t by (simp add: s' kept_def r_def)
    have 1: "trimmed s' = trimmed s" using k lo by (cases "pl_left s") (simp_all add: trimmed_def s' r_def)
    have 2: "rng (pl_request s') = (lo, hi, fl_type (pl_request s))" by (simp add: s' r_def rng_def t)
    have 3: "fl_addr ` set (pl_done s' @ rest) \<subseteq> fl_addr ` set (pl_done s @ fl # rest)"
      by (auto simp: s' r_def)
    have "loop_inv s' rest"
      using le o loop_invD(1,5,6) [OF inv] loop_inv_rest(1,2) [OF inv]
      unfolding loop_inv_def k by (auto simp: s' r_def posix_same_owner_def)
    then show ?thesis using 1 2 3 by blast
  qed
  show "loop_inv s' rest" "trimmed s' = trimmed s"
    "rng (pl_request s') = (min (fl_start (pl_request s)) (fl_start fl), max (fl_end (pl_request s)) (fl_end fl), fl_type (pl_request s))"
    "fl_addr ` set (pl_done s' @ rest) \<subseteq> fl_addr ` set (pl_done s @ fl # rest)"
    using all unfolding lo_def hi_def by blast+
qed

lemma apart_trans: "apart x (a, b, ty) \<Longrightarrow> a \<le> b \<Longrightarrow> apart (a, b, ty) y \<Longrightarrow> apart x y"
  by (auto simp: apart_def)

definition covers :: "u32 \<Rightarrow> nat \<Rightarrow> nat \<Rightarrow> posix_loop \<Rightarrow> file_lock list \<Rightarrow> posix_loop \<times> file_lock list \<Rightarrow> bool" where
  "covers tgid n1 n2 s rest r \<longleftrightarrow>
     map rng (loop_result tgid n1 n2 r) =
       map rng (trimmed s) @
       cover (fl_start (pl_request s)) (fl_end (pl_request s)) (fl_type (pl_request s)) (map rng rest)"

lemma coversI:
  assumes "covers tgid n1 n2 s' rest' r"
    "map rng (trimmed s') @ cover (fl_start (pl_request s')) (fl_end (pl_request s')) (fl_type (pl_request s')) (map rng rest') =
     map rng (trimmed s) @ cover (fl_start (pl_request s)) (fl_end (pl_request s)) (fl_type (pl_request s)) (map rng rest)"
  shows "covers tgid n1 n2 s rest r"
  using assms by (simp add: covers_def)

lemma rng_Cons: "map rng (fl # rest) = (fl_start fl, fl_end fl, fl_type fl) # map rng rest"
  by (simp add: rng_def)

lemma covers_beyond:
  assumes inv: "loop_inv s rest" and n: "{n1, n2} \<inter> fl_addr ` set (pl_done s @ rest) = {}"
    and "rest = [] \<or> apart (rng (pl_request s)) (rng (hd rest))"
  shows "covers tgid n1 n2 s rest (s, rest)"
proof -
  have "\<forall>y \<in> set (map rng rest). apart (rng (pl_request s)) y"
  proof (cases rest)
    case (Cons fl rest')
    then have ap: "apart (rng (pl_request s)) (fl_start fl, fl_end fl, fl_type fl)" using assms(3) by (simp add: rng_def)
    have "ranges_ok ((fl_start fl, fl_end fl, fl_type fl) # map rng rest')"
      using loop_invD(2) [OF inv] Cons rng_Cons by metis
    then show ?thesis unfolding Cons rng_Cons using ap apart_trans [OF ap] by auto
  qed simp
  from cover_beyond [OF loop_invD(2,4) [OF inv] this [unfolded rng_def [of "pl_request s"]]]
  show ?thesis unfolding covers_def exit_no_right [OF inv n] by (simp add: new_part_def rng_def [of "pl_request s"])
qed

lemma covers_skip:
  assumes inv: "loop_inv s (fl # rest)" and lt: "fl_end fl < fl_start (pl_request s)"
    and "fl_type fl = fl_type (pl_request s) \<longrightarrow> fl_end fl < fl_start (pl_request s) - 1"
    and "covers tgid n1 n2 (next_lock fl s) rest r"
  shows "covers tgid n1 n2 s (fl # rest) r"
  using assms(4)
proof (rule coversI)
  have "pl_request (next_lock fl s) = pl_request s" by (simp add: next_lock_def)
  then show "map rng (trimmed (next_lock fl s)) @ cover (fl_start (pl_request (next_lock fl s)))
      (fl_end (pl_request (next_lock fl s))) (fl_type (pl_request (next_lock fl s))) (map rng rest) =
    map rng (trimmed s) @ cover (fl_start (pl_request s)) (fl_end (pl_request s)) (fl_type (pl_request s)) (map rng (fl # rest))"
    unfolding rng_Cons skip_step(2) [OF inv lt] cover_skip [OF lt loop_inv_rest(3) [OF inv] assms(3) loop_invD(4) [OF inv]]
    by (simp add: rng_def [of fl])
qed

lemma covers_merge:
  assumes inv: "loop_inv s (fl # rest)" and t: "fl_type fl = fl_type (pl_request s)"
    and touch: "fl_start (pl_request s) - 1 \<le> fl_end fl" "fl_start fl \<le> fl_end (pl_request s) + 1"
    and "covers tgid n1 n2 (merge_same_type fl s) rest r"
  shows "covers tgid n1 n2 s (fl # rest) r"
proof -
  have "ranges_ok ((fl_start fl, fl_end fl, fl_type (pl_request s)) # map rng rest)"
    using loop_invD(2) [OF inv] unfolding rng_Cons t .
  from cover_merge [OF this loop_invD(4) [OF inv] touch] show ?thesis
    using assms(5) merge_step(2,3) [OF inv t touch]
    unfolding covers_def rng_Cons t by (simp add: rng_def [of "pl_request _"])
qed

lemma covers_replace:
  assumes inv: "loop_inv s (fl # rest)" and g: "fl_start (pl_request s) \<le> fl_start fl" "fl_type fl \<noteq> fl_type (pl_request s)"
    and "fl_end fl \<le> fl_end (pl_request s)"
    and "covers tgid n1 n2 (replace_other_type fl (note_overlap fl s)) rest r"
  shows "covers tgid n1 n2 s (fl # rest) r"
  using assms(5) replace_step(2,3) [OF inv g] cover_inside [OF g(1) assms(4)]
  unfolding covers_def rng_Cons by (simp add: rng_def [of "pl_request _"])

lemma covers_left:
  assumes inv: "loop_inv s (fl # rest)"
    and g: "fl_start fl < fl_start (pl_request s)" "fl_start (pl_request s) \<le> fl_end fl"
    and "fl_end fl \<le> fl_end (pl_request s)" "fl_type fl \<noteq> fl_type (pl_request s)"
    and "covers tgid n1 n2 (next_lock fl (note_overlap fl s)) rest r"
  shows "covers tgid n1 n2 s (fl # rest) r"
proof -
  have "ranges_ok ((fl_start fl, fl_end fl, fl_type fl) # map rng rest)" using loop_invD(2) [OF inv] unfolding rng_Cons .
  from cover_left [OF this g assms(4,5)] show ?thesis
    using assms(6) unfolding covers_def rng_Cons left_step(2) [OF inv g]
    by (simp add: next_lock_def note_overlap_def rng_def [of "fl_end_update _ _"])
qed

lemma covers_right:
  assumes inv: "loop_inv s (fl # rest)" and n: "n1 \<noteq> n2" "{n1, n2} \<inter> fl_addr ` set (pl_done s @ fl # rest) = {}"
    and "fl_start fl \<le> fl_end (pl_request s)" "fl_end (pl_request s) < fl_end fl" "fl_type fl \<noteq> fl_type (pl_request s)"
  shows "covers tgid n1 n2 s (fl # rest) ((note_overlap fl s)\<lparr>pl_right := Some (fl_addr fl)\<rparr>, fl # rest)"
proof -
  have "ranges_ok ((fl_start fl, fl_end fl, fl_type fl) # map rng rest)" using loop_invD(2) [OF inv] unfolding rng_Cons .
  from cover_right [OF this assms(4,5) loop_invD(4) [OF inv] assms(6)] show ?thesis
    unfolding covers_def rng_Cons exit_right [OF inv n refl] by (simp add: new_part_def rng_def [of "pl_request s"])
qed

lemma own_locks_covers:
  assumes "loop_inv s rest" "n1 \<noteq> n2" "{n1, n2} \<inter> fl_addr ` set (pl_done s @ rest) = {}"
  shows "covers tgid n1 n2 s rest (own_locks s rest)"
  using assms
proof (induction rest arbitrary: s)
  case Nil
  then show ?case using covers_beyond [of s "[]" n1 n2 tgid] by simp
next
  case (Cons fl rest)
  note inv = Cons.prems(1) and n = Cons.prems(2,3)
  have IH: "covers tgid n1 n2 s' rest (own_locks s' rest)"
    if "loop_inv s' rest" "fl_addr ` set (pl_done s' @ rest) \<subseteq> fl_addr ` set (pl_done s @ fl # rest)" for s'
    using Cons.IH [OF that(1) n(1)] n(2) that(2) by blast
  have o: "posix_same_owner (pl_request s) fl" by (rule loop_inv_rest(6) [OF inv])
  define a b ty lo hi t where d: "a = fl_start fl" "b = fl_end fl" "ty = fl_type fl" "lo = fl_start (pl_request s)"
    "hi = fl_end (pl_request s)" "t = fl_type (pl_request s)"
  have skip: "covers tgid n1 n2 s (fl # rest) (own_locks (next_lock fl s) rest)" if "b < lo" "t = ty \<longrightarrow> b < lo - 1"
    using that skip_step(1) [OF inv] covers_skip [OF inv _ _ IH] by (simp add: d next_lock_def)
  have beyond: "covers tgid n1 n2 s (fl # rest) (s, fl # rest)" if "a > hi" "t = ty \<longrightarrow> a - 1 > hi"
    by (rule covers_beyond [OF inv n(2)]) (use that in \<open>auto simp: d apart_def rng_def\<close>)
  have merge: "covers tgid n1 n2 s (fl # rest) (own_locks (merge_same_type fl s) rest)" if "t = ty" "lo - 1 \<le> b" "a \<le> hi + 1"
    using that merge_step(1,4) [OF inv] covers_merge [OF inv _ _ _ IH] by (simp add: d)
  have right: "covers tgid n1 n2 s (fl # rest) ((note_overlap fl s)\<lparr>pl_right := Some (fl_addr fl)\<rparr>, fl # rest)"
    if "t \<noteq> ty" "a \<le> hi" "hi < b"
    using that covers_right [OF inv n] by (simp add: d)
  have replace: "covers tgid n1 n2 s (fl # rest) (own_locks (replace_other_type fl (note_overlap fl s)) rest)"
    if "t \<noteq> ty" "lo \<le> a" "b \<le> hi"
    using that replace_step(1,4) [OF inv] covers_replace [OF inv _ _ _ IH] by (simp add: d)
  have left: "covers tgid n1 n2 s (fl # rest) (own_locks (next_lock fl (note_overlap fl s)) rest)"
    if "t \<noteq> ty" "a < lo" "lo \<le> b" "b \<le> hi"
    using that left_step(1) [OF inv] covers_left [OF inv _ _ _ _ IH] by (simp add: d next_lock_def note_overlap_def)
  have unfold: "own_locks s (fl # rest) =
    (if t = ty then if b < lo - 1 then own_locks (next_lock fl s) rest
       else if a - 1 > hi then (s, fl # rest) else own_locks (merge_same_type fl s) rest
     else if b < lo then own_locks (next_lock fl s) rest
       else if a > hi then (s, fl # rest)
       else if b > hi then ((note_overlap fl s)\<lparr>pl_right := Some (fl_addr fl)\<rparr>, fl # rest)
       else if a \<ge> lo then own_locks (replace_other_type fl (note_overlap fl s)) rest
       else own_locks (next_lock fl (note_overlap fl s)) rest)"
    using o by (simp add: d Let_def)
  show ?case
    unfolding unfold
    by (cases "t = ty") (auto intro: skip beyond merge right replace left)
qed

section \<open>What the loop leaves alone\<close>

lemmas loop_defs = next_lock_def becomes_request_def set_request_range_def wake_lock_def merge_same_type_def
  replace_other_type_def note_overlap_def Let_def

lemma step_addresses [simp]:
  "map fl_addr (pl_done (next_lock fl s)) = map fl_addr (pl_done s) @ [fl_addr fl]"
  "map fl_addr (pl_done (merge_same_type fl s)) = map fl_addr (pl_done s) @ (if pl_added s then [] else [fl_addr fl])"
  "map fl_addr (pl_done (replace_other_type fl s)) = map fl_addr (pl_done s) @ (if pl_added s then [] else [fl_addr fl])"
  "pl_done (note_overlap fl s) = pl_done s"
  by (auto simp: loop_defs)

lemma step_fields [simp]:
  "pl_request (next_lock fl s) = pl_request s" "pl_request (note_overlap fl s) = pl_request s"
  "pl_left (next_lock fl s) = pl_left s" "pl_left (merge_same_type fl s) = pl_left s"
  "pl_left (replace_other_type fl s) = pl_left s"
  "pl_right (next_lock fl s) = pl_right s" "pl_right (merge_same_type fl s) = pl_right s"
  "pl_right (replace_other_type fl s) = pl_right s" "pl_right (note_overlap fl s) = pl_right s"
  "pl_added (next_lock fl s) = pl_added s" "pl_added (merge_same_type fl s)" "pl_added (replace_other_type fl s)"
  "pl_wake (next_lock fl s) = pl_wake s" "pl_wake (note_overlap fl s) = pl_wake s"
  by (simp_all add: loop_defs)

lemma step_owner [simp]:
  "posix_same_owner (pl_request s) fl \<Longrightarrow> fl_owner (pl_request (merge_same_type fl s)) = fl_owner (pl_request s)"
  "posix_same_owner (pl_request s) fl \<Longrightarrow> fl_owner (pl_request (replace_other_type fl s)) = fl_owner (pl_request s)"
  by (simp_all add: loop_defs posix_same_owner_def)

lemma step_type [simp]:
  "fl_type (pl_request (replace_other_type fl s)) = fl_type (pl_request s)"
  "fl_type fl = fl_type (pl_request s) \<Longrightarrow> fl_type (pl_request (merge_same_type fl s)) = fl_type (pl_request s)"
  by (simp_all add: loop_defs)

lemma own_locks_Cons_cases:
  obtains (stop) "own_locks s (fl # rest) = (s, fl # rest)"
  | (right) "own_locks s (fl # rest) = ((note_overlap fl s)\<lparr>pl_right := Some (fl_addr fl)\<rparr>, fl # rest)"
      "fl_end (pl_request s) < fl_end fl"
  | (skip) "own_locks s (fl # rest) = own_locks (next_lock fl s) rest" "fl_end fl < fl_start (pl_request s)"
  | (merge) "own_locks s (fl # rest) = own_locks (merge_same_type fl s) rest" "posix_same_owner (pl_request s) fl"
      "fl_type fl = fl_type (pl_request s)" "fl_start (pl_request s) - 1 \<le> fl_end fl"
      "fl_start fl \<le> fl_end (pl_request s) + 1"
  | (replace) "own_locks s (fl # rest) = own_locks (replace_other_type fl (note_overlap fl s)) rest"
      "posix_same_owner (pl_request s) fl" "fl_start (pl_request s) \<le> fl_start fl" "fl_type fl \<noteq> fl_type (pl_request s)"
  | (left) "own_locks s (fl # rest) = own_locks (next_lock fl (note_overlap fl s)) rest"
      "fl_start fl < fl_start (pl_request s)" "fl_start (pl_request s) \<le> fl_end fl"
proof -
  consider "\<not> posix_same_owner (pl_request s) fl"
    | "posix_same_owner (pl_request s) fl" "fl_type fl = fl_type (pl_request s)"
    | "posix_same_owner (pl_request s) fl" "fl_type fl \<noteq> fl_type (pl_request s)" by blast
  then show ?thesis
  proof cases
    case 1
    then show ?thesis by (intro stop) (simp add: Let_def)
  next
    case 2
    consider "fl_end fl < fl_start (pl_request s) - 1" | "\<not> fl_end fl < fl_start (pl_request s) - 1" "fl_start fl - 1 > fl_end (pl_request s)"
      | "\<not> fl_end fl < fl_start (pl_request s) - 1" "\<not> fl_start fl - 1 > fl_end (pl_request s)" by blast
    then show ?thesis
    proof cases
      case 1 then show ?thesis using 2 by (intro skip) (simp_all add: Let_def)
    next
      case b: 2 then show ?thesis using 2 by (intro stop) (simp_all add: Let_def)
    next
      case 3 then show ?thesis using 2 by (intro merge) (simp_all add: Let_def)
    qed
  next
    case 3
    consider "fl_end fl < fl_start (pl_request s)"
      | "\<not> fl_end fl < fl_start (pl_request s)" "fl_start fl > fl_end (pl_request s)"
      | "\<not> fl_end fl < fl_start (pl_request s)" "\<not> fl_start fl > fl_end (pl_request s)" "fl_end fl > fl_end (pl_request s)"
      | "\<not> fl_end fl < fl_start (pl_request s)" "\<not> fl_start fl > fl_end (pl_request s)" "\<not> fl_end fl > fl_end (pl_request s)"
        "fl_start fl \<ge> fl_start (pl_request s)"
      | "\<not> fl_end fl < fl_start (pl_request s)" "\<not> fl_start fl > fl_end (pl_request s)" "\<not> fl_end fl > fl_end (pl_request s)"
        "\<not> fl_start fl \<ge> fl_start (pl_request s)" by blast
    then show ?thesis
    proof cases
      case 1 then show ?thesis using 3 by (intro skip) (simp_all add: Let_def)
    next
      case 2 then show ?thesis using 3 by (intro stop) (simp_all add: Let_def)
    next
      case b: 3 then show ?thesis using 3 by (intro right) (simp_all add: Let_def)
    next
      case 4 then show ?thesis using 3 by (intro replace) (simp_all add: Let_def)
    next
      case 5 then show ?thesis using 3 by (intro left) (simp_all add: Let_def)
    qed
  qed
qed

lemma own_locks_type:
  "fl_type (pl_request (fst (own_locks s rest))) = fl_type (pl_request s)"
  by (induction rest arbitrary: s) (simp_all add: Let_def)

declare own_locks.simps(2) [simp del]

lemma own_locks_addresses:
  "subseq (map fl_addr (pl_done (fst (own_locks s rest)) @ snd (own_locks s rest))) (map fl_addr (pl_done s @ rest))"
proof (induction rest arbitrary: s)
  case (Cons fl rest)
  have drop: "subseq xs (map fl_addr (pl_done s) @ map fl_addr rest) \<Longrightarrow>
      subseq xs (map fl_addr (pl_done s) @ fl_addr fl # map fl_addr rest)" for xs
    by (rule subseq_order.order_trans, assumption) (intro list_emb_append_mono list_emb_Cons subseq_order.order_refl)
  show ?case
  proof (cases rule: own_locks_Cons_cases [of s fl rest])
    case skip
    show ?thesis unfolding skip(1) using Cons [of "next_lock fl s"] by simp
  next
    case merge
    show ?thesis unfolding merge(1) using Cons [of "merge_same_type fl s"] drop by (simp split: if_splits)
  next
    case replace
    show ?thesis unfolding replace(1) using Cons [of "replace_other_type fl (note_overlap fl s)"] drop by (simp split: if_splits)
  next
    case left
    show ?thesis unfolding left(1) using Cons [of "next_lock fl (note_overlap fl s)"] by simp
  qed simp_all
qed simp

lemma own_locks_added: "pl_added s \<Longrightarrow> pl_added (fst (own_locks s rest))"
proof (induction rest arbitrary: s)
  case (Cons fl rest)
  show ?case
    by (cases rule: own_locks_Cons_cases [of s fl rest])
       (simp_all add: Cons note_overlap_def)
qed simp

lemma own_locks_left: "pl_left (fst (own_locks s rest)) \<in> insert (pl_left s) (Some ` fl_addr ` set rest)"
proof (induction rest arbitrary: s)
  case (Cons fl rest)
  have n: "pl_left (note_overlap fl s) \<in> {pl_left s, Some (fl_addr fl)}" by (simp add: note_overlap_def)
  show ?case
    by (cases rule: own_locks_Cons_cases [of s fl rest])
       (use n Cons [of "next_lock fl s"] Cons [of "merge_same_type fl s"]
         Cons [of "replace_other_type fl (note_overlap fl s)"] Cons [of "next_lock fl (note_overlap fl s)"] in auto)
qed simp

lemma own_locks_right:
  "pl_right s = None \<Longrightarrow> pl_right (fst (own_locks s rest)) \<noteq> None \<Longrightarrow>
     \<exists>fl pos. snd (own_locks s rest) = fl # pos \<and> pl_right (fst (own_locks s rest)) = Some (fl_addr fl)"
proof (induction rest arbitrary: s)
  case (Cons fl rest)
  show ?case
    by (cases rule: own_locks_Cons_cases [of s fl rest]) (use Cons in auto)
qed simp

text \<open>Every lock of the result has the owner and the kind of those it comes from.\<close>

definition own :: "nat \<Rightarrow> file_lock \<Rightarrow> bool" where
  "own owner fl \<longleftrightarrow> IS_POSIX fl \<and> fl_owner fl = owner"

lemma own_update [simp]:
  "own owner (fl\<lparr>fl_start := a\<rparr>) = own owner fl" "own owner (fl\<lparr>fl_end := b\<rparr>) = own owner fl"
  "own owner (fl\<lparr>fl_type := t\<rparr>) = own owner fl"
  by (simp_all add: own_def IS_POSIX_def)

lemma step_own:
  assumes "\<forall>x \<in> set (pl_done s). own owner x" "own owner (pl_request s)" "own owner fl"
  shows "\<forall>x \<in> set (pl_done (merge_same_type fl s)). own owner x" "own owner (pl_request (merge_same_type fl s))"
    "\<forall>x \<in> set (pl_done (replace_other_type fl s)). own owner x" "own owner (pl_request (replace_other_type fl s))"
  using assms by (auto simp: loop_defs)

lemma own_locks_own:
  assumes "\<forall>x \<in> set (pl_done s @ rest). own owner x" "own owner (pl_request s)"
  shows "(\<forall>x \<in> set (pl_done (fst (own_locks s rest)) @ snd (own_locks s rest)). own owner x) \<and>
    own owner (pl_request (fst (own_locks s rest)))"
  using assms
proof (induction rest arbitrary: s)
  case (Cons fl rest)
  have *: "\<forall>x \<in> set (pl_done s). own owner x" "own owner (pl_request s)" "own owner fl" "\<forall>x \<in> set rest. own owner x"
    using Cons.prems by auto
  note step = step_own [OF *(1-3)] step_own [of "note_overlap fl s" owner fl, simplified, OF *(1-3)]
  show ?case
  proof (cases rule: own_locks_Cons_cases [of s fl rest])
    case skip
    show ?thesis unfolding skip(1) using Cons.IH [of "next_lock fl s"] * by (simp add: next_lock_def ball_Un)
  next
    case merge
    show ?thesis unfolding merge(1) using Cons.IH [of "merge_same_type fl s"] * step by (simp add: ball_Un)
  next
    case replace
    show ?thesis unfolding replace(1) using Cons.IH [of "replace_other_type fl (note_overlap fl s)"] * step by (simp add: ball_Un)
  next
    case left
    show ?thesis unfolding left(1) using Cons.IH [of "next_lock fl (note_overlap fl s)"] * by (simp add: next_lock_def note_overlap_def ball_Un)
  qed (use * in \<open>auto simp: note_overlap_def\<close>)
qed simp

section \<open>Bailing out leaves the list as it was\<close>

lemma own_locks_not_added:
  assumes "\<not> pl_added (fst (own_locks s rest))"
  shows "pl_done (fst (own_locks s rest)) @ snd (own_locks s rest) = pl_done s @ rest \<and>
    pl_wake (fst (own_locks s rest)) = pl_wake s \<and> pl_request (fst (own_locks s rest)) = pl_request s \<and>
    (fl_type (pl_request s) = F_UNLCK \<longrightarrow>
       pl_left (fst (own_locks s rest)) = pl_left s \<and> pl_right (fst (own_locks s rest)) = pl_right s)"
  using assms
proof (induction rest arbitrary: s)
  case (Cons fl rest)
  show ?case
  proof (cases rule: own_locks_Cons_cases [of s fl rest])
    case skip
    show ?thesis using Cons(1) [of "next_lock fl s"] Cons.prems unfolding skip(1) by (simp add: next_lock_def)
  next
    case merge
    show ?thesis using Cons.prems own_locks_added [of "merge_same_type fl s"] unfolding merge(1) by simp
  next
    case replace
    show ?thesis using Cons.prems own_locks_added [of "replace_other_type fl (note_overlap fl s)"] unfolding replace(1) by simp
  next
    case left
    have "\<not> pl_added (note_overlap fl s)"
      using Cons.prems own_locks_added [of "next_lock fl (note_overlap fl s)" rest] unfolding left(1) by auto
    then show ?thesis using Cons(1) [of "next_lock fl (note_overlap fl s)"] Cons.prems unfolding left(1)
      by (simp add: next_lock_def note_overlap_def)
  qed (use Cons.prems in \<open>auto simp: note_overlap_def\<close>)
qed simp

lemma own_locks_left_stays:
  assumes "loop_inv s rest" "\<forall>fl \<in> set rest. fl_start (pl_request s) \<le> fl_start fl"
  shows "pl_left (fst (own_locks s rest)) = pl_left s"
  using assms
proof (induction rest arbitrary: s)
  case (Cons fl rest)
  note inv = Cons.prems(1)
  have le: "fl_start (pl_request s) \<le> fl_start fl" using Cons.prems(2) by simp
  have r: "rng (pl_request s') = (fl_start (pl_request s), e, t) \<Longrightarrow> \<forall>x \<in> set rest. fl_start (pl_request s') \<le> fl_start x" for s' e t
    using Cons.prems(2) by (simp add: rng_def)
  show ?case
  proof (cases rule: own_locks_Cons_cases [of s fl rest])
    case skip
    then show ?thesis using le loop_inv_rest(3) [OF inv] by simp
  next
    case merge
    show ?thesis unfolding merge(1) using Cons.IH [OF merge_step(1) [OF inv merge(3-5)] r] merge_step(3) [OF inv merge(3-5)] le by simp
  next
    case replace
    show ?thesis unfolding replace(1)
      using Cons.IH [OF replace_step(1) [OF inv replace(3,4)] r] replace_step(3) [OF inv replace(3,4)] le
      by (simp add: note_overlap_def rng_def [of "pl_request s"])
  next
    case left
    then show ?thesis using le by simp
  qed (use le in \<open>auto simp: note_overlap_def\<close>)
qed simp

lemma own_locks_right_in: "pl_right s = None \<Longrightarrow> pl_right (fst (own_locks s rest)) = Some r \<Longrightarrow> r \<in> fl_addr ` set rest"
proof (induction rest arbitrary: s)
  case (Cons fl rest)
  show ?case
    by (cases rule: own_locks_Cons_cases [of s fl rest])
       (use Cons.prems Cons.IH [of "next_lock fl s"] Cons.IH [of "merge_same_type fl s"]
         Cons.IH [of "replace_other_type fl (note_overlap fl s)"] Cons.IH [of "next_lock fl (note_overlap fl s)"] in auto)
qed simp

lemma own_locks_no_split:
  assumes "loop_inv s rest" "pl_added s \<or> pl_left s \<noteq> None" "pl_right (fst (own_locks s rest)) \<noteq> None"
  shows "pl_left (fst (own_locks s rest)) \<noteq> pl_right (fst (own_locks s rest))"
  using own_locks_left_stays [OF assms(1)] loop_invD(7) [OF assms(1,2)] own_locks_right_in [of s rest]
    loop_invD(5) [OF assms(1)] left_fresh(1) [OF assms(1)] assms(3) by fastforce

lemma own_locks_split:
  assumes "loop_inv s rest" "pl_right (fst (own_locks s rest)) \<noteq> None"
    "pl_left (fst (own_locks s rest)) = pl_right (fst (own_locks s rest))"
  shows "pl_done (fst (own_locks s rest)) @ snd (own_locks s rest) = pl_done s @ rest \<and>
    pl_wake (fst (own_locks s rest)) = pl_wake s"
  using assms
proof (induction rest arbitrary: s)
  case (Cons fl rest)
  note inv = Cons.prems(1)
  show ?case
  proof (cases rule: own_locks_Cons_cases [of s fl rest])
    case skip
    show ?thesis using Cons.IH [OF skip_step(1) [OF inv skip(2)]] Cons.prems(2,3) unfolding skip(1) by (simp add: next_lock_def)
  next
    case merge
    show ?thesis using own_locks_no_split [OF merge_step(1) [OF inv merge(3-5)]] Cons.prems(2,3) unfolding merge(1) by simp
  next
    case replace
    show ?thesis using own_locks_no_split [OF replace_step(1) [OF inv replace(3,4)]] Cons.prems(2,3) unfolding replace(1) by simp
  next
    case left
    show ?thesis using own_locks_no_split [OF left_step(1) [OF inv left(2,3)]] Cons.prems(2,3) left(2) unfolding left(1)
      by (simp add: note_overlap_def)
  qed (use loop_invD(5) [OF inv] Cons.prems in \<open>auto simp: note_overlap_def\<close>)
qed simp

section \<open>Locks of others\<close>

definition after :: "file_lock list \<Rightarrow> posix_loop \<Rightarrow> posix_loop" where
  "after A s = s\<lparr>pl_done := A @ pl_done s\<rparr>"

lemma after_fields [simp]:
  "pl_done (after A s) = A @ pl_done s" "pl_request (after A s) = pl_request s" "pl_added (after A s) = pl_added s"
  "pl_left (after A s) = pl_left s" "pl_right (after A s) = pl_right s" "pl_wake (after A s) = pl_wake s"
  by (simp_all add: after_def)

lemma map_notin: "x \<notin> fl_addr ` set A \<Longrightarrow> map (\<lambda>fl. if fl_addr fl = x then r else fl) A = A"
  by (intro map_idI) (metis image_eqI)

lemma step_after:
  "next_lock fl (after A s) = after A (next_lock fl s)"
  "note_overlap fl (after A s) = after A (note_overlap fl s)"
  "replace_other_type fl (after A s) = after A (replace_other_type fl s)"
  "fl_addr (pl_request s) \<notin> fl_addr ` set A \<Longrightarrow> merge_same_type fl (after A s) = after A (merge_same_type fl s)"
  by (simp_all add: loop_defs after_def map_notin)

lemma step_request_addr:
  "fl_addr (pl_request (merge_same_type fl s)) \<in> {fl_addr (pl_request s), fl_addr fl}"
  "fl_addr (pl_request (replace_other_type fl s)) \<in> {fl_addr (pl_request s), fl_addr fl}"
  by (simp_all add: loop_defs)

lemma own_locks_after:
  assumes "fl_addr (pl_request s) \<notin> fl_addr ` set A" "fl_addr ` set rest \<inter> fl_addr ` set A = {}"
  shows "own_locks (after A s) rest = apfst (after A) (own_locks s rest)"
  using assms
proof (induction rest arbitrary: s)
  case (Cons fl rest)
  have m: "fl_addr (pl_request (merge_same_type fl s)) \<notin> fl_addr ` set A"
    "fl_addr (pl_request (replace_other_type fl (note_overlap fl s))) \<notin> fl_addr ` set A"
    using step_request_addr [of fl s] step_request_addr [of fl "note_overlap fl s"] Cons.prems by auto
  have "(after A s)\<lparr>pl_right := r\<rparr> = after A (s\<lparr>pl_right := r\<rparr>)" for r s by (simp add: after_def)
  then show ?case using Cons m by (simp add: own_locks.simps Let_def step_after)
qed simp

lemma own_locks_append:
  assumes "\<forall>fl \<in> set rest. posix_same_owner (pl_request s) fl" "B \<noteq> [] \<Longrightarrow> \<not> posix_same_owner (pl_request s) (hd B)"
  shows "own_locks s (rest @ B) = apsnd (\<lambda>pos. pos @ B) (own_locks s rest)"
  using assms
proof (induction rest arbitrary: s)
  case Nil
  then show ?case by (cases B) (simp_all add: own_locks.simps)
next
  case (Cons fl rest)
  have o: "posix_same_owner (pl_request s) fl" using Cons.prems(1) by simp
  have m: "posix_same_owner (pl_request (merge_same_type fl s)) = posix_same_owner (pl_request s)"
    "posix_same_owner (pl_request (replace_other_type fl (note_overlap fl s))) = posix_same_owner (pl_request s)"
    using o by (auto simp: posix_same_owner_def fun_eq_iff)
  show ?case using Cons m by (simp add: own_locks.simps Let_def)
qed

lemma modify_lock_addr:
  "(\<And>x. fl_addr (f x) = fl_addr x) \<Longrightarrow> map fl_addr (modify_lock a f ls) = map fl_addr ls"
  by (simp add: modify_lock_def)

lemma modify_lock_own:
  "(\<And>x. own w (f x) = own w x) \<Longrightarrow> (\<forall>x \<in> set (modify_lock a f ls). own w x) = (\<forall>x \<in> set ls. own w x)"
  by (induction ls) simp_all

lemma insert_own: "own w fl \<Longrightarrow> (\<forall>x \<in> set (locks_insert_lock tgid a fl pos). own w x) = (\<forall>x \<in> set pos. own w x)"
  by (simp add: locks_insert_lock_def locks_copy_lock_def locks_copy_header_def own_def IS_POSIX_def)

text \<open>The end of the call, split into its list and its wake-ups.\<close>

definition is_split :: "posix_loop \<Rightarrow> bool" where
  "is_split s \<longleftrightarrow> pl_right s \<noteq> None \<and> pl_left s = pl_right s"

lemma split_and_trim_simps:
  "fst (split_and_trim tgid new2 s pos ins) =
     modify_lock (if is_split s then new2 else pl_left s) (\<lambda>fl. fl\<lparr>fl_end := fl_start (pl_request s) - 1\<rparr>)
       (modify_lock (pl_right s) (\<lambda>fl. fl\<lparr>fl_start := fl_end (pl_request s) + 1\<rparr>)
         (pl_done s @ (case (is_split s, new2) of
            (True, Some a) \<Rightarrow> insert_left_piece tgid a (pl_right s) pos ins | _ \<Rightarrow> ins)))"
  "snd (split_and_trim tgid new2 s pos ins) =
     pl_wake s @ (case pl_right s of Some a \<Rightarrow> [a] | None \<Rightarrow> []) @
       (case if is_split s then new2 else pl_left s of Some a \<Rightarrow> [a] | None \<Rightarrow> [])"
  by (simp_all add: split_and_trim_def Let_def is_split_def)

lemma split_and_trim_irrelevant:
  "\<not> is_split s \<Longrightarrow> split_and_trim tgid x s pos ins = split_and_trim tgid y s pos ins"
  by (intro prod_eqI) (simp_all add: split_and_trim_simps)

lemma find_in_front: "\<forall>x. right = Some x \<longrightarrow> x \<notin> fl_addr ` set B \<Longrightarrow>
    find (\<lambda>fl. right = Some (fl_addr fl)) (pos @ B) = find (\<lambda>fl. right = Some (fl_addr fl)) pos"
proof (induction pos)
  case Nil
  then show ?case by (force simp: find_None_iff)
qed simp

lemma split_and_trim_frame:
  assumes "\<forall>x. pl_left s = Some x \<longrightarrow> x \<notin> fl_addr ` set (A @ B)"
    "\<forall>x. pl_right s = Some x \<longrightarrow> x \<notin> fl_addr ` set (A @ B)" "\<forall>x. new2 = Some x \<longrightarrow> x \<notin> fl_addr ` set (A @ B)"
  shows "fst (split_and_trim tgid new2 (after A s) (pos @ B) (ins @ B)) =
      A @ fst (split_and_trim tgid new2 s pos ins) @ B"
    "snd (split_and_trim tgid new2 (after A s) (pos @ B) (ins @ B)) = snd (split_and_trim tgid new2 s pos ins)"
proof -
  have m: "modify_lock (pl_left s) f A = A" "modify_lock (pl_left s) f B = B"
    "modify_lock (pl_right s) f A = A" "modify_lock (pl_right s) f B = B"
    "modify_lock new2 f A = A" "modify_lock new2 f B = B" for f
    using assms by (auto intro!: modify_lock_notin)
  have i: "insert_left_piece tgid a (pl_right s) (pos @ B) (ins @ B) = insert_left_piece tgid a (pl_right s) pos ins @ B" for a
  proof -
    have "find (\<lambda>fl. pl_right s = Some (fl_addr fl)) (pos @ B) = find (\<lambda>fl. pl_right s = Some (fl_addr fl)) pos"
      using assms(2) by (intro find_in_front) auto
    then show ?thesis by (simp add: insert_left_piece_def locks_insert_lock_def split: option.split)
  qed
  have sp: "is_split (after A s) = is_split s" by (simp add: is_split_def)
  show "fst (split_and_trim tgid new2 (after A s) (pos @ B) (ins @ B)) = A @ fst (split_and_trim tgid new2 s pos ins) @ B"
    unfolding split_and_trim_simps sp using m by (cases "is_split s"; cases new2) (simp_all add: i)
  show "snd (split_and_trim tgid new2 (after A s) (pos @ B) (ins @ B)) = snd (split_and_trim tgid new2 s pos ins)"
    unfolding split_and_trim_simps sp by simp
qed

lemma split_and_trim_own:
  assumes "\<forall>x \<in> set (pl_done s @ pos @ ins). own w x"
  shows "\<forall>x \<in> set (fst (split_and_trim tgid new2 s pos ins)). own w x"
proof -
  have "\<forall>x \<in> set (insert_left_piece tgid a (pl_right s) pos ins). own w x" for a
  proof (cases "find (\<lambda>fl. pl_right s = Some (fl_addr fl)) pos")
    case (Some fl)
    then have "fl \<in> set pos" by (auto simp: find_Some_iff)
    then show ?thesis using Some assms insert_own [of w fl tgid a ins] by (simp add: insert_left_piece_def)
  qed (use assms in \<open>simp add: insert_left_piece_def\<close>)
  then show ?thesis
    unfolding split_and_trim_simps using assms
    by (cases "is_split s"; cases new2) (simp_all add: modify_lock_own ball_Un del: modify_lock_append)
qed

lemma insert_left_piece_addr:
  "map fl_addr (insert_left_piece tgid a right pos ins) \<in> {map fl_addr ins, a # map fl_addr ins}"
  by (simp add: insert_left_piece_def split: option.split)

lemma split_and_trim_addr:
  assumes "distinct (map fl_addr (pl_done s @ ins))" "\<forall>x. new2 = Some x \<longrightarrow> x \<notin> fl_addr ` set (pl_done s @ ins)"
  shows "distinct (map fl_addr (fst (split_and_trim tgid new2 s pos ins)))"
    "fl_addr ` set (fst (split_and_trim tgid new2 s pos ins)) \<subseteq> fl_addr ` set (pl_done s @ ins) \<union> set_option new2"
proof -
  have e: "map fl_addr (fst (split_and_trim tgid new2 s pos ins)) =
    map fl_addr (pl_done s @ (case (is_split s, new2) of
            (True, Some a) \<Rightarrow> insert_left_piece tgid a (pl_right s) pos ins | _ \<Rightarrow> ins))"
    unfolding split_and_trim_simps by (simp add: modify_lock_addr del: modify_lock_append)
  define tl where "tl = (case (is_split s, new2) of
            (True, Some a) \<Rightarrow> insert_left_piece tgid a (pl_right s) pos ins | _ \<Rightarrow> ins)"
  have "map fl_addr tl = map fl_addr ins \<or> (\<exists>a. new2 = Some a \<and> map fl_addr tl = a # map fl_addr ins)"
    using insert_left_piece_addr [of tgid _ "pl_right s" pos ins]
    by (cases "is_split s"; cases new2) (simp_all add: tl_def)
  then have X: "map fl_addr (fst (split_and_trim tgid new2 s pos ins)) = map fl_addr (pl_done s @ ins) \<or>
    (\<exists>a. new2 = Some a \<and> map fl_addr (fst (split_and_trim tgid new2 s pos ins)) = map fl_addr (pl_done s) @ a # map fl_addr ins)"
    using e [folded tl_def] by auto
  then show "distinct (map fl_addr (fst (split_and_trim tgid new2 s pos ins)))"
    using assms by (elim disjE exE conjE) auto
  have "set (map fl_addr (fst (split_and_trim tgid new2 s pos ins))) \<subseteq> fl_addr ` set (pl_done s @ ins) \<union> set_option new2"
    using X by (elim disjE exE conjE) (simp_all only:, auto)
  then show "fl_addr ` set (fst (split_and_trim tgid new2 s pos ins)) \<subseteq> fl_addr ` set (pl_done s @ ins) \<union> set_option new2"
    by simp
qed

section \<open>The lock list of an inode\<close>

definition grouped :: "nat \<Rightarrow> file_lock list \<Rightarrow> bool" where
  "grouped w ls \<longleftrightarrow> (\<forall>fl \<in> set (dropWhile (own w) (dropWhile (\<lambda>fl. \<not> own w fl) ls)). \<not> own w fl)"

definition posix_last :: "file_lock list \<Rightarrow> bool" where
  "posix_last ls \<longleftrightarrow> (\<forall>fl \<in> set (dropWhile (\<lambda>fl. \<not> IS_POSIX fl) ls). IS_POSIX fl)"

definition ranges_of :: "nat \<Rightarrow> file_lock list \<Rightarrow> range list" where
  "ranges_of w ls = map rng (filter (own w) ls)"

text \<open>
  The list is well formed: every structure occurs once, POSIX locks come last and those of an owner
  stand together, sorted and coalesced, and no two locks of different owners conflict.
\<close>

definition lock_list_ok :: "file_lock list \<Rightarrow> bool" where
  "lock_list_ok ls \<longleftrightarrow>
     distinct (map fl_addr ls) \<and> posix_last ls \<and>
     (\<forall>fl \<in> set ls. grouped (fl_owner fl) ls \<and> ranges_ok (ranges_of (fl_owner fl) ls)) \<and>
     (\<forall>fl \<in> set ls. IS_POSIX fl \<longrightarrow> 0 \<le> fl_start fl \<and> fl_end fl \<le> OFFSET_MAX) \<and>
     (\<forall>fl \<in> set ls. \<forall>fl' \<in> set ls. IS_POSIX fl \<longrightarrow> \<not> posix_locks_conflict fl fl')"

text \<open>A request as the system calls build it, in a structure that is not in the list.\<close>

definition lock_request_ok :: "file_lock \<Rightarrow> file_lock list \<Rightarrow> bool" where
  "lock_request_ok request ls \<longleftrightarrow>
     IS_POSIX request \<and> fl_type request \<in> {F_RDLCK, F_WRLCK, F_UNLCK} \<and>
     0 \<le> fl_start request \<and> fl_start request \<le> fl_end request \<and> fl_end request \<le> OFFSET_MAX \<and>
     fl_addr request \<notin> fl_addr ` set ls"

lemma grouped_any: "lock_list_ok ls \<Longrightarrow> grouped w ls"
proof (cases "\<exists>fl \<in> set ls. fl_owner fl = w")
  case False
  then have e: "dropWhile (\<lambda>fl. \<not> own w fl) ls = []" by (auto simp: own_def)
  show ?thesis unfolding grouped_def e by simp
qed (auto simp: lock_list_ok_def)

lemma ranges_ok_any: "lock_list_ok ls \<Longrightarrow> ranges_ok (ranges_of w ls)"
proof (cases "\<exists>fl \<in> set ls. fl_owner fl = w")
  case False
  then have "filter (own w) ls = []" by (auto simp: own_def filter_empty_conv)
  then show ?thesis by (simp add: ranges_of_def)
qed (auto simp: lock_list_ok_def)

lemma dropWhile_keeps: "\<not> P x \<Longrightarrow> set (x # ys) \<subseteq> set (dropWhile P (A @ x # ys))"
  by (induction A) auto

lemma split_owner:
  assumes "lock_list_ok ls"
  obtains A B where "ls = A @ filter (own w) ls @ B" "A = takeWhile (\<lambda>fl. \<not> own w fl) ls"
    "\<forall>fl \<in> set (A @ B). \<not> own w fl" "B \<noteq> [] \<longrightarrow> fl_owner (hd B) \<noteq> w"
    "filter (own w) ls = [] \<longrightarrow> B = []"
proof -
  define A where "A = takeWhile (\<lambda>fl. \<not> own w fl) ls"
  define D where "D = dropWhile (\<lambda>fl. \<not> own w fl) ls"
  define B where "B = dropWhile (own w) D"
  have A: "\<forall>fl \<in> set A. \<not> own w fl" unfolding A_def by (auto dest: set_takeWhileD)
  have B: "\<forall>fl \<in> set B. \<not> own w fl" using grouped_any [OF assms, of w] unfolding grouped_def B_def D_def .
  have ls: "ls = A @ takeWhile (own w) D @ B" by (simp add: A_def D_def B_def)
  have "filter (own w) ls = filter (own w) (takeWhile (own w) D)"
    using A B by (subst ls) (simp add: filter_empty_conv)
  also have "\<dots> = takeWhile (own w) D" by (auto simp: filter_id_conv dest: set_takeWhileD)
  finally have f: "filter (own w) ls = takeWhile (own w) D" .
  have hd: "fl_owner (hd B) \<noteq> w" if "B \<noteq> []"
  proof -
    have "D \<noteq> []" using that by (auto simp: B_def)
    then obtain x D' where D: "D = x # D'" by (cases D) auto
    have x: "own w x" using D hd_dropWhile [of "\<lambda>fl. \<not> own w fl" ls] by (auto simp: D_def)
    have ls': "ls = A @ x # D'" using D by (metis A_def D_def takeWhile_dropWhile_id)
    have "\<not> \<not> IS_POSIX x" using x by (simp add: own_def)
    from dropWhile_keeps [of "\<lambda>fl. \<not> IS_POSIX fl", OF this, of D' A]
    have "set D \<subseteq> set (dropWhile (\<lambda>fl. \<not> IS_POSIX fl) ls)" unfolding D ls' .
    moreover have "posix_last ls" using assms by (simp add: lock_list_ok_def)
    ultimately have "\<forall>fl \<in> set D. IS_POSIX fl" unfolding posix_last_def by blast
    moreover have "hd B \<in> set D" using that by (metis B_def hd_in_set set_dropWhileD)
    moreover have "\<not> own w (hd B)" using B that by simp
    ultimately show ?thesis unfolding own_def by blast
  qed
  have nil: "B = []" if "filter (own w) ls = []"
  proof (cases D)
    case Nil
    then show ?thesis by (simp add: B_def)
  next
    case (Cons x D')
    then have "own w x" using hd_dropWhile [of "\<lambda>fl. \<not> own w fl" ls] unfolding D_def [symmetric] by simp
    then show ?thesis using that unfolding f Cons by simp
  qed
  show ?thesis
  proof (rule that [OF _ A_def])
    show "ls = A @ filter (own w) ls @ B" unfolding f by (rule ls)
    show "\<forall>fl \<in> set (A @ B). \<not> own w fl" using A B by auto
  qed (use hd nil in blast)+
qed

definition start_loop :: "file_lock \<Rightarrow> posix_loop" where
  "start_loop request = \<lparr>pl_done = [], pl_request = request, pl_added = False, pl_left = None,
     pl_right = None, pl_wake = []\<rparr>"

lemma start_loop_fields [simp]:
  "pl_done (start_loop r) = []" "pl_request (start_loop r) = r" "pl_added (start_loop r) = False"
  "pl_left (start_loop r) = None" "pl_right (start_loop r) = None" "pl_wake (start_loop r) = []"
  by (simp_all add: start_loop_def)

text \<open>The call works on the owner's locks alone, between \<open>A\<close> and \<open>B\<close>.\<close>

lemma own_locks_on_run:
  assumes "lock_list_ok ls" "lock_request_ok request ls"
  obtains A run B where "ls = A @ run @ B" "\<forall>fl \<in> set run. own (fl_owner request) fl"
    "\<forall>fl \<in> set (A @ B). \<not> own (fl_owner request) fl" "run = [] \<longrightarrow> B = []"
    "own_locks_on request ls = apfst (after A) (apsnd (\<lambda>pos. pos @ B) (own_locks (start_loop request) run))"
    "loop_inv (start_loop request) run"
proof -
  define run where "run = filter (own (fl_owner request)) ls"
  obtain A B where AB: "ls = A @ run @ B" "A = takeWhile (\<lambda>fl. \<not> own (fl_owner request) fl) ls"
    "\<forall>fl \<in> set (A @ B). \<not> own (fl_owner request) fl" "B \<noteq> [] \<longrightarrow> fl_owner (hd B) \<noteq> fl_owner request"
    "run = [] \<longrightarrow> B = []"
    using split_owner [OF assms(1)] unfolding run_def by metis
  have d: "distinct (map fl_addr ls)" using assms(1) by (simp add: lock_list_ok_def)
  have own: "\<forall>fl \<in> set run. posix_same_owner request fl" by (auto simp: run_def own_def posix_same_owner_def)
  have sk: "skip_others request ls = A"
    unfolding AB(2) skip_others_def by (intro takeWhile_cong) (auto simp: own_def posix_same_owner_def)
  have "drop (length A) ls = run @ B" using AB(1) by (metis append_eq_conv_conj)
  then have "own_locks_on request ls = own_locks (after A (start_loop request)) (run @ B)"
    by (simp add: own_locks_on_def sk after_def start_loop_def)
  also have "\<dots> = apsnd (\<lambda>pos. pos @ B) (own_locks (after A (start_loop request)) run)"
    using own AB(4) by (intro own_locks_append) (auto simp: posix_same_owner_def)
  also have "\<dots> = apsnd (\<lambda>pos. pos @ B) (apfst (after A) (own_locks (start_loop request) run))"
  proof (subst own_locks_after)
    have "fl_addr ` set A \<subseteq> fl_addr ` set ls" using AB(1) by (metis image_mono set_append sup_ge1)
    then show "fl_addr (pl_request (start_loop request)) \<notin> fl_addr ` set A"
      using assms(2) by (auto simp: lock_request_ok_def)
    show "fl_addr ` set run \<inter> fl_addr ` set A = {}" using d by (subst (asm) AB(1)) auto
  qed simp
  finally have eq: "own_locks_on request ls = apfst (after A) (apsnd (\<lambda>pos. pos @ B) (own_locks (start_loop request) run))"
    by (simp add: apfst_def apsnd_def map_prod_def split: prod.split)
  have "loop_inv (start_loop request) run"
    using assms own d ranges_ok_any [OF assms(1), of "fl_owner request"]
    by (auto simp: loop_inv_def lock_request_ok_def run_def ranges_of_def distinct_map_filter)
  moreover have "\<forall>fl \<in> set run. own (fl_owner request) fl" by (simp add: run_def)
  ultimately show ?thesis using that AB(1,3,5) eq by blast
qed

section \<open>A waiter that is not woken is still blocked\<close>

definition grows :: "file_lock \<Rightarrow> file_lock \<Rightarrow> bool" where
  "grows fl fl' \<longleftrightarrow> fl_addr fl' = fl_addr fl \<and> fl_owner fl' = fl_owner fl \<and> fl_type fl' = fl_type fl \<and>
     IS_POSIX fl' = IS_POSIX fl \<and> fl_start fl' \<le> fl_start fl \<and> fl_end fl \<le> fl_end fl'"

definition survives :: "nat set \<Rightarrow> file_lock list \<Rightarrow> file_lock list \<Rightarrow> bool" where
  "survives W ls ls' \<longleftrightarrow> (\<forall>fl \<in> set ls. fl_addr fl \<notin> W \<longrightarrow> (\<exists>fl' \<in> set ls'. grows fl fl'))"

lemma grows_refl [simp]: "grows fl fl"
  by (simp add: grows_def)

lemma grows_trans: "grows a b \<Longrightarrow> grows b c \<Longrightarrow> grows a c"
  by (auto simp: grows_def)

lemma grows_conflict: "grows fl fl' \<Longrightarrow> posix_locks_conflict w fl \<Longrightarrow> posix_locks_conflict w fl'"
  by (auto simp: grows_def posix_locks_conflict_def posix_same_owner_def locks_overlap_def locks_conflict_def split: if_splits)

lemma survives_trans:
  assumes "survives W a b" "survives W' b c" "W \<subseteq> W'"
  shows "survives W' a c"
  unfolding survives_def
proof (intro ballI impI)
  fix fl assume "fl \<in> set a" "fl_addr fl \<notin> W'"
  then obtain x where x: "x \<in> set b" "grows fl x" using assms(1,3) unfolding survives_def by blast
  then have "fl_addr x \<notin> W'" using \<open>fl_addr fl \<notin> W'\<close> by (simp add: grows_def)
  then show "\<exists>fl' \<in> set c. grows fl fl'" using x assms(2) grows_trans unfolding survives_def by blast
qed

lemma survivesI:
  assumes "\<And>fl. fl \<in> set ls \<Longrightarrow> fl_addr fl \<notin> W \<Longrightarrow> fl \<in> set ls' \<or> (\<exists>fl' \<in> set ls'. grows fl fl')"
  shows "survives W ls ls'"
  unfolding survives_def using assms grows_refl by blast

lemma survives_refl [simp]: "survives W a a"
  by (rule survivesI) simp

lemma survives_append: "survives W a b \<Longrightarrow> survives W (x @ a @ y) (x @ b @ y)"
  by (rule survivesI) (auto simp: survives_def)

lemma step_survives:
  assumes "loop_inv s (fl # rest)"
  shows "fl_type fl = fl_type (pl_request s) \<Longrightarrow> survives (set (pl_wake (merge_same_type fl s))) (pl_done s @ fl # rest) (pl_done (merge_same_type fl s) @ rest)"
    "survives (set (pl_wake (replace_other_type fl (note_overlap fl s)))) (pl_done s @ fl # rest)
       (pl_done (replace_other_type fl (note_overlap fl s)) @ rest)"
proof -
  show "survives (set (pl_wake (replace_other_type fl (note_overlap fl s)))) (pl_done s @ fl # rest)
       (pl_done (replace_other_type fl (note_overlap fl s)) @ rest)"
    by (rule survivesI) (auto simp: loop_defs)
  assume t: "fl_type fl = fl_type (pl_request s)"
  show "survives (set (pl_wake (merge_same_type fl s))) (pl_done s @ fl # rest) (pl_done (merge_same_type fl s) @ rest)"
  proof (cases "pl_added s")
    case False
    then show ?thesis
      by (intro survivesI) (auto simp: loop_defs grows_def IS_POSIX_def)
  next
    case True
    have u: "fl_type (pl_request s) \<noteq> F_UNLCK" using loop_inv_rest(5) [OF assms] t by simp
    have d: "pl_done s = kept s @ [pl_request s]" by (rule loop_invD(8) [OF assms True u])
    define r where "r = (pl_request s)\<lparr>fl_start := min (fl_start (pl_request s)) (fl_start fl),
      fl_end := max (fl_end (pl_request s)) (fl_end fl)\<rparr>"
    have "fl_addr (pl_request s) \<notin> fl_addr ` set (kept s)" using loop_invD(1) [OF assms] unfolding d by simp
    then have e: "pl_done (merge_same_type fl s) = kept s @ [r]"
      using True d by (simp add: loop_defs map_notin r_def min_def max_def)
    have w: "fl_addr fl \<in> set (pl_wake (merge_same_type fl s))" using True by (simp add: loop_defs)
    have "grows (pl_request s) r" by (simp add: r_def grows_def IS_POSIX_def)
    then show ?thesis unfolding e d using w by (intro survivesI) auto
  qed
qed

lemma wake_mono:
  "set (pl_wake s) \<subseteq> set (pl_wake (merge_same_type fl s))" "set (pl_wake s) \<subseteq> set (pl_wake (replace_other_type fl s))"
  by (auto simp: loop_defs)

lemma own_locks_wake_mono: "set (pl_wake s) \<subseteq> set (pl_wake (fst (own_locks s rest)))"
proof (induction rest arbitrary: s)
  case (Cons fl rest)
  show ?case
  proof (cases rule: own_locks_Cons_cases [of s fl rest])
    case skip
    show ?thesis unfolding skip(1) using Cons [of "next_lock fl s"] by simp
  next
    case merge
    show ?thesis unfolding merge(1) using Cons [of "merge_same_type fl s"] wake_mono(1) by blast
  next
    case replace
    show ?thesis unfolding replace(1)
      using Cons [of "replace_other_type fl (note_overlap fl s)"] wake_mono(2) [of "note_overlap fl s" fl] by simp
  next
    case left
    show ?thesis unfolding left(1) using Cons [of "next_lock fl (note_overlap fl s)"] by simp
  qed simp_all
qed simp

lemma own_locks_survives:
  assumes "loop_inv s rest"
  shows "survives (set (pl_wake (fst (own_locks s rest)))) (pl_done s @ rest)
    (pl_done (fst (own_locks s rest)) @ snd (own_locks s rest))"
  using assms
proof (induction rest arbitrary: s)
  case (Cons fl rest)
  note inv = Cons.prems
  show ?case
  proof (cases rule: own_locks_Cons_cases [of s fl rest])
    case skip
    show ?thesis unfolding skip(1) using Cons.IH [OF skip_step(1) [OF inv skip(2)]] by (simp add: next_lock_def)
  next
    case merge
    show ?thesis unfolding merge(1)
      by (rule survives_trans [OF step_survives(1) [OF inv merge(3)] Cons.IH [OF merge_step(1) [OF inv merge(3-5)]] own_locks_wake_mono])
  next
    case replace
    show ?thesis unfolding replace(1)
      by (rule survives_trans [OF step_survives(2) [OF inv] Cons.IH [OF replace_step(1) [OF inv replace(3,4)]] own_locks_wake_mono])
  next
    case left
    show ?thesis unfolding left(1) using Cons.IH [OF left_step(1) [OF inv left(2,3)]] by (simp add: next_lock_def)
  qed simp_all
qed simp

lemma modify_survives: "survives (set_option a) ls (modify_lock a f ls)"
  by (rule survivesI) (auto simp: modify_lock_def)

lemma split_and_trim_survives:
  assumes "set pos \<subseteq> set ins"
  shows "survives (set (snd (split_and_trim tgid new2 s pos ins))) (pl_done s @ pos) (fst (split_and_trim tgid new2 s pos ins))"
proof -
  define tl where "tl = (case (is_split s, new2) of
            (True, Some a) \<Rightarrow> insert_left_piece tgid a (pl_right s) pos ins | _ \<Rightarrow> ins)"
  define W where "W = set (snd (split_and_trim tgid new2 s pos ins))"
  have "set ins \<subseteq> set tl"
    by (cases "is_split s"; cases new2) (auto simp: tl_def insert_left_piece_def locks_insert_lock_def split: option.split)
  then have 1: "survives {} (pl_done s @ pos) (pl_done s @ tl)" using assms by (intro survivesI) auto
  have 2: "set_option (pl_right s) \<subseteq> W" "set_option (if is_split s then new2 else pl_left s) \<subseteq> W"
    unfolding W_def split_and_trim_simps by (auto split: option.split)
  have mod: "survives W ls (modify_lock a f ls)" if "set_option a \<subseteq> W" for a f ls
    using modify_survives [of a ls f] that unfolding survives_def by blast
  show ?thesis
    unfolding split_and_trim_simps(1) tl_def [symmetric] W_def [symmetric]
    by (rule survives_trans [OF survives_trans [OF 1 mod [OF 2(1)] empty_subsetI] mod [OF 2(2)] order_refl])
qed

section \<open>The whole call\<close>

definition fresh_allocs :: "nat option \<Rightarrow> nat option \<Rightarrow> file_lock list \<Rightarrow> bool" where
  "fresh_allocs alloc alloc2 ls \<longleftrightarrow>
     (alloc = None \<or> alloc \<noteq> alloc2) \<and>
     (\<forall>fl \<in> set ls. alloc \<noteq> Some (fl_addr fl) \<and> alloc2 \<noteq> Some (fl_addr fl))"

lemma wake_nothing [simp]: "wake_up_blocks [] st = st"
  by (simp add: wake_up_blocks_def)

lemma wake_fields [simp]: "i_flock (wake_up_blocks W st) = i_flock st"
  by (simp add: wake_up_blocks_def)

text \<open>What a call that changes the list does to it.\<close>

definition relocks :: "file_lock \<Rightarrow> file_lock list \<Rightarrow> nat set \<Rightarrow> nat set \<Rightarrow> file_lock list \<Rightarrow> bool" where
  "relocks request ls N W ls' \<longleftrightarrow>
     (\<exists>A run B run'. ls = A @ run @ B \<and> ls' = A @ run' @ B \<and>
        (\<forall>fl \<in> set run. own (fl_owner request) fl) \<and> (\<forall>fl \<in> set run'. own (fl_owner request) fl) \<and>
        (\<forall>fl \<in> set (A @ B). \<not> own (fl_owner request) fl) \<and> (run = [] \<longrightarrow> B = []) \<and>
        map rng run' = cover (fl_start request) (fl_end request) (fl_type request) (map rng run) \<and>
        distinct (map fl_addr run') \<and> fl_addr ` set run' \<subseteq> fl_addr ` set run \<union> N \<and> survives W run run')"

lemma fresh_pair:
  assumes "fresh_allocs alloc alloc2 ls"
  obtains n1 n2 where "n1 \<noteq> n2" "{n1, n2} \<inter> fl_addr ` set ls = {}" "alloc \<in> {None, Some n1}" "alloc2 \<in> {None, Some n2}"
proof -
  have a: "\<forall>n. alloc = Some n \<longrightarrow> n \<notin> fl_addr ` set ls" "\<forall>n. alloc2 = Some n \<longrightarrow> n \<notin> fl_addr ` set ls"
    "alloc = None \<or> alloc \<noteq> alloc2"
    using assms by (auto simp: fresh_allocs_def)
  have "finite (fl_addr ` set ls \<union> set_option alloc \<union> set_option alloc2)" by simp
  from ex_new_if_finite [OF infinite_UNIV_nat this] obtain x where x: "x \<notin> fl_addr ` set ls \<union> set_option alloc \<union> set_option alloc2" ..
  have "finite (insert x (fl_addr ` set ls \<union> set_option alloc))" by simp
  from ex_new_if_finite [OF infinite_UNIV_nat this] obtain y where y: "y \<notin> insert x (fl_addr ` set ls \<union> set_option alloc)" ..
  show ?thesis
    using x y a that [of "case alloc of None \<Rightarrow> x | Some m \<Rightarrow> m" "case alloc2 of None \<Rightarrow> y | Some m \<Rightarrow> m"]
    by (cases alloc; cases alloc2) simp_all
qed

lemma subseq_distinct: "subseq xs ys \<Longrightarrow> distinct ys \<Longrightarrow> set xs \<subseteq> set ys \<and> distinct xs"
  by (induction rule: list_emb.induct) auto

lemma loop_result_facts:
  assumes inv: "loop_inv (start_loop request) run" and own: "\<forall>fl \<in> set run. own (fl_owner request) fl" "IS_POSIX request"
    and n: "n1 \<noteq> n2" "{n1, n2} \<inter> fl_addr ` set run = {}"
  defines "L \<equiv> own_locks (start_loop request) run"
  shows "\<forall>fl \<in> set (loop_result tgid n1 n2 L). own (fl_owner request) fl"
    "distinct (map fl_addr (loop_result tgid n1 n2 L))"
    "map rng (loop_result tgid n1 n2 L) = cover (fl_start request) (fl_end request) (fl_type request) (map rng run)"
proof -
  define ins where "ins = (if pl_added (fst L) \<or> fl_type (pl_request (fst L)) = F_UNLCK then snd L
        else locks_insert_lock tgid n1 (pl_request (fst L)) (snd L))"
  have r: "loop_result tgid n1 n2 L = fst (split_and_trim tgid (Some n2) (fst L) (snd L) ins)"
    by (simp add: loop_result_def ins_def)
  have o: "(\<forall>x \<in> set (pl_done (fst L) @ snd L). own (fl_owner request) x) \<and> own (fl_owner request) (pl_request (fst L))"
    unfolding L_def using own by (intro own_locks_own) (auto simp: own_def)
  then have "\<forall>x \<in> set (pl_done (fst L) @ snd L @ ins). own (fl_owner request) x"
    using insert_own [of "fl_owner request" "pl_request (fst L)" tgid n1 "snd L"] by (auto simp: ins_def)
  then show "\<forall>fl \<in> set (loop_result tgid n1 n2 L). own (fl_owner request) fl" unfolding r by (rule split_and_trim_own)
  have sub: "subseq (map fl_addr (pl_done (fst L) @ snd L)) (map fl_addr run)"
    using own_locks_addresses [of "start_loop request" run] by (simp add: L_def)
  then have d: "distinct (map fl_addr (pl_done (fst L) @ snd L))" "fl_addr ` set (pl_done (fst L) @ snd L) \<subseteq> fl_addr ` set run"
    using subseq_distinct [OF sub] loop_invD(1) [OF inv] by auto
  have "distinct (map fl_addr (pl_done (fst L) @ ins))" "\<forall>x. Some n2 = Some x \<longrightarrow> x \<notin> fl_addr ` set (pl_done (fst L) @ ins)"
    using d n by (auto simp: ins_def locks_insert_lock_def locks_copy_lock_def locks_copy_header_def locks_init_lock_def)
  then show "distinct (map fl_addr (loop_result tgid n1 n2 L))" unfolding r by (rule split_and_trim_addr(1))
  show "map rng (loop_result tgid n1 n2 L) = cover (fl_start request) (fl_end request) (fl_type request) (map rng run)"
    using own_locks_covers [OF inv n(1), of tgid] n(2) by (simp add: covers_def L_def trimmed_def kept_def)
qed

lemma subset_help: "P \<union> Q \<subseteq> R \<Longrightarrow> I \<subseteq> Q \<union> K \<Longrightarrow> K \<subseteq> N \<Longrightarrow> P \<union> I \<subseteq> R \<union> N"
  by blast

lemma commit_relocks:
  assumes ls: "ls = A @ run @ B" "\<forall>fl \<in> set run. own (fl_owner request) fl" "\<forall>fl \<in> set (A @ B). \<not> own (fl_owner request) fl" "run = [] \<longrightarrow> B = []"
    and inv: "loop_inv (start_loop request) run"
    and d: "distinct (map fl_addr ls)" and posix: "IS_POSIX request" and fresh: "fresh_allocs new_fl new_fl2 ls"
  defines "s \<equiv> fst (own_locks (start_loop request) run)" and "pos \<equiv> snd (own_locks (start_loop request) run)"
  assumes ins: "ins = (if pl_added s \<or> fl_type request = F_UNLCK then pos else locks_insert_lock tgid a (pl_request s) pos)"
    "\<not> pl_added s \<Longrightarrow> fl_type request \<noteq> F_UNLCK \<Longrightarrow> new_fl = Some a"
    and split: "is_split s \<Longrightarrow> new_fl2 \<noteq> None"
  defines "r \<equiv> split_and_trim tgid new_fl2 (after A s) (pos @ B) (ins @ B)"
  shows "relocks request ls (set_option new_fl \<union> set_option new_fl2) (set (snd r)) (fst r)"
proof -
  define q where "q = split_and_trim tgid new_fl2 s pos ins"
  obtain n1 n2 where n: "n1 \<noteq> n2" "{n1, n2} \<inter> fl_addr ` set ls = {}" "new_fl \<in> {None, Some n1}" "new_fl2 \<in> {None, Some n2}"
    using fresh_pair [OF fresh] .
  have dd: "fl_addr ` set (A @ B) \<inter> fl_addr ` set run = {}" "distinct (map fl_addr run)" using d ls(1) by auto
  have nr: "{n1, n2} \<inter> fl_addr ` set run = {}" "\<forall>x. new_fl2 = Some x \<longrightarrow> x \<notin> fl_addr ` set (A @ B)"
    using n(2,4) ls(1) by auto
  have t: "fl_type (pl_request s) = fl_type request" using own_locks_type [of "start_loop request" run] by (simp add: s_def)
  have sub: "subseq (map fl_addr (pl_done s @ pos)) (map fl_addr run)"
    using own_locks_addresses [of "start_loop request" run] by (simp add: s_def pos_def)
  then have dp: "distinct (map fl_addr (pl_done s @ pos))" "fl_addr ` set (pl_done s @ pos) \<subseteq> fl_addr ` set run"
    using subseq_distinct [OF sub] dd(2) by auto
  have lr: "q = split_and_trim tgid (Some n2) s pos ins"
    unfolding q_def using split n(4) by (cases "is_split s") (auto intro: split_and_trim_irrelevant)
  have ins': "ins = (if pl_added s \<or> fl_type request = F_UNLCK then pos else locks_insert_lock tgid n1 (pl_request s) pos)"
    using ins n(3) by auto
  have q: "fst q = loop_result tgid n1 n2 (own_locks (start_loop request) run)"
    unfolding lr by (simp add: loop_result_def ins' s_def [symmetric] pos_def t)
  have left: "\<forall>x. pl_left s = Some x \<longrightarrow> x \<in> fl_addr ` set run" "\<forall>x. pl_right s = Some x \<longrightarrow> x \<in> fl_addr ` set run"
    using own_locks_left [of "start_loop request" run] own_locks_right_in [of "start_loop request" run]
    by (auto simp: s_def)
  have r: "fst r = A @ fst q @ B" "snd r = snd q"
    unfolding r_def q_def using left dd(1) nr(2) by (intro split_and_trim_frame; blast)+
  have addr: "map fl_addr ins = (if pl_added s \<or> fl_type request = F_UNLCK then [] else [n1]) @ map fl_addr pos"
    by (simp add: ins')
  have "fl_addr ` set ins = set (map fl_addr ins)" by simp
  then have ai: "fl_addr ` set ins \<subseteq> fl_addr ` set pos \<union> set_option new_fl" using addr ins(2) n(3) by auto
  have "fl_addr ` set (fst q) \<subseteq> fl_addr ` set (pl_done s @ ins) \<union> set_option new_fl2"
    unfolding q_def
  proof (rule split_and_trim_addr(2))
    show "distinct (map fl_addr (pl_done s @ ins))" using dp nr(1) unfolding map_append addr by auto
    have "set_option new_fl \<subseteq> {n1}" using n(3) by (cases new_fl) auto
    then have "fl_addr ` set (pl_done s @ ins) \<subseteq> fl_addr ` set run \<union> {n1}"
      unfolding set_append image_Un by (rule subset_help [OF dp(2) [unfolded set_append image_Un] ai])
    then show "\<forall>x. new_fl2 = Some x \<longrightarrow> x \<notin> fl_addr ` set (pl_done s @ ins)" 
    proof (intro allI impI)
      assume sub: "fl_addr ` set (pl_done s @ ins) \<subseteq> fl_addr ` set run \<union> {n1}"
      fix x assume "new_fl2 = Some x"
      then have "x = n2" using n(4) by simp
      then show "x \<notin> fl_addr ` set (pl_done s @ ins)" using sub n(1) nr(1) by blast
    qed
  qed
  then have 1: "fl_addr ` set (fst q) \<subseteq> fl_addr ` set run \<union> (set_option new_fl \<union> set_option new_fl2)"
    using subset_help [OF dp(2) [unfolded set_append image_Un] ai order_refl] unfolding set_append image_Un by blast
  have "set pos \<subseteq> set ins" by (auto simp: ins' locks_insert_lock_def)
  from split_and_trim_survives [OF this]
  have "survives (set (snd q)) (pl_done s @ pos) (fst q)" unfolding q_def .
  moreover have "survives (set (pl_wake s)) run (pl_done s @ pos)"
    using own_locks_survives [OF inv] by (simp add: s_def pos_def)
  moreover have "set (pl_wake s) \<subseteq> set (snd q)" by (simp add: q_def split_and_trim_simps)
  ultimately have 2: "survives (set (snd q)) run (fst q)" using survives_trans by blast
  show ?thesis unfolding relocks_def r
    using ls loop_result_facts [OF inv ls(2) posix n(1) nr(1), of tgid] 1 2 unfolding q [symmetric] by blast
qed

lemma whole_file_no_split:
  assumes "loop_inv (start_loop request) run" "\<forall>fl \<in> set run. 0 \<le> fl_start fl" "fl_start request = 0"
  shows "\<not> is_split (fst (own_locks (start_loop request) run))"
  using own_locks_left_stays [OF assms(1)] assms(2,3) by (auto simp: is_split_def)

lemma unlock_nothing:
  assumes inv: "loop_inv (start_loop request) run" and own: "\<forall>fl \<in> set run. own (fl_owner request) fl" "IS_POSIX request"
    and "\<not> pl_added (fst (own_locks (start_loop request) run))" "fl_type request = F_UNLCK"
  shows "cover (fl_start request) (fl_end request) (fl_type request) (map rng run) = map rng run"
proof -
  have "fresh_allocs None None run" by (simp add: fresh_allocs_def)
  then obtain n1 n2 where n: "n1 \<noteq> n2" "{n1, n2} \<inter> fl_addr ` set run = {}" by (rule fresh_pair)
  have "loop_result 0 n1 n2 (own_locks (start_loop request) run) = run"
    using own_locks_not_added [OF assms(4)] assms(5) own_locks_type [of "start_loop request" run]
    by (simp add: loop_result_def split_and_trim_simps is_split_def)
  then show ?thesis using loop_result_facts(3) [OF inv own n, of 0] by simp
qed

lemma relocks_mono: "relocks request ls N W ls' \<Longrightarrow> N \<subseteq> N' \<Longrightarrow> relocks request ls N' W ls'"
  unfolding relocks_def by (elim exE conjE, intro exI conjI, assumption+) blast+

lemma finish_lock_cases:
  assumes st: "i_flock st = A @ run @ B" and own: "\<forall>fl \<in> set run. own (fl_owner request) fl" "\<forall>fl \<in> set (A @ B). \<not> own (fl_owner request) fl" "run = [] \<longrightarrow> B = []"
    and inv: "loop_inv (start_loop request) run"
    and d: "distinct (map fl_addr (i_flock st))" and posix: "IS_POSIX request" and fresh: "fresh_allocs new_fl new_fl2 (i_flock st)"
  defines "s \<equiv> fst (own_locks (start_loop request) run)" and "pos \<equiv> snd (own_locks (start_loop request) run)"
  obtains (no_memory) "finish_lock tgid new_fl new_fl2 (after A s, pos @ B) st = (Inl ENOLCK, st)"
      "is_split s \<and> new_fl2 = None \<or> fl_type request \<noteq> F_UNLCK \<and> new_fl = None"
  | (no_entry) "finish_lock tgid new_fl new_fl2 (after A s, pos @ B) st = (Inl ENOENT, st)"
      "fl_type request = F_UNLCK" "fl_flags request AND FL_EXISTS \<noteq> 0"
  | (locked) W ls' where "finish_lock tgid new_fl new_fl2 (after A s, pos @ B) st = (Inr Locked, wake_up_blocks W (st\<lparr>i_flock := ls'\<rparr>))"
      "relocks request (i_flock st) (set_option new_fl \<union> set_option new_fl2) (set W) ls'"
proof -
  have t: "fl_type (pl_request s) = fl_type request" using own_locks_type [of "start_loop request" run] by (simp add: s_def)
  have same: "pl_done s @ pos = run \<and> pl_wake s = []" if "is_split s \<or> \<not> pl_added s"
    using that own_locks_split [OF inv] own_locks_not_added [of "start_loop request" run]
    by (auto simp: is_split_def s_def pos_def)
  then have bail: "wake_up_blocks (pl_wake s) (st\<lparr>i_flock := A @ pl_done s @ pos @ B\<rparr>) = st" if "is_split s \<or> \<not> pl_added s"
    using that st by (metis append.assoc lock_state.surjective lock_state.update_convs(1) wake_nothing)
  note commit = commit_relocks [OF st own inv d posix fresh, folded s_def pos_def]
  consider (split) "is_split s" "new_fl2 = None" | (unlock) "\<not> (is_split s \<and> new_fl2 = None)" "\<not> pl_added s" "fl_type request = F_UNLCK"
    | (new) "\<not> (is_split s \<and> new_fl2 = None)" "\<not> pl_added s" "fl_type request \<noteq> F_UNLCK"
    | (added) "\<not> (is_split s \<and> new_fl2 = None)" "pl_added s" by blast
  then show ?thesis
  proof cases
    case split
    then show ?thesis using bail by (intro no_memory) (simp_all add: finish_lock_def Let_def is_split_def)
  next
    case unlock
    have rq: "pl_request s = request" using own_locks_not_added [of "start_loop request" run] unlock(2) by (simp add: s_def)
    have res: "finish_lock tgid new_fl new_fl2 (after A s, pos @ B) st =
      (if fl_flags request AND FL_EXISTS \<noteq> 0 then Inl ENOENT else Inr Locked, st)"
      using unlock bail t rq by (simp add: finish_lock_def Let_def is_split_def)
    show ?thesis
    proof (cases "fl_flags request AND FL_EXISTS = 0")
      case True
      have "relocks request (i_flock st) (set_option new_fl \<union> set_option new_fl2) (set []) (i_flock st)"
        unfolding relocks_def using st own unlock_nothing [OF inv own(1) posix] unlock(2,3) loop_invD(1) [OF inv]
        by (intro exI [of _ A] exI [of _ run] exI [of _ B] exI [of _ run]) (simp add: s_def)
      then show ?thesis using locked [of "[]" "i_flock st"] res True by simp
    qed (use no_entry res unlock in simp)
  next
    case new
    show ?thesis
    proof (cases new_fl)
      case None
      then show ?thesis using new bail t by (intro no_memory) (simp_all add: finish_lock_def Let_def is_split_def)
    next
      case (Some a)
      define r where "r = split_and_trim tgid new_fl2 (after A s) (pos @ B) (locks_insert_lock tgid a (pl_request s) pos @ B)"
      have "finish_lock tgid new_fl new_fl2 (after A s, pos @ B) st = (Inr Locked, wake_up_blocks (snd r) (st\<lparr>i_flock := fst r\<rparr>))"
        using new Some t by (simp add: finish_lock_def Let_def is_split_def r_def locks_insert_lock_def split: prod.split)
      moreover have "relocks request (i_flock st) (set_option new_fl \<union> set_option new_fl2) (set (snd r)) (fst r)"
        unfolding r_def by (rule commit) (use new Some in auto)
      ultimately show ?thesis by (rule locked)
    qed
  next
    case added
    define r where "r = split_and_trim tgid new_fl2 (after A s) (pos @ B) (pos @ B)"
    have "finish_lock tgid new_fl new_fl2 (after A s, pos @ B) st = (Inr Locked, wake_up_blocks (snd r) (st\<lparr>i_flock := fst r\<rparr>))"
      using added by (simp add: finish_lock_def Let_def is_split_def r_def split: prod.split)
    moreover have "relocks request (i_flock st) (set_option new_fl \<union> set_option new_fl2) (set (snd r)) (fst r)"
      unfolding r_def by (rule commit) (use added in auto)
    ultimately show ?thesis by (rule locked)
  qed
qed

text \<open>Every way a call can end.\<close>

lemma posix_lock_file_cases:
  assumes ok: "lock_list_ok (i_flock st)" "lock_request_ok request (i_flock st)" "fresh_allocs alloc alloc2 (i_flock st)"
  obtains (conflict) fl where "conflicting_lock request st = Some fl"
      "posix_lock_file tgid alloc alloc2 request st = block_on_conflict request fl st"
  | (access) "conflicting_lock request st = None" "fl_flags request AND FL_ACCESS \<noteq> 0"
      "posix_lock_file tgid alloc alloc2 request st = (Inr Locked, st)"
  | (no_memory) "conflicting_lock request st = None" "fl_flags request AND FL_ACCESS = 0"
      "posix_lock_file tgid alloc alloc2 request st = (Inl ENOLCK, st)" "alloc = None \<or> alloc2 = None"
  | (no_entry) "conflicting_lock request st = None" "fl_flags request AND FL_ACCESS = 0"
      "posix_lock_file tgid alloc alloc2 request st = (Inl ENOENT, st)"
      "fl_type request = F_UNLCK" "fl_flags request AND FL_EXISTS \<noteq> 0"
  | (locked) W ls' where "conflicting_lock request st = None" "fl_flags request AND FL_ACCESS = 0"
      "posix_lock_file tgid alloc alloc2 request st = (Inr Locked, wake_up_blocks W (st\<lparr>i_flock := ls'\<rparr>))"
      "relocks request (i_flock st) (set_option alloc \<union> set_option alloc2) (set W) ls'"
proof (cases "conflicting_lock request st")
  case (Some fl)
  then show ?thesis by (intro conflict) (auto simp: posix_lock_file_def Let_def)
next
  case free: None
  show ?thesis
  proof (cases "fl_flags request AND FL_ACCESS = 0")
    case False
    then show ?thesis using free by (intro access) (auto simp: posix_lock_file_def Let_def)
  next
    case acc: True
    define ls where "ls = i_flock st"
    obtain A run B where ls: "ls = A @ run @ B" "\<forall>fl \<in> set run. own (fl_owner request) fl"
      "\<forall>fl \<in> set (A @ B). \<not> own (fl_owner request) fl" "run = [] \<longrightarrow> B = []"
      "own_locks_on request ls = apfst (after A) (apsnd (\<lambda>pos. pos @ B) (own_locks (start_loop request) run))"
      "loop_inv (start_loop request) run"
      using own_locks_on_run [OF ok(1,2)] unfolding ls_def [symmetric] .
    define new_fl new_fl2 where n: "new_fl = (if needs_new_locks request then alloc else None)"
      "new_fl2 = (if needs_new_locks request then alloc2 else None)"
    define L where "L = own_locks (start_loop request) run"
    have res: "posix_lock_file tgid alloc alloc2 request st = finish_lock tgid new_fl new_fl2 (after A (fst L), snd L @ B) st"
      using free acc ls(5) by (simp add: posix_lock_file_def Let_def n L_def ls_def [symmetric] apfst_def apsnd_def map_prod_def split: prod.split)
    have "\<forall>fl \<in> set run. 0 \<le> fl_start fl" using ok(1) ls(1,2) by (auto simp: lock_list_ok_def own_def ls_def)
    then have ns: "new_fl2 = None \<longrightarrow> alloc2 = None \<or> \<not> is_split (fst L)" "new_fl = None \<longrightarrow> alloc = None \<or> fl_type request = F_UNLCK"
      using whole_file_no_split [OF ls(6)] acc by (auto simp: n L_def needs_new_locks_def)
    have fr: "fresh_allocs new_fl new_fl2 (i_flock st)" using ok(3) by (simp add: fresh_allocs_def n)
    have dp: "distinct (map fl_addr (i_flock st))" "IS_POSIX request" using ok(1,2) by (simp_all add: lock_list_ok_def lock_request_ok_def)
    show ?thesis
    proof (cases rule: finish_lock_cases [OF ls(1) [unfolded ls_def] ls(2,3,4,6) dp fr, of tgid, folded L_def])
      case 1
      show ?thesis by (rule no_memory [OF free acc]) (use 1 res ns in auto)
    next
      case 2
      show ?thesis by (rule no_entry [OF free acc]) (use 2 res in auto)
    next
      case (3 W ls')
      show ?thesis
      proof (rule locked [OF free acc])
        show "posix_lock_file tgid alloc alloc2 request st = (Inr Locked, wake_up_blocks W (st\<lparr>i_flock := ls'\<rparr>))"
          using 3(1) res by simp
        show "relocks request (i_flock st) (set_option alloc \<union> set_option alloc2) (set W) ls'"
          by (rule relocks_mono [OF 3(2)]) (auto simp: n)
      qed
    qed
  qed
qed

end
