(* ===== verification/Lock_Table.thy ===== *)
theory Lock_Table
  imports Posix_Locks
begin

text \<open>
  What the list of locks means: a table that gives for each owner and each byte of the file the lock held
  there. Every call keeps the list well formed (\<open>lock_list_ok\<close>) and refines an update of the table.
\<close>

section \<open>The invariant of the list\<close>

lemma posix_last_Cons [simp]:
  "posix_last (x # X) \<longleftrightarrow> (if IS_POSIX x then \<forall>y \<in> set X. IS_POSIX y else posix_last X)"
  by (simp add: posix_last_def)

lemma posix_last_Nil [simp]: "posix_last []"
  by (simp add: posix_last_def)

lemma posix_last_all: "\<forall>y \<in> set Y. IS_POSIX y \<Longrightarrow> posix_last Y"
  unfolding posix_last_def using set_dropWhileD by fastforce

lemma posix_last_append:
  "posix_last (X @ Y) \<longleftrightarrow> posix_last X \<and> posix_last Y \<and> ((\<exists>x \<in> set X. IS_POSIX x) \<longrightarrow> (\<forall>y \<in> set Y. IS_POSIX y))"
proof (induction X)
  case (Cons x X)
  then show ?case using posix_last_all [of Y] by (cases "IS_POSIX x") (simp_all add: ball_Un, blast+)
qed simp

lemma grouped_skip: "\<forall>x \<in> set X. \<not> own w x \<Longrightarrow> grouped w (X @ Y) = grouped w Y"
  by (induction X) (auto simp: grouped_def)

lemma grouped_trail: "\<forall>y \<in> set Y. \<not> own w y \<Longrightarrow> grouped w (X @ Y) = grouped w X"
proof (induction X)
  case Nil
  then have e: "dropWhile (\<lambda>fl. \<not> own w fl) Y = []" by simp
  show ?case unfolding grouped_def append_Nil e by simp
next
  case (Cons x X)
  have "(\<forall>fl \<in> set (dropWhile (own w) (X @ Y)). \<not> own w fl) = (\<forall>fl \<in> set (dropWhile (own w) X). \<not> own w fl)"
    using Cons.prems by (induction X) (auto dest: set_dropWhileD)
  then show ?case using Cons by (simp add: grouped_def)
qed

lemma grouped_gap:
  assumes "x \<in> set X" "own w x" "g \<in> set G" "\<not> own w g" "y \<in> set Y" "own w y"
  shows "\<not> grouped w (X @ G @ Y)"
proof
  assume g: "grouped w (X @ G @ Y)"
  obtain X1 X2 where X: "X = X1 @ x # X2" using assms(1) by (meson split_list)
  have D: "set (x # X2 @ G @ Y) \<subseteq> set (dropWhile (\<lambda>fl. \<not> own w fl) (X @ G @ Y))"
    using dropWhile_keeps [of "\<lambda>fl. \<not> own w fl" x "X2 @ G @ Y" X1] assms(2) X by simp
  obtain G1 G2 where G: "G = G1 @ g # G2" using assms(3) by (meson split_list)
  obtain P where P: "dropWhile (\<lambda>fl. \<not> own w fl) (X @ G @ Y) = P @ g # G2 @ Y"
    using dropWhile_append1 [of x X "\<lambda>fl. \<not> own w fl" "G @ Y"] assms(1,2) G by simp
  have sub: "set (g # G2 @ Y) \<subseteq> set (dropWhile (own w) (P @ g # G2 @ Y))"
    by (rule dropWhile_keeps [of "own w", OF assms(4)])
  have "y \<in> set (g # G2 @ Y)" using assms(5) by simp
  then show False using g assms(6) sub unfolding grouped_def P by blast
qed

lemma type_at_member: "ranges_ok R \<Longrightarrow> (a, b, ty) \<in> set R \<Longrightarrow> a \<le> x \<Longrightarrow> x \<le> b \<Longrightarrow> type_at R x = Some ty"
proof (induction R)
  case (Cons y R)
  then show ?case by (cases y) (fastforce simp: apart_def)
qed simp

lemma type_at_SomeE:
  assumes "type_at R x = Some ty"
  obtains a b where "(a, b, ty) \<in> set R" "a \<le> x" "x \<le> b"
  using assms by (auto simp: type_at_def find_Some_iff) (metis nth_mem)

lemma cover_bounds:
  assumes "ranges_ok R" "s \<le> e" "\<forall>(a, b, ty) \<in> set R. lo \<le> a \<and> b \<le> hi" "lo \<le> s" "e \<le> hi"
  shows "\<forall>(a, b, ty) \<in> set (cover s e t R). lo \<le> a \<and> b \<le> hi"
  using assms
proof (induction rule: cover_induct [where t = t])
  case (Beyond s e R)
  then show ?case using cover_beyond [OF Beyond(1-3)] by auto
next
  case (Skip s e a b ty R)
  then show ?case using cover_skip [of b s a ty t e R] by auto
next
  case (Merge s e a b R)
  then show ?case using cover_merge [of a b t R s e] by (auto simp: min_def max_def)
next
  case (Right s e a b ty R)
  then show ?case using cover_right [of a b ty R e s t] by auto
next
  case (Inside s e a b ty R)
  then show ?case using cover_inside [of s a b e t ty R] by auto
next
  case (Left s e a b ty R)
  then show ?case using cover_left [of a b ty R s e t] by auto
qed

text \<open>The lock table: which lock an owner holds at a byte.\<close>

definition lock_table :: "file_lock list \<Rightarrow> nat \<Rightarrow> int \<Rightarrow> u8 option" where
  "lock_table ls w x = type_at (ranges_of w ls) x"

definition relock_table :: "file_lock \<Rightarrow> (nat \<Rightarrow> int \<Rightarrow> u8 option) \<Rightarrow> nat \<Rightarrow> int \<Rightarrow> u8 option" where
  "relock_table request m = m(fl_owner request := \<lambda>x.
     if fl_start request \<le> x \<and> x \<le> fl_end request
     then (if fl_type request = F_UNLCK then None else Some (fl_type request))
     else m (fl_owner request) x)"

text \<open>The other owners allow the request: no lock of theirs on its bytes excludes it.\<close>

definition table_allows :: "file_lock \<Rightarrow> (nat \<Rightarrow> int \<Rightarrow> u8 option) \<Rightarrow> bool" where
  "table_allows request m \<longleftrightarrow>
     (\<forall>w x ty. w \<noteq> fl_owner request \<and> fl_start request \<le> x \<and> x \<le> fl_end request \<and> m w x = Some ty \<longrightarrow>
        fl_type request = F_UNLCK \<or> (fl_type request = F_RDLCK \<and> ty = F_RDLCK))"

lemma ranges_of_split:
  assumes "\<forall>fl \<in> set (A @ B). \<not> own w fl" "\<forall>fl \<in> set run. own w fl"
  shows "ranges_of w (A @ run @ B) = map rng run"
proof -
  have "filter (own w) A = []" "filter (own w) B = []" "filter (own w) run = run"
    using assms by (simp_all add: filter_id_conv)
  then show ?thesis by (simp add: ranges_of_def)
qed

lemma ranges_of_other:
  assumes "\<forall>fl \<in> set run. own v fl" "\<forall>fl \<in> set run'. own v fl" "w \<noteq> v"
  shows "ranges_of w (A @ run @ B) = ranges_of w (A @ run' @ B)"
proof -
  have "\<forall>fl \<in> set run. \<not> own w fl" "\<forall>fl \<in> set run'. \<not> own w fl" using assms by (simp_all add: own_def)
  then have "filter (own w) run = []" "filter (own w) run' = []" by simp_all
  then show ?thesis by (simp add: ranges_of_def)
qed

lemma relocksE:
  assumes "relocks request ls N W ls'"
  obtains A run B run' where "ls = A @ run @ B" "ls' = A @ run' @ B"
    "\<forall>fl \<in> set run. own (fl_owner request) fl" "\<forall>fl \<in> set run'. own (fl_owner request) fl"
    "\<forall>fl \<in> set (A @ B). \<not> own (fl_owner request) fl" "run = [] \<longrightarrow> B = []"
    "map rng run' = cover (fl_start request) (fl_end request) (fl_type request) (map rng run)"
    "distinct (map fl_addr run')" "fl_addr ` set run' \<subseteq> fl_addr ` set run \<union> N" "survives W run run'"
  using assms unfolding relocks_def by (elim exE conjE) (rule that, assumption+)

lemma relocks_table:
  assumes "lock_list_ok ls" "lock_request_ok request ls" "relocks request ls N W ls'"
  shows "lock_table ls' = relock_table request (lock_table ls)"
proof -
  obtain A run B run' where d: "ls = A @ run @ B" "ls' = A @ run' @ B"
    "\<forall>fl \<in> set run. own (fl_owner request) fl" "\<forall>fl \<in> set run'. own (fl_owner request) fl"
    "\<forall>fl \<in> set (A @ B). \<not> own (fl_owner request) fl"
    "map rng run' = cover (fl_start request) (fl_end request) (fl_type request) (map rng run)"
    using assms(3) by (rule relocksE)
  have ok: "ranges_ok (map rng run)"
    using ranges_ok_any [OF assms(1), of "fl_owner request"] ranges_of_split [OF d(5,3)] d(1) by simp
  have le: "fl_start request \<le> fl_end request" using assms(2) by (simp add: lock_request_ok_def)
  show ?thesis
  proof (intro ext)
    fix w x
    show "lock_table ls' w x = relock_table request (lock_table ls) w x"
    proof (cases "w = fl_owner request")
      case True
      then show ?thesis
        using cover_type_at [OF ok le, of "fl_type request" x] ranges_of_split [OF d(5,3)] ranges_of_split [OF d(5,4)] d(1,2,6)
        by (simp add: lock_table_def relock_table_def)
    next
      case False
      then show ?thesis
        using ranges_of_other [OF d(3,4) False] d(1,2) by (simp add: lock_table_def relock_table_def)
    qed
  qed
qed

lemma relocks_posix_grouped:
  assumes ok: "lock_list_ok ls" and ls: "ls = A @ run @ B" "run = [] \<longrightarrow> B = []"
    and own: "\<forall>fl \<in> set run. own v fl" "\<forall>fl \<in> set run'. own v fl" "\<forall>fl \<in> set (A @ B). \<not> own v fl"
  shows "posix_last (A @ run' @ B)" "grouped w (A @ run' @ B)"
proof -
  have p: "\<forall>x \<in> set run. IS_POSIX x" "\<forall>x \<in> set run'. IS_POSIX x" using own by (auto simp: own_def)
  have "posix_last (A @ run @ B)" using ok ls(1) by (simp add: lock_list_ok_def)
  moreover have "run = [] \<Longrightarrow> B = []" using ls(2) by blast
  moreover have "posix_last run'" using p(2) posix_last_all by blast
  ultimately show "posix_last (A @ run' @ B)"
    using p posix_last_all [of B] by (cases run) (auto simp: posix_last_append)
  have g: "grouped w (A @ run @ B)" using grouped_any [OF ok] ls(1) by simp
  show "grouped w (A @ run' @ B)"
  proof (cases "w = v")
    case True
    then have "\<forall>x \<in> set A. \<not> own w x" "\<forall>x \<in> set B. \<not> own w x" using own(3) by auto
    moreover have "grouped w run'"
    proof -
      have "\<forall>x \<in> set (dropWhile (\<lambda>fl. \<not> own w fl) run'). own w x" using own(2) True by (blast dest: set_dropWhileD)
      then have e: "dropWhile (own w) (dropWhile (\<lambda>fl. \<not> own w fl) run') = []" by (simp only: dropWhile_eq_Nil_conv)
      show ?thesis unfolding grouped_def e by simp
    qed
    ultimately show ?thesis by (simp add: grouped_skip grouped_trail del: append_assoc add: append_assoc [symmetric])
  next
    case False
    then have n: "\<forall>x \<in> set run. \<not> own w x" "\<forall>x \<in> set run'. \<not> own w x" using own(1,2) by (auto simp: own_def)
    show ?thesis
    proof (cases "\<exists>y \<in> set B. own w y")
      case False
      then have "\<forall>y \<in> set (run @ B). \<not> own w y" "\<forall>y \<in> set (run' @ B). \<not> own w y" using n by auto
      then show ?thesis using g grouped_trail by blast
    next
      case True
      then have "run \<noteq> []" using ls(2) by auto
      then obtain r where r: "r \<in> set run" by (meson list.set_sel(1))
      have A: "\<forall>x \<in> set A. \<not> own w x"
      proof (rule ccontr)
        assume "\<not> (\<forall>x \<in> set A. \<not> own w x)"
        then obtain x where "x \<in> set A" "own w x" by blast
        moreover obtain y where "y \<in> set B" "own w y" using True by blast
        ultimately show False using grouped_gap [of x A w r run y B] r n(1) g by blast
      qed
      then have "\<forall>x \<in> set (A @ run). \<not> own w x" "\<forall>x \<in> set (A @ run'). \<not> own w x" using n by auto
      then show ?thesis using g grouped_skip [of "A @ run" w B] grouped_skip [of "A @ run'" w B] by simp
    qed
  qed
qed

lemma byte_of_overlap:
  assumes "locks_overlap fl fl'" "fl_start fl \<le> fl_end fl" "fl_start fl' \<le> fl_end fl'"
  obtains x where "fl_start fl \<le> x" "x \<le> fl_end fl" "fl_start fl' \<le> x" "x \<le> fl_end fl'"
  using that [of "max (fl_start fl) (fl_start fl')"] assms by (auto simp: locks_overlap_def)

lemma posix_conflict_iff:
  "posix_locks_conflict fl fl' \<longleftrightarrow>
     IS_POSIX fl' \<and> fl_owner fl \<noteq> fl_owner fl' \<and> locks_overlap fl fl' \<and> (fl_type fl = F_WRLCK \<or> fl_type fl' = F_WRLCK)"
  by (auto simp: posix_locks_conflict_def posix_same_owner_def locks_conflict_def)

lemma lock_list_okD:
  assumes "lock_list_ok ls" "fl \<in> set ls" "IS_POSIX fl"
  shows "fl_start fl \<le> fl_end fl" "fl_type fl \<in> {F_RDLCK, F_WRLCK}" "0 \<le> fl_start fl" "fl_end fl \<le> OFFSET_MAX"
    "\<And>x. fl_start fl \<le> x \<Longrightarrow> x \<le> fl_end fl \<Longrightarrow> lock_table ls (fl_owner fl) x = Some (fl_type fl)"
proof -
  have "rng fl \<in> set (ranges_of (fl_owner fl) ls)" using assms by (auto simp: ranges_of_def own_def)
  then have m: "(fl_start fl, fl_end fl, fl_type fl) \<in> set (ranges_of (fl_owner fl) ls)" by (simp add: rng_def)
  note ok = ranges_ok_any [OF assms(1), of "fl_owner fl"]
  show "fl_start fl \<le> fl_end fl" "fl_type fl \<in> {F_RDLCK, F_WRLCK}" using ranges_okD [OF ok m] by auto
  show "0 \<le> fl_start fl" "fl_end fl \<le> OFFSET_MAX" using assms by (auto simp: lock_list_ok_def)
  show "lock_table ls (fl_owner fl) x = Some (fl_type fl)" if "fl_start fl \<le> x" "x \<le> fl_end fl" for x
    using type_at_member [OF ok m that] by (simp add: lock_table_def)
qed

lemma lock_table_SomeE:
  assumes "lock_table ls w x = Some ty"
  obtains fl where "fl \<in> set ls" "IS_POSIX fl" "fl_owner fl = w" "fl_type fl = ty" "fl_start fl \<le> x" "x \<le> fl_end fl"
proof -
  obtain a b where "(a, b, ty) \<in> set (ranges_of w ls)" "a \<le> x" "x \<le> b"
    using assms unfolding lock_table_def by (rule type_at_SomeE)
  then show ?thesis using that by (auto simp: ranges_of_def rng_def own_def)
qed

text \<open>Conflict-freedom is a fact about the table.\<close>

definition table_compatible :: "(nat \<Rightarrow> int \<Rightarrow> u8 option) \<Rightarrow> bool" where
  "table_compatible m \<longleftrightarrow> (\<forall>v w x ty. v \<noteq> w \<and> m v x = Some F_WRLCK \<longrightarrow> m w x \<noteq> Some ty)"

lemma conflict_free_table:
  assumes "\<forall>w. ranges_ok (ranges_of w ls)"
  shows "(\<forall>fl \<in> set ls. \<forall>fl' \<in> set ls. IS_POSIX fl \<longrightarrow> \<not> posix_locks_conflict fl fl') \<longleftrightarrow> table_compatible (lock_table ls)"
proof
  assume c: "\<forall>fl \<in> set ls. \<forall>fl' \<in> set ls. IS_POSIX fl \<longrightarrow> \<not> posix_locks_conflict fl fl'"
  show "table_compatible (lock_table ls)"
    unfolding table_compatible_def
  proof (intro allI impI notI, elim conjE)
    fix v w x ty assume ne: "v \<noteq> w" and v: "lock_table ls v x = Some F_WRLCK" and w: "lock_table ls w x = Some ty"
    obtain fl where fl: "fl \<in> set ls" "IS_POSIX fl" "fl_owner fl = v" "fl_type fl = F_WRLCK" "fl_start fl \<le> x" "x \<le> fl_end fl"
      using v by (rule lock_table_SomeE)
    obtain fl' where fl': "fl' \<in> set ls" "IS_POSIX fl'" "fl_owner fl' = w" "fl_start fl' \<le> x" "x \<le> fl_end fl'"
      using w by (rule lock_table_SomeE)
    have "posix_locks_conflict fl fl'" using fl fl' ne by (auto simp: posix_conflict_iff locks_overlap_def)
    then show False using c fl fl' by blast
  qed
next
  assume c: "table_compatible (lock_table ls)"
  have at: "lock_table ls (fl_owner fl) x = Some (fl_type fl)" if "fl \<in> set ls" "IS_POSIX fl" "fl_start fl \<le> x" "x \<le> fl_end fl" for fl x
  proof -
    have "(fl_start fl, fl_end fl, fl_type fl) \<in> set (ranges_of (fl_owner fl) ls)" using that by (auto simp: ranges_of_def own_def rng_def)
    then show ?thesis using type_at_member [OF _ _ that(3,4)] assms by (simp add: lock_table_def)
  qed
  have le: "fl_start fl \<le> fl_end fl" if "fl \<in> set ls" "IS_POSIX fl" for fl
  proof -
    have "(fl_start fl, fl_end fl, fl_type fl) \<in> set (ranges_of (fl_owner fl) ls)" using that by (auto simp: ranges_of_def own_def rng_def)
    then show ?thesis using ranges_okD assms by blast
  qed
  show "\<forall>fl \<in> set ls. \<forall>fl' \<in> set ls. IS_POSIX fl \<longrightarrow> \<not> posix_locks_conflict fl fl'"
  proof (intro ballI impI notI)
    fix fl fl' assume m: "fl \<in> set ls" "fl' \<in> set ls" "IS_POSIX fl" and cf: "posix_locks_conflict fl fl'"
    have p: "IS_POSIX fl'" "fl_owner fl \<noteq> fl_owner fl'" "locks_overlap fl fl'" "fl_type fl = F_WRLCK \<or> fl_type fl' = F_WRLCK"
      using cf by (auto simp: posix_conflict_iff)
    obtain x where x: "fl_start fl \<le> x" "x \<le> fl_end fl" "fl_start fl' \<le> x" "x \<le> fl_end fl'"
      using byte_of_overlap [OF p(3) le [OF m(1,3)] le [OF m(2) p(1)]] .
    show False
      using c p(2,4) at [OF m(1,3) x(1,2)] at [OF m(2) p(1) x(3,4)] unfolding table_compatible_def by metis
  qed
qed

lemma no_conflict_table:
  assumes ok: "lock_list_ok (i_flock st)" and rq: "lock_request_ok request (i_flock st)"
  shows "conflicting_lock request st = None \<longleftrightarrow> table_allows request (lock_table (i_flock st))"
proof
  assume n: "conflicting_lock request st = None"
  show "table_allows request (lock_table (i_flock st))"
    unfolding table_allows_def
  proof (intro allI impI, elim conjE)
    fix w x ty assume a: "w \<noteq> fl_owner request" "fl_start request \<le> x" "x \<le> fl_end request" "lock_table (i_flock st) w x = Some ty"
    obtain fl where fl: "fl \<in> set (i_flock st)" "IS_POSIX fl" "fl_owner fl = w" "fl_type fl = ty" "fl_start fl \<le> x" "x \<le> fl_end fl"
      using a(4) by (rule lock_table_SomeE)
    have "\<not> posix_locks_conflict request fl" if "fl_type request \<noteq> F_UNLCK"
      using n that fl by (auto simp: conflicting_lock_def find_None_iff)
    then show "fl_type request = F_UNLCK \<or> fl_type request = F_RDLCK \<and> ty = F_RDLCK"
      using fl a rq lock_list_okD(2) [OF ok fl(1,2)] by (auto simp: posix_conflict_iff locks_overlap_def lock_request_ok_def)
  qed
next
  assume t: "table_allows request (lock_table (i_flock st))"
  have "\<not> posix_locks_conflict request fl" if fl: "fl \<in> set (i_flock st)" "IS_POSIX fl" and u: "fl_type request \<noteq> F_UNLCK" for fl
  proof
    assume "posix_locks_conflict request fl"
    then have p: "fl_owner request \<noteq> fl_owner fl" "locks_overlap request fl" "fl_type request = F_WRLCK \<or> fl_type fl = F_WRLCK"
      by (auto simp: posix_conflict_iff)
    have "fl_start request \<le> fl_end request" using rq by (simp add: lock_request_ok_def)
    then obtain x where x: "fl_start request \<le> x" "x \<le> fl_end request" "fl_start fl \<le> x" "x \<le> fl_end fl"
      using byte_of_overlap [OF p(2) _ lock_list_okD(1) [OF ok fl]] by blast
    show False using t p(1,3) x lock_list_okD(5) [OF ok fl x(3,4)] u unfolding table_allows_def
      by (metis F_RDLCK_def F_WRLCK_def zero_neq_one)
  qed
  then show "conflicting_lock request st = None" by (auto simp: conflicting_lock_def find_None_iff)
qed

lemma relock_compatible:
  assumes "table_compatible m" "table_allows request m" "fl_type request \<in> {F_RDLCK, F_WRLCK, F_UNLCK}"
  shows "table_compatible (relock_table request m)"
  unfolding table_compatible_def
proof (intro allI impI notI, elim conjE)
  fix v w x ty
  assume ne: "v \<noteq> w" and v: "relock_table request m v x = Some F_WRLCK" and w: "relock_table request m w x = Some ty"
  have old: "\<not> (m v x = Some F_WRLCK \<and> m w x = Some ty)" using assms(1) ne unfolding table_compatible_def by blast
  have al: "u \<noteq> fl_owner request \<Longrightarrow> fl_start request \<le> x \<Longrightarrow> x \<le> fl_end request \<Longrightarrow> m u x = Some k \<Longrightarrow>
    fl_type request = F_UNLCK \<or> fl_type request = F_RDLCK \<and> k = F_RDLCK" for u k
    using assms(2) unfolding table_allows_def by blast
  show False
    using ne v w old al [of v F_WRLCK] al [of w ty]
    by (auto simp: relock_table_def F_defs split: if_splits)
qed

lemma lock_list_okI:
  assumes "distinct (map fl_addr ls)" "posix_last ls" "\<And>w. grouped w ls" "\<And>w. ranges_ok (ranges_of w ls)"
    "\<forall>fl \<in> set ls. IS_POSIX fl \<longrightarrow> 0 \<le> fl_start fl \<and> fl_end fl \<le> OFFSET_MAX" "table_compatible (lock_table ls)"
  shows "lock_list_ok ls"
  unfolding lock_list_ok_def using assms conflict_free_table [of ls] by blast

lemma lock_list_ok_compatible: "lock_list_ok ls \<Longrightarrow> table_compatible (lock_table ls)"
  using conflict_free_table [of ls] ranges_ok_any unfolding lock_list_ok_def by blast

lemma disjoint_help: "X \<subseteq> R \<union> N \<Longrightarrow> R \<inter> S = {} \<Longrightarrow> N \<inter> S = {} \<Longrightarrow> X \<inter> S = {}"
  by blast

lemma relocks_ok:
  assumes ok: "lock_list_ok ls" and rq: "lock_request_ok request ls" and r: "relocks request ls N W ls'"
    and N: "N \<inter> fl_addr ` set ls = {}" and al: "table_allows request (lock_table ls)"
  shows "lock_list_ok ls'"
proof -
  obtain A run B run' where d: "ls = A @ run @ B" "ls' = A @ run' @ B"
    "\<forall>fl \<in> set run. own (fl_owner request) fl" "\<forall>fl \<in> set run'. own (fl_owner request) fl"
    "\<forall>fl \<in> set (A @ B). \<not> own (fl_owner request) fl" "run = [] \<longrightarrow> B = []"
    "map rng run' = cover (fl_start request) (fl_end request) (fl_type request) (map rng run)"
    "distinct (map fl_addr run')" "fl_addr ` set run' \<subseteq> fl_addr ` set run \<union> N"
    using r by (rule relocksE)
  have rok: "ranges_ok (map rng run)"
    using ranges_ok_any [OF ok, of "fl_owner request"] ranges_of_split [OF d(5,3)] d(1) by simp
  have q: "fl_start request \<le> fl_end request" "fl_type request \<in> {F_RDLCK, F_WRLCK, F_UNLCK}"
    "0 \<le> fl_start request" "fl_end request \<le> OFFSET_MAX" using rq by (simp_all add: lock_request_ok_def)
  have dis: "distinct (map fl_addr ls)" using ok by (simp add: lock_list_ok_def)
  have "fl_addr ` set run \<inter> fl_addr ` set (A @ B) = {}" "N \<inter> fl_addr ` set (A @ B) = {}" using dis N unfolding d(1) by auto
  then have "fl_addr ` set run' \<inter> fl_addr ` set (A @ B) = {}" by (rule disjoint_help [OF d(9)])
  then have 1: "distinct (map fl_addr ls')" using dis d(8) unfolding d(1,2) by auto
  have 2: "ranges_ok (ranges_of w ls')" for w
  proof (cases "w = fl_owner request")
    case True
    then show ?thesis using cover_ranges_ok [OF rok q(1,2)] ranges_of_split [OF d(5,4)] d(2,7) by simp
  next
    case False
    then show ?thesis using ranges_of_other [OF d(3,4) False] ranges_ok_any [OF ok, of w] d(1,2) by simp
  qed
  have "\<forall>(a, b, ty) \<in> set (map rng run). 0 \<le> a \<and> b \<le> OFFSET_MAX"
    using lock_list_okD(3,4) [OF ok] d(1,3) by (auto simp: rng_def own_def)
  from cover_bounds [OF rok q(1) this q(3,4), of "fl_type request"]
  have "\<forall>fl \<in> set run'. 0 \<le> fl_start fl \<and> fl_end fl \<le> OFFSET_MAX" unfolding d(7) [symmetric] by (auto simp: rng_def)
  then have 3: "\<forall>fl \<in> set ls'. IS_POSIX fl \<longrightarrow> 0 \<le> fl_start fl \<and> fl_end fl \<le> OFFSET_MAX"
    using lock_list_okD(3,4) [OF ok] d(1,2) by auto
  show ?thesis
    using 1 2 3 relocks_posix_grouped [OF ok d(1,6,3,4,5)] relocks_table [OF ok rq r]
      relock_compatible [OF lock_list_ok_compatible [OF ok] al q(2)] d(2)
    by (intro lock_list_okI) simp_all
qed

lemma fresh_disjoint: "fresh_allocs alloc alloc2 ls \<Longrightarrow> (set_option alloc \<union> set_option alloc2) \<inter> fl_addr ` set ls = {}"
  by (auto simp: fresh_allocs_def)

lemma block_list: "i_flock (snd (block_on_conflict request fl st)) = i_flock st"
  by (simp add: block_on_conflict_def locks_insert_block_def)

lemma posix_lock_file_ok:
  assumes "lock_list_ok (i_flock st)" "lock_request_ok request (i_flock st)" "fresh_allocs alloc alloc2 (i_flock st)"
  shows "lock_list_ok (i_flock (snd (posix_lock_file tgid alloc alloc2 request st)))"
proof (cases rule: posix_lock_file_cases [OF assms, of tgid])
  case (5 W ls')
  have "table_allows request (lock_table (i_flock st))" using no_conflict_table [OF assms(1,2)] 5(1) by blast
  then show ?thesis using relocks_ok [OF assms(1,2) 5(4) fresh_disjoint [OF assms(3)]] 5(3) by simp
qed (simp_all add: assms(1) block_list)

section \<open>Properties\<close>

text \<open>
  C2. Refinement of POSIX locks to a lock table. The abstract state gives, for each owner and each byte
  of the file, the lock held there. With a well-formed list, memory for the new locks and a plain
  request, \<open>__posix_lock_file\<close> succeeds exactly when no other owner's entry on the requested bytes
  excludes the request, and then the table changes exactly on the owner's requested bytes; otherwise
  the table does not change. The list stays well formed.
\<close>

theorem posix_lock_refines_table:
  assumes ok: "lock_list_ok (i_flock st)" "lock_request_ok request (i_flock st)"
    and mem: "fresh_allocs (Some n1) (Some n2) (i_flock st)"
    and plain: "fl_flags request AND FL_ACCESS = 0" "fl_flags request AND FL_EXISTS = 0"
    and call: "posix_lock_file tgid (Some n1) (Some n2) request st = (r, st')"
  shows "(r = Inr Locked \<longleftrightarrow> table_allows request (lock_table (i_flock st))) \<and>
    lock_table (i_flock st') =
      (if r = Inr Locked then relock_table request (lock_table (i_flock st)) else lock_table (i_flock st)) \<and>
    lock_list_ok (i_flock st')"
proof -
  have "(r = Inr Locked) = table_allows request (lock_table (i_flock st)) \<and>
    lock_table (i_flock st') =
       (if r = Inr Locked then relock_table request (lock_table (i_flock st)) else lock_table (i_flock st))"
  proof (cases rule: posix_lock_file_cases [OF ok mem, of tgid])
    case (1 fl)
    then have "r \<noteq> Inr Locked" "i_flock st' = i_flock st"
      using call block_list [of request fl st] by (auto simp: block_on_conflict_def split: if_splits)
    then show ?thesis using 1 no_conflict_table [OF ok] by auto
  next
    case (5 W ls')
    then show ?thesis using call no_conflict_table [OF ok] relocks_table [OF ok 5(4)] by auto
  qed (use plain in simp_all)
  moreover have "lock_list_ok (i_flock st')" using posix_lock_file_ok [OF ok mem, of tgid] call by simp
  ultimately show ?thesis by blast
qed


definition blocked_by :: "lock_state \<Rightarrow> file_lock \<Rightarrow> file_lock \<Rightarrow> bool" where
  "blocked_by st w b \<longleftrightarrow> (\<exists>fl \<in> set (i_flock st). fl_addr fl = fl_addr b \<and> posix_locks_conflict w fl)"

lemma relocks_blocked:
  assumes r: "relocks request (i_flock st) N (set W) ls'" and "blocked_by st w b" "fl_addr b \<notin> set W"
  shows "blocked_by (wake_up_blocks W (st\<lparr>i_flock := ls'\<rparr>)) w b"
proof -
  obtain A run B run' where d: "i_flock st = A @ run @ B" "ls' = A @ run' @ B" "survives (set W) run run'"
    using r by (rule relocksE)
  obtain fl where fl: "fl \<in> set (A @ run @ B)" "fl_addr fl = fl_addr b" "posix_locks_conflict w fl"
    using assms(2) d(1) by (auto simp: blocked_by_def)
  have "survives (set W) (A @ run @ B) (A @ run' @ B)" by (rule survives_append [OF d(3)])
  moreover have "fl_addr fl \<notin> set W" using fl(2) assms(3) by simp
  ultimately obtain fl' where "fl' \<in> set ls'" "grows fl fl'" using fl(1) unfolding survives_def d(2) by blast
  then show ?thesis using fl grows_conflict [of fl fl' w] by (auto simp: blocked_by_def grows_def)
qed

text \<open>
  C11. No wake-up is lost. A request that still waits after a call waited before it or is the caller's,
  and the lock it waits for is still in the list and still conflicts with it: whenever a lock
  shrinks, changes its type or goes away, its waiters are woken.
\<close>

theorem no_lost_wakeup:
  assumes ok: "lock_list_ok (i_flock st)" "lock_request_ok request (i_flock st)" "fresh_allocs alloc alloc2 (i_flock st)"
    and sound: "\<forall>(w, b) \<in> set (waiting st). blocked_by st w b"
    and call: "posix_lock_file tgid alloc alloc2 request st = (r, st')"
  shows "\<forall>(w, b) \<in> set (waiting st'). blocked_by st' w b \<and> ((w, b) \<in> set (waiting st) \<or> w = request \<and> r = Inr Deferred)"
proof (cases rule: posix_lock_file_cases [OF ok, of tgid])
  case (1 fl)
  have c: "fl \<in> set (i_flock st)" "posix_locks_conflict request fl"
    using 1(1) by (auto simp: conflicting_lock_def find_Some_iff split: if_splits)
  then have "blocked_by st request fl" by (auto simp: blocked_by_def)
  then show ?thesis using 1(2) call sound
    by (auto simp: block_on_conflict_def locks_insert_block_def blocked_by_def split: if_splits)
next
  case (5 W ls')
  have st': "r = Inr Locked" "st' = wake_up_blocks W (st\<lparr>i_flock := ls'\<rparr>)" using call 5(3) by simp_all
  then have w: "(w, b) \<in> set (waiting st') \<Longrightarrow> (w, b) \<in> set (waiting st) \<and> fl_addr b \<notin> set W" for w b
    by (auto simp: wake_up_blocks_def)
  show ?thesis
    using w sound relocks_blocked [OF 5(4)] unfolding st'(2) [symmetric] by blast
qed (use call sound in auto)

end
