(* ===== verification/Lock_Waiting.thy ===== *)
theory Lock_Waiting
  imports Lock_Table
begin

text \<open>
  Waiting requests: the deadlock detection follows the chain of waiting owners and is complete for
  chains of up to eleven; closing a file releases its locks and wakes whoever waited for them.
\<close>

section \<open>Deadlock detection\<close>

text \<open>Who waits for whom, and the chain the detection follows.\<close>

definition posix_waits :: "lock_state \<Rightarrow> (nat \<times> nat) list" where
  "posix_waits st = map (\<lambda>(w, b). (fl_owner w, fl_owner b)) (filter (\<lambda>(w, b). IS_POSIX b) (waiting st))"

fun wait_chain :: "(nat \<times> nat) list \<Rightarrow> nat \<Rightarrow> nat \<Rightarrow> nat option" where
  "wait_chain ws 0 w = Some w"
| "wait_chain ws (Suc k) w = (case map_of ws w of None \<Rightarrow> None | Some v \<Rightarrow> wait_chain ws k v)"

lemma waiting_owner: "map_option fl_owner (what_owner_is_waiting_for st fl) = map_of (posix_waits st) (fl_owner fl)"
proof -
  have "map_option fl_owner (map_option snd (find (\<lambda>(w, b). IS_POSIX b \<and> posix_same_owner w fl) ws)) =
    map_of (map (\<lambda>(w, b). (fl_owner w, fl_owner b)) (filter (\<lambda>(w, b). IS_POSIX b) ws)) (fl_owner fl)" for ws
  proof (induction ws)
    case (Cons p ws)
    then show ?case by (cases p) (simp add: posix_same_owner_def)
  qed simp
  then show ?thesis by (simp add: what_owner_is_waiting_for_def posix_waits_def)
qed

lemma deadlock_loop_chain:
  "deadlock_loop st caller fl i \<longleftrightarrow>
     (\<exists>k. i + k \<le> MAX_DEADLK_ITERATIONS \<and> wait_chain (posix_waits st) (Suc k) (fl_owner fl) = Some (fl_owner caller))"
proof (induction st caller fl i rule: deadlock_loop.induct)
  case (1 st caller fl i)
  show ?case
  proof (cases "what_owner_is_waiting_for st fl")
    case None
    then have "map_of (posix_waits st) (fl_owner fl) = None" using waiting_owner [of st fl] by simp
    then show ?thesis using None by (subst deadlock_loop.simps) simp
  next
    case (Some b)
    then have m: "map_of (posix_waits st) (fl_owner fl) = Some (fl_owner b)" using waiting_owner [of st fl] by simp
    have ex: "(\<exists>k. i + k \<le> n \<and> wait_chain (posix_waits st) (Suc k) (fl_owner fl) = Some x) \<longleftrightarrow>
      i \<le> n \<and> (fl_owner b = x \<or> (\<exists>k. Suc i + k \<le> n \<and> wait_chain (posix_waits st) (Suc k) (fl_owner b) = Some x))" for n x
    proof
      assume "\<exists>k. i + k \<le> n \<and> wait_chain (posix_waits st) (Suc k) (fl_owner fl) = Some x"
      then obtain k where k: "i + k \<le> n" "wait_chain (posix_waits st) k (fl_owner b) = Some x" using m by auto
      then show "i \<le> n \<and> (fl_owner b = x \<or> (\<exists>k. Suc i + k \<le> n \<and> wait_chain (posix_waits st) (Suc k) (fl_owner b) = Some x))"
        by (cases k) auto
    next
      assume r: "i \<le> n \<and> (fl_owner b = x \<or> (\<exists>k. Suc i + k \<le> n \<and> wait_chain (posix_waits st) (Suc k) (fl_owner b) = Some x))"
      then consider "i \<le> n" "fl_owner b = x" | k where "Suc i + k \<le> n" "wait_chain (posix_waits st) (Suc k) (fl_owner b) = Some x"
        by blast
      then show "\<exists>k. i + k \<le> n \<and> wait_chain (posix_waits st) (Suc k) (fl_owner fl) = Some x"
      proof cases
        case 1
        then show ?thesis using m by (intro exI [of _ 0]) simp
      next
        case 2
        then show ?thesis using m by (intro exI [of _ "Suc k"]) (auto simp: m)
      qed
    qed
    show ?thesis
    proof (cases "i > MAX_DEADLK_ITERATIONS")
      case True
      then show ?thesis using Some by (subst deadlock_loop.simps) simp
    next
      case False
      then show ?thesis
        using Some 1 [OF Some False] unfolding ex
        by (subst deadlock_loop.simps) (auto simp: posix_same_owner_def)
    qed
  qed
qed

lemma wait_chain_Suc: "wait_chain ws (Suc k) w = Some u \<longleftrightarrow> (\<exists>v. wait_chain ws k w = Some v \<and> map_of ws v = Some u)"
proof (induction k arbitrary: w)
  case 0
  then show ?case by (auto split: option.split)
next
  case (Suc k)
  then show ?case by (subst wait_chain.simps) (auto split: option.split)
qed

text \<open>In an acyclic wait-for relation a chain never visits an owner twice, so it is no longer than the list.\<close>

lemma wait_chain_trancl:
  "i < j \<Longrightarrow> wait_chain ws i w = Some u \<Longrightarrow> wait_chain ws j w = Some v \<Longrightarrow> (u, v) \<in> (set ws)\<^sup>+"
proof (induction j arbitrary: v)
  case (Suc j)
  obtain x where x: "wait_chain ws j w = Some x" "map_of ws x = Some v" using Suc.prems(3) wait_chain_Suc by blast
  have e: "(x, v) \<in> set ws" using x(2) by (rule map_of_SomeD)
  show ?case
  proof (cases "i = j")
    case True
    then show ?thesis using x(1) e Suc.prems(2) by auto
  next
    case False
    then have "i < j" using Suc.prems(1) by simp
    from Suc.IH [OF this Suc.prems(2) x(1)] e show ?thesis by (rule trancl_into_trancl)
  qed
qed simp

lemma wait_chain_short:
  assumes "acyclic (set ws)" "wait_chain ws k w = Some v"
  shows "k \<le> length ws"
proof -
  have def: "i \<le> k \<Longrightarrow> \<exists>u. wait_chain ws i w = Some u" for i
    using assms(2)
  proof (induction k arbitrary: v)
    case (Suc k)
    then show ?case using wait_chain_Suc [of ws k w v] by (metis le_Suc_eq)
  qed auto
  define c where "c i = the (wait_chain ws i w)" for i
  have c: "wait_chain ws i w = Some (c i)" if "i \<le> k" for i using def [OF that] by (auto simp: c_def)
  have "inj_on c {..<k}"
  proof (rule linorder_inj_onI')
    fix i j assume "i \<in> {..<k}" "j \<in> {..<k}" "i < j"
    then have "(c i, c j) \<in> (set ws)\<^sup>+" using wait_chain_trancl [of i j ws w] c by simp
    then show "c i \<noteq> c j" using assms(1) by (auto simp: acyclic_def)
  qed
  moreover have "c ` {..<k} \<subseteq> fst ` set ws"
  proof
    fix u assume "u \<in> c ` {..<k}"
    then obtain i where i: "i < k" "u = c i" by auto
    then have "wait_chain ws (Suc i) w = Some (c (Suc i))" by (intro c) simp
    then have "map_of ws (c i) \<noteq> None" using wait_chain_Suc [of ws i w] c [of i] i by auto
    then show "u \<in> fst ` set ws" using i by (simp add: map_of_eq_None_iff)
  qed
  ultimately have "k \<le> card (fst ` set ws)" by (metis card_image card_lessThan card_mono finite_imageI finite_set)
  also have "\<dots> \<le> length ws" by (metis card_length length_map list.set_map)
  finally show ?thesis .
qed

lemma trancl_chain:
  assumes "distinct (map fst ws)" "(w, v) \<in> (set ws)\<^sup>+"
  shows "\<exists>k. wait_chain ws (Suc k) w = Some v"
  using assms(2)
proof (induction rule: trancl_induct)
  case (base v)
  then show ?case using assms(1) by (intro exI [of _ 0]) simp
next
  case (step u v)
  then show ?case using assms(1) wait_chain_Suc by (metis map_of_is_SomeI)
qed

lemma detection_complete:
  assumes "acyclic (set (posix_waits st))" "distinct (map fst (posix_waits st))"
    "length (posix_waits st) \<le> Suc MAX_DEADLK_ITERATIONS" "\<not> posix_locks_deadlock st request fl"
  shows "(fl_owner fl, fl_owner request) \<notin> (set (posix_waits st))\<^sup>+"
proof
  assume "(fl_owner fl, fl_owner request) \<in> (set (posix_waits st))\<^sup>+"
  then obtain k where k: "wait_chain (posix_waits st) (Suc k) (fl_owner fl) = Some (fl_owner request)"
    using trancl_chain [OF assms(2)] by blast
  then have "k \<le> MAX_DEADLK_ITERATIONS" using wait_chain_short [OF assms(1) k] assms(3) by simp
  then show False using assms(4) k unfolding posix_locks_deadlock_def deadlock_loop_chain by auto
qed

text \<open>
  C8. POSIX locks do not deadlock. If no owner waits for itself through others, each owner waits for at most
  one lock, the caller for none, and at most eleven requests wait, then no call creates a cycle: a
  request that would close one gets EDEADLK instead of waiting.
\<close>

theorem posix_locks_acyclic:
  assumes ok: "lock_list_ok (i_flock st)" "lock_request_ok request (i_flock st)" "fresh_allocs alloc alloc2 (i_flock st)"
    and acyclic: "acyclic (set (posix_waits st))" and one: "distinct (map fst (posix_waits st))"
    and caller: "fl_owner request \<notin> fst ` set (posix_waits st)" and few: "length (posix_waits st) \<le> 11"
    and call: "posix_lock_file tgid alloc alloc2 request st = (r, st')"
  shows "acyclic (set (posix_waits st')) \<and> distinct (map fst (posix_waits st'))"
proof (cases rule: posix_lock_file_cases [OF ok, of tgid])
  case (1 fl)
  have c: "IS_POSIX fl" "fl_owner request \<noteq> fl_owner fl"
    using 1(1) by (auto simp: conflicting_lock_def find_Some_iff posix_conflict_iff split: if_splits)
  show ?thesis
  proof (cases "r = Inr Deferred")
    case True
    then have d: "\<not> posix_locks_deadlock st request fl" "st' = locks_insert_block fl request st"
      using 1(2) call by (auto simp: block_on_conflict_def split: if_splits)
    have w: "posix_waits st' = (fl_owner request, fl_owner fl) # posix_waits st"
      using c(1) by (simp add: d(2) locks_insert_block_def posix_waits_def)
    have "(fl_owner fl, fl_owner request) \<notin> (set (posix_waits st))\<^sup>*"
      using detection_complete [OF acyclic one _ d(1)] few c(2) by (auto simp: MAX_DEADLK_ITERATIONS_def rtrancl_eq_or_trancl)
    then show ?thesis using acyclic one caller unfolding w by (auto simp: acyclic_insert)
  next
    case False
    then have "st' = st" using 1(2) call by (auto simp: block_on_conflict_def split: if_splits)
    then show ?thesis using acyclic one by simp
  qed
next
  case (5 W ls')
  define keep where "keep = filter (\<lambda>(w, b :: file_lock). fl_addr b \<notin> set W) (filter (\<lambda>(w :: file_lock, b). IS_POSIX b) (waiting st))"
  have "st' = wake_up_blocks W (st\<lparr>i_flock := ls'\<rparr>)" using call 5(3) by simp
  then have w: "posix_waits st' = map (\<lambda>(w, b). (fl_owner w, fl_owner b)) keep"
    by (simp add: posix_waits_def wake_up_blocks_def keep_def conj_commute case_prod_unfold)
  have sub: "subseq (posix_waits st') (posix_waits st)"
    unfolding w unfolding posix_waits_def keep_def by (intro subseq_map subseq_filter_left)
  have "subseq (map fst (posix_waits st')) (map fst (posix_waits st))" by (rule subseq_map [OF sub])
  then have "distinct (map fst (posix_waits st'))" using one subseq_distinct by blast
  moreover have "distinct (posix_waits st)" using one by (simp add: distinct_map)
  then have "set (posix_waits st') \<subseteq> set (posix_waits st)" using subseq_distinct [OF sub] by blast
  ultimately show ?thesis using acyclic acyclic_subset by blast
qed (use call acyclic one in auto)

section \<open>Closing a file\<close>

definition close_request :: "u32 \<Rightarrow> nat \<Rightarrow> nat \<Rightarrow> nat \<Rightarrow> file_lock" where
  "close_request tgid addr filp owner =
     \<lparr>fl_addr = addr, fl_owner = owner, fl_flags = FL_POSIX OR FL_CLOSE, fl_type = F_UNLCK,
      fl_pid = tgid, fl_nspid = None, fl_file = Some filp, fl_start = 0, fl_end = OFFSET_MAX\<rparr>"

lemma close_request_fields [simp]:
  "fl_addr (close_request tgid addr filp owner) = addr" "fl_owner (close_request tgid addr filp owner) = owner"
  "fl_type (close_request tgid addr filp owner) = F_UNLCK" "fl_start (close_request tgid addr filp owner) = 0"
  "fl_end (close_request tgid addr filp owner) = OFFSET_MAX"
  "fl_flags (close_request tgid addr filp owner) AND FL_ACCESS = 0"
  "fl_flags (close_request tgid addr filp owner) AND FL_EXISTS = 0"
  "IS_POSIX (close_request tgid addr filp owner)"
  by (simp_all add: close_request_def FL_defs IS_POSIX_def)

lemma close_request_ok: "addr \<notin> fl_addr ` set ls \<Longrightarrow> lock_request_ok (close_request tgid addr filp owner) ls"
  by (simp add: lock_request_ok_def OFFSET_MAX_def)

lemma cover_all: "ranges_ok R \<Longrightarrow> \<forall>(a, b, ty) \<in> set R. 0 \<le> a \<and> b \<le> OFFSET_MAX \<Longrightarrow> cover 0 OFFSET_MAX F_UNLCK R = []"
proof (induction R)
  case (Cons y R)
  obtain a b ty where y: "y = (a, b, ty)" by (cases y)
  then show ?case using Cons by (simp add: cover_inside)
qed (simp add: cover_def)

text \<open>What closing leaves: the list without the owner's locks, and no one waiting for them.\<close>

lemma remove_posix_result:
  fixes tgid :: u32 and filp owner :: nat
  assumes ok: "lock_list_ok (i_flock st)" and addr: "addr \<notin> fl_addr ` set (i_flock st)"
  defines "st' \<equiv> locks_remove_posix tgid addr filp owner st"
  shows "i_flock st' = filter (\<lambda>fl. \<not> own owner fl) (i_flock st)"
    "\<forall>(w, b) \<in> set (waiting st'). \<forall>fl \<in> set (i_flock st). own owner fl \<longrightarrow> fl_addr b \<noteq> fl_addr fl"
    "set (waiting st') \<subseteq> set (waiting st)"
proof -
  define rq where "rq = close_request tgid addr filp owner"
  have "i_flock st' = filter (\<lambda>fl. \<not> own owner fl) (i_flock st) \<and>
    (\<forall>(w, b) \<in> set (waiting st'). \<forall>fl \<in> set (i_flock st). own owner fl \<longrightarrow> fl_addr b \<noteq> fl_addr fl) \<and>
    set (waiting st') \<subseteq> set (waiting st)"
  proof (cases "i_flock st = []")
    case True
    then show ?thesis by (simp add: st'_def locks_remove_posix_def)
  next
    case False
    then have st': "st' = snd (posix_lock_file tgid None None rq st)"
      by (simp add: st'_def locks_remove_posix_def rq_def close_request_def)
    have r: "lock_request_ok rq (i_flock st)" unfolding rq_def by (rule close_request_ok [OF addr])
    have free: "conflicting_lock rq st = None" by (simp add: conflicting_lock_def rq_def)
    have nn: "\<not> needs_new_locks rq" by (simp add: needs_new_locks_def rq_def)
    \<comment> \<open>no structure is needed, so the call cannot fail\<close>
    have fr: "fresh_allocs (Some n) (Some (Suc n)) (i_flock st)" if "\<forall>fl \<in> set (i_flock st). fl_addr fl < n" for n
      using that by (auto simp: fresh_allocs_def)
    define n where "n = Suc (Max (fl_addr ` set (i_flock st)))"
    have "\<forall>fl \<in> set (i_flock st). fl_addr fl < n" by (simp add: n_def le_imp_less_Suc)
    note fr = fr [OF this]
    have same: "posix_lock_file tgid None None rq st = posix_lock_file tgid (Some n) (Some (Suc n)) rq st"
      using nn by (simp add: posix_lock_file_def Let_def)
    show ?thesis
    proof (cases rule: posix_lock_file_cases [OF ok r fr, of tgid])
      case (5 W ls')
      obtain A run B run' where d: "i_flock st = A @ run @ B" "ls' = A @ run' @ B"
        "\<forall>fl \<in> set run. own (fl_owner rq) fl" "\<forall>fl \<in> set run'. own (fl_owner rq) fl"
        "\<forall>fl \<in> set (A @ B). \<not> own (fl_owner rq) fl" "run = [] \<longrightarrow> B = []"
        "map rng run' = cover (fl_start rq) (fl_end rq) (fl_type rq) (map rng run)"
        "distinct (map fl_addr run')" "fl_addr ` set run' \<subseteq> fl_addr ` set run \<union> (set_option (Some n) \<union> set_option (Some (Suc n)))"
        "survives (set W) run run'"
        using 5(4) by (rule relocksE)
      have o: "fl_owner rq = owner" by (simp add: rq_def)
      have "ranges_ok (map rng run)"
        using ranges_ok_any [OF ok, of "fl_owner rq"] ranges_of_split [OF d(5,3)] d(1) by simp
      moreover have "\<forall>(a, b, ty) \<in> set (map rng run). 0 \<le> a \<and> b \<le> OFFSET_MAX"
        using lock_list_okD(3,4) [OF ok] d(1,3) by (auto simp: rng_def own_def)
      ultimately have "run' = []" using d(7) cover_all by (simp add: rq_def)
      then have woken: "\<forall>fl \<in> set run. fl_addr fl \<in> set W" using d(10) by (auto simp: survives_def)
      have eq: "st' = wake_up_blocks W (st\<lparr>i_flock := A @ B\<rparr>)" using st' same 5(3) d(2) \<open>run' = []\<close> by simp
      have "filter (\<lambda>fl. \<not> own owner fl) (i_flock st) = A @ B" using d(1,3,5) o by (simp add: filter_id_conv)
      moreover have "\<forall>fl \<in> set (i_flock st). own owner fl \<longrightarrow> fl_addr fl \<in> set W" using d(1,5) o woken by auto
      ultimately show ?thesis unfolding eq by (auto simp: wake_up_blocks_def)
    qed (use free in \<open>simp_all add: rq_def\<close>)
  qed
  then show "i_flock st' = filter (\<lambda>fl. \<not> own owner fl) (i_flock st)"
    "\<forall>(w, b) \<in> set (waiting st'). \<forall>fl \<in> set (i_flock st). own owner fl \<longrightarrow> fl_addr b \<noteq> fl_addr fl"
    "set (waiting st') \<subseteq> set (waiting st)" by blast+
qed

lemma remove_flocks_result:
  "remove_flocks filp ls =
     (if \<exists>fl \<in> set ls. fl_file fl = Some filp \<and> \<not> IS_FLOCK fl \<and> \<not> IS_LEASE fl then None
      else Some (filter (\<lambda>fl. fl_file fl \<noteq> Some filp) ls, map fl_addr (filter (\<lambda>fl. fl_file fl = Some filp) ls)))"
  by (induction ls) auto

text \<open>
  C20. Closing a file releases its locks and nobody else's. When the POSIX locks made through the file
  belong to the closing owner, releasing POSIX locks and then flock locks never reaches the BUG() of
  \<open>locks_remove_flock\<close>; what is left of the list is exactly the locks of other owners and files,
  and every request that waited for a lock that is gone has been woken.
\<close>

theorem close_releases_exactly:
  assumes ok: "lock_list_ok (i_flock st)" and addr: "addr \<notin> fl_addr ` set (i_flock st)"
    and kinds: "\<forall>fl \<in> set (i_flock st). IS_POSIX fl \<or> IS_FLOCK fl \<or> IS_LEASE fl"
    and mine: "\<forall>fl \<in> set (i_flock st). IS_POSIX fl \<and> fl_file fl = Some filp \<longrightarrow> fl_owner fl = owner"
  shows "\<exists>st'. locks_remove_flock filp (locks_remove_posix tgid addr filp owner st) = Some st' \<and>
    i_flock st' = filter (\<lambda>fl. \<not> own owner fl \<and> fl_file fl \<noteq> Some filp) (i_flock st) \<and>
    (\<forall>(w, b) \<in> set (waiting st'). \<forall>fl \<in> set (i_flock st). own owner fl \<or> fl_file fl = Some filp \<longrightarrow> fl_addr b \<noteq> fl_addr fl)"
proof -
  define st1 where "st1 = locks_remove_posix tgid addr filp owner st"
  note r = remove_posix_result [OF ok addr, of tgid filp owner, folded st1_def]
  have nobug: "\<not> (\<exists>fl \<in> set (i_flock st1). fl_file fl = Some filp \<and> \<not> IS_FLOCK fl \<and> \<not> IS_LEASE fl)"
    using kinds mine unfolding r(1) own_def by auto
  define wake where "wake = map fl_addr (filter (\<lambda>fl. fl_file fl = Some filp) (i_flock st1))"
  define st' where "st' = wake_up_blocks wake (st1\<lparr>i_flock := filter (\<lambda>fl. fl_file fl \<noteq> Some filp) (i_flock st1)\<rparr>)"
  have "locks_remove_flock filp st1 = Some st'"
    using nobug by (simp add: locks_remove_flock_def remove_flocks_result st'_def wake_def)
  moreover have "i_flock st' = filter (\<lambda>fl. \<not> own owner fl \<and> fl_file fl \<noteq> Some filp) (i_flock st)"
    by (simp add: st'_def r(1) conj_commute)
  moreover have "\<forall>(w, b) \<in> set (waiting st'). \<forall>fl \<in> set (i_flock st). own owner fl \<or> fl_file fl = Some filp \<longrightarrow> fl_addr b \<noteq> fl_addr fl"
  proof (intro ballI, clarify)
    fix w b fl assume w: "(w, b) \<in> set (waiting st')" and fl: "fl \<in> set (i_flock st)" "own owner fl \<or> fl_file fl = Some filp" "fl_addr b = fl_addr fl"
    have "(w, b) \<in> set (waiting st1)" "fl_addr b \<notin> set wake" using w by (auto simp: st'_def wake_up_blocks_def)
    then show False using fl r(1,2) unfolding wake_def by (cases "own owner fl") auto
  qed
  ultimately show ?thesis unfolding st1_def by blast
qed

end
