(* ===== verification/Flock_Locks.thy ===== *)
theory Flock_Locks
  imports Lock_Waiting
begin

text \<open>
  flock locks: the list refines a table from open files to lock types, with one lock for each file and no
  two that conflict.
\<close>

section \<open>flock locks\<close>

definition flock_ok :: "file_lock list \<Rightarrow> bool" where
  "flock_ok ls \<longleftrightarrow>
     (\<forall>fl \<in> set ls. IS_FLOCK fl \<longleftrightarrow> \<not> IS_POSIX fl \<and> \<not> IS_LEASE fl) \<and>
     (\<forall>fl \<in> set ls. IS_FLOCK fl \<longrightarrow> fl_file fl \<noteq> None \<and> fl_type fl \<noteq> F_UNLCK) \<and>
     distinct (map fl_file (filter IS_FLOCK ls)) \<and>
     (\<forall>fl \<in> set ls. \<forall>fl' \<in> set ls. IS_FLOCK fl \<longrightarrow> \<not> flock_locks_conflict fl fl')"

definition flock_request :: "nat \<Rightarrow> file_lock \<Rightarrow> bool" where
  "flock_request filp request \<longleftrightarrow>
     IS_FLOCK request \<and> \<not> IS_POSIX request \<and> \<not> IS_LEASE request \<and> fl_file request = Some filp \<and>
     fl_flags request AND FL_ACCESS = 0 \<and> fl_flags request AND FL_EXISTS = 0"

text \<open>The flock table: the type of lock each open file holds.\<close>

definition flock_table :: "file_lock list \<Rightarrow> nat \<Rightarrow> u8 option" where
  "flock_table ls f = map_option fl_type (find (\<lambda>fl. IS_FLOCK fl \<and> fl_file fl = Some f) ls)"

definition flock_types_conflict :: "u8 \<Rightarrow> u8 \<Rightarrow> bool" where
  "flock_types_conflict t ty \<longleftrightarrow> t AND ucast LOCK_MAND = 0 \<and> ty AND ucast LOCK_MAND = 0 \<and> (t = F_WRLCK \<or> ty = F_WRLCK)"

definition flock_allows :: "nat \<Rightarrow> u8 \<Rightarrow> (nat \<Rightarrow> u8 option) \<Rightarrow> bool" where
  "flock_allows filp t m \<longleftrightarrow> (\<forall>f ty. f \<noteq> filp \<and> m f = Some ty \<longrightarrow> \<not> flock_types_conflict t ty)"

lemma flock_conflict_types:
  "flock_locks_conflict request fl \<longleftrightarrow>
     IS_FLOCK fl \<and> fl_file request \<noteq> fl_file fl \<and> flock_types_conflict (fl_type request) (fl_type fl)"
  by (auto simp: flock_locks_conflict_def flock_types_conflict_def locks_conflict_def)

lemma flock_table_member:
  assumes "distinct (map fl_file (filter IS_FLOCK ls))" "fl \<in> set ls" "IS_FLOCK fl" "fl_file fl = Some f"
  shows "flock_table ls f = Some (fl_type fl)"
  using assms
proof (induction ls)
  case (Cons x ls)
  show ?case
  proof (cases "IS_FLOCK x \<and> fl_file x = Some f")
    case True
    then have "Some f \<notin> fl_file ` set (filter IS_FLOCK ls)" using Cons.prems(1) by simp
    then have "fl \<notin> set ls" using Cons.prems(3,4) by (auto simp: image_iff)
    then show ?thesis using True Cons.prems(2) by (simp add: flock_table_def)
  next
    case False
    then have "fl \<in> set ls" "distinct (map fl_file (filter IS_FLOCK ls))" "flock_table (x # ls) f = flock_table ls f"
      using Cons.prems by (auto simp: flock_table_def split: if_splits)
    then show ?thesis using Cons.IH Cons.prems(3,4) by simp
  qed
qed simp

lemma flock_table_SomeE:
  assumes "flock_table ls f = Some ty"
  obtains fl where "fl \<in> set ls" "IS_FLOCK fl" "fl_file fl = Some f" "fl_type fl = ty"
  using assms by (auto simp: flock_table_def find_Some_iff) (metis nth_mem)

lemma flock_table_None: "flock_table ls f = None \<longleftrightarrow> (\<forall>fl \<in> set ls. \<not> (IS_FLOCK fl \<and> fl_file fl = Some f))"
  by (auto simp: flock_table_def find_None_iff)

lemma flock_table_append: "flock_table (X @ Y) f = (case flock_table X f of None \<Rightarrow> flock_table Y f | r \<Rightarrow> r)"
  by (induction X) (auto simp: flock_table_def)

lemma posix_last_takeWhile:
  assumes "posix_last ls" "fl \<in> set ls" "\<not> IS_POSIX fl"
  shows "fl \<in> set (takeWhile (\<lambda>fl. \<not> IS_POSIX fl) ls)"
  using assms by (induction ls) (auto split: if_splits)

lemma flock_conflict_table:
  assumes ok: "posix_last ls" "flock_ok ls" and rq: "fl_file request = Some filp"
  shows "flock_conflict request ls = None \<longleftrightarrow> flock_allows filp (fl_type request) (flock_table ls)"
proof
  assume n: "flock_conflict request ls = None"
  show "flock_allows filp (fl_type request) (flock_table ls)"
    unfolding flock_allows_def
  proof (intro allI impI, elim conjE)
    fix f ty assume a: "f \<noteq> filp" "flock_table ls f = Some ty"
    obtain fl where fl: "fl \<in> set ls" "IS_FLOCK fl" "fl_file fl = Some f" "fl_type fl = ty" using a(2) by (rule flock_table_SomeE)
    have k: "\<not> IS_POSIX fl" "\<not> IS_LEASE fl" using ok(2) fl by (auto simp: flock_ok_def)
    have "fl \<in> set (takeWhile (\<lambda>fl. \<not> IS_POSIX fl) ls)" by (rule posix_last_takeWhile [OF ok(1) fl(1) k(1)])
    then have "\<not> flock_locks_conflict request fl" using n k by (auto simp: flock_conflict_def find_None_iff)
    then show "\<not> flock_types_conflict (fl_type request) ty" using fl a rq by (auto simp: flock_conflict_types)
  qed
next
  assume a: "flock_allows filp (fl_type request) (flock_table ls)"
  have "\<not> flock_locks_conflict request fl" if "fl \<in> set ls" for fl
  proof
    assume c: "flock_locks_conflict request fl"
    then have fl: "IS_FLOCK fl" "fl_file fl \<noteq> Some filp" "flock_types_conflict (fl_type request) (fl_type fl)"
      using rq by (auto simp: flock_conflict_types)
    have "fl_file fl \<noteq> None" using ok(2) that fl(1) unfolding flock_ok_def by blast
    then obtain f where f: "fl_file fl = Some f" by blast
    have "flock_table ls f = Some (fl_type fl)"
      using flock_table_member [OF _ that fl(1) f] ok(2) by (simp add: flock_ok_def)
    then show False using a fl f by (auto simp: flock_allows_def)
  qed
  then show "flock_conflict request ls = None" by (auto simp: flock_conflict_def find_None_iff dest: set_takeWhileD)
qed

lemma find_flock_cases:
  assumes "posix_last ls" "\<forall>fl \<in> set ls. IS_FLOCK fl \<longleftrightarrow> \<not> IS_POSIX fl \<and> \<not> IS_LEASE fl"
  shows "case find_flock filp ty front ls of
      No_Flock \<Rightarrow> flock_table ls filp = None
    | Same_Flock \<Rightarrow> flock_table ls filp = Some ty
    | Old_Flock F fl R \<Rightarrow> \<exists>F'. F = front @ F' \<and> ls = F' @ fl # R \<and> IS_FLOCK fl \<and> fl_file fl = Some filp \<and> fl_type fl \<noteq> ty"
  using assms
proof (induction ls arbitrary: front)
  case Nil
  then show ?case by (simp add: flock_table_def)
next
  case (Cons x ls)
  show ?case
  proof (cases "IS_POSIX x")
    case True
    have "\<forall>fl \<in> set (x # ls). \<not> IS_FLOCK fl" using Cons.prems True by auto
    then show ?thesis using True by (auto simp: flock_table_None)
  next
    case np: False
    show ?thesis
    proof (cases "IS_LEASE x \<or> fl_file x \<noteq> Some filp")
      case True
      then have t: "flock_table (x # ls) filp = flock_table ls filp"
        using Cons.prems(2) by (auto simp: flock_table_def)
      have "posix_last ls" using Cons.prems(1) np by simp
      then show ?thesis using Cons.IH [of "front @ [x]"] Cons.prems(2) True np t
        by (auto split: flock_search.splits)
    next
      case False
      then show ?thesis using np Cons.prems(2) by (auto simp: flock_table_def)
    qed
  qed
qed

lemma posix_part:
  assumes "posix_last ls"
  shows "dropWhile (\<lambda>fl. \<not> IS_POSIX fl) ls = filter IS_POSIX ls"
  using assms by (induction ls) (auto simp: filter_id_conv)

lemma ranges_of_posix: "ranges_of w (filter IS_POSIX ls) = ranges_of w ls"
  by (simp add: ranges_of_def own_def) (metis (no_types, lifting) filter_cong own_def)

lemma grouped_posix:
  assumes "posix_last ls"
  shows "grouped w (filter IS_POSIX ls) = grouped w ls"
proof -
  have "ls = takeWhile (\<lambda>fl. \<not> IS_POSIX fl) ls @ filter IS_POSIX ls" using posix_part [OF assms] by (metis takeWhile_dropWhile_id)
  moreover have "\<forall>x \<in> set (takeWhile (\<lambda>fl. \<not> IS_POSIX fl) ls). \<not> own w x" by (auto simp: own_def dest: set_takeWhileD)
  ultimately show ?thesis using grouped_skip by metis
qed

lemma lock_list_ok_posix:
  assumes "lock_list_ok ls" "filter IS_POSIX ls' = filter IS_POSIX ls" "distinct (map fl_addr ls')" "posix_last ls'"
  shows "lock_list_ok ls'"
proof (rule lock_list_okI [OF assms(3,4)])
  have p: "posix_last ls" using assms(1) by (simp add: lock_list_ok_def)
  have r: "ranges_of w ls' = ranges_of w ls" for w using assms(2) ranges_of_posix by metis
  show "grouped w ls'" for w
    using grouped_posix [OF p, of w] grouped_posix [OF assms(4), of w] grouped_any [OF assms(1), of w] assms(2) by simp
  show "ranges_ok (ranges_of w ls')" for w using r ranges_ok_any [OF assms(1)] by simp
  have "lock_table ls' = lock_table ls" by (intro ext) (simp add: lock_table_def r)
  then show "table_compatible (lock_table ls')" using lock_list_ok_compatible [OF assms(1)] by simp
  have "fl \<in> set ls' \<Longrightarrow> IS_POSIX fl \<Longrightarrow> fl \<in> set ls" for fl
  proof -
    assume "fl \<in> set ls'" "IS_POSIX fl"
    then have "fl \<in> set (filter IS_POSIX ls')" by simp
    then show "fl \<in> set ls" unfolding assms(2) by simp
  qed
  then show "\<forall>fl \<in> set ls'. IS_POSIX fl \<longrightarrow> 0 \<le> fl_start fl \<and> fl_end fl \<le> OFFSET_MAX"
    using lock_list_okD(3,4) [OF assms(1)] by blast
qed

lemma flock_table_Cons:
  "flock_table (x # ls) f = (if IS_FLOCK x \<and> fl_file x = Some f then Some (fl_type x) else flock_table ls f)"
  by (simp add: flock_table_def)

lemma flock_delete:
  assumes ok: "lock_list_ok (F @ fl # R)" "flock_ok (F @ fl # R)" and fl: "IS_FLOCK fl" "fl_file fl = Some filp"
  shows "lock_list_ok (F @ R)" "flock_ok (F @ R)" "flock_table (F @ R) = (flock_table (F @ fl # R))(filp := None)"
proof -
  have np: "\<not> IS_POSIX fl" using ok(2) fl(1) by (auto simp: flock_ok_def)
  have "posix_last (F @ fl # R)" using ok(1) by (simp add: lock_list_ok_def)
  then have "posix_last (F @ R)" using np by (auto simp: posix_last_append)
  moreover have "distinct (map fl_addr (F @ fl # R))" using ok(1) by (simp add: lock_list_ok_def)
  ultimately show "lock_list_ok (F @ R)" using np by (intro lock_list_ok_posix [OF ok(1)]) auto
  show fok: "flock_ok (F @ R)" using ok(2) fl(1) unfolding flock_ok_def by auto
  have none: "flock_table (F @ R) filp = None"
    using ok(2) fl unfolding flock_table_None flock_ok_def by (auto simp: image_iff)
  show "flock_table (F @ R) = (flock_table (F @ fl # R))(filp := None)"
  proof
    fix f show "flock_table (F @ R) f = ((flock_table (F @ fl # R))(filp := None)) f"
      using none fl by (auto simp: flock_table_append flock_table_Cons split: option.split)
  qed
qed

definition flock_insert :: "u32 \<Rightarrow> nat \<Rightarrow> file_lock \<Rightarrow> file_lock list \<Rightarrow> file_lock list" where
  "flock_insert tgid addr request ls = takeWhile (\<lambda>fl. \<not> IS_POSIX fl) ls @
     locks_insert_lock tgid addr request (dropWhile (\<lambda>fl. \<not> IS_POSIX fl) ls)"

lemma flock_insert_ok:
  assumes ok: "lock_list_ok ls" "flock_ok ls" and rq: "flock_request filp request"
    and t: "fl_type request \<noteq> F_UNLCK" and addr: "addr \<notin> fl_addr ` set ls" and none: "flock_table ls filp = None"
    and allow: "flock_allows filp (fl_type request) (flock_table ls)"
  shows "lock_list_ok (flock_insert tgid addr request ls)" "flock_ok (flock_insert tgid addr request ls)"
    "flock_table (flock_insert tgid addr request ls) = (flock_table ls)(filp \<mapsto> fl_type request)"
proof -
  define new where "new = hd (locks_insert_lock tgid addr request [])"
  define X Y where XY: "X = takeWhile (\<lambda>fl. \<not> IS_POSIX fl) ls" "Y = dropWhile (\<lambda>fl. \<not> IS_POSIX fl) ls"
  have ins: "flock_insert tgid addr request ls = X @ new # Y" by (simp add: flock_insert_def new_def XY locks_insert_lock_def)
  have ls: "ls = X @ Y" by (simp add: XY)
  have new: "IS_FLOCK new" "\<not> IS_POSIX new" "\<not> IS_LEASE new" "fl_file new = Some filp" "fl_type new = fl_type request" "fl_addr new = addr"
    using rq by (simp_all add: new_def flock_request_def locks_insert_lock_def locks_copy_lock_def locks_copy_header_def
        locks_init_lock_def IS_FLOCK_def IS_POSIX_def IS_LEASE_def)
  have pl: "posix_last (X @ Y)" using ok(1) by (simp add: lock_list_ok_def ls [symmetric])
  have "Y = filter IS_POSIX ls" unfolding XY by (rule posix_part) (use pl ls in simp)
  then have Y: "\<forall>y \<in> set Y. IS_POSIX y" by simp
  have X: "\<forall>x \<in> set X. \<not> IS_POSIX x" using XY(1) set_takeWhileD by fast
  have "posix_last (X @ new # Y)" using pl new X Y by (auto simp: posix_last_append)
  moreover have "distinct (map fl_addr (X @ new # Y))" using ok(1) addr new(6) unfolding ls by (auto simp: lock_list_ok_def)
  moreover have "filter IS_POSIX (X @ new # Y) = filter IS_POSIX ls" using new(2) by (simp add: ls)
  ultimately show "lock_list_ok (flock_insert tgid addr request ls)" unfolding ins using lock_list_ok_posix [OF ok(1)] by blast
  have no: "\<forall>fl \<in> set ls. IS_FLOCK fl \<longrightarrow> fl_file fl \<noteq> Some filp" using none unfolding flock_table_None by blast
  have cf: "\<not> flock_types_conflict (fl_type request) (fl_type fl)" if fl: "fl \<in> set ls" "IS_FLOCK fl" for fl
  proof -
    have "fl_file fl \<noteq> None" using ok(2) fl unfolding flock_ok_def by blast
    then obtain f where f: "fl_file fl = Some f" by blast
    have "flock_table ls f = Some (fl_type fl)" using flock_table_member [OF _ fl f] ok(2) by (simp add: flock_ok_def)
    then show ?thesis using allow no fl f unfolding flock_allows_def by auto
  qed
  have sym: "flock_types_conflict a b = flock_types_conflict b a" for a b by (auto simp: flock_types_conflict_def)
  have all: "set (X @ new # Y) = insert new (set ls)" by (auto simp: ls)
  have old: "\<forall>fl \<in> set ls. IS_FLOCK fl = (\<not> IS_POSIX fl \<and> \<not> IS_LEASE fl)" "\<forall>fl \<in> set ls. IS_FLOCK fl \<longrightarrow> fl_file fl \<noteq> None \<and> fl_type fl \<noteq> F_UNLCK"
    "\<forall>fl \<in> set ls. \<forall>fl' \<in> set ls. IS_FLOCK fl \<longrightarrow> \<not> flock_locks_conflict fl fl'"
    using ok(2) unfolding flock_ok_def by blast+
  show "flock_ok (flock_insert tgid addr request ls)"
    unfolding ins flock_ok_def
  proof (intro conjI)
    show "\<forall>fl \<in> set (X @ new # Y). IS_FLOCK fl = (\<not> IS_POSIX fl \<and> \<not> IS_LEASE fl)"
      "\<forall>fl \<in> set (X @ new # Y). IS_FLOCK fl \<longrightarrow> fl_file fl \<noteq> None \<and> fl_type fl \<noteq> F_UNLCK"
      using old new t unfolding all by auto
    show "distinct (map fl_file (filter IS_FLOCK (X @ new # Y)))"
      using ok(2) new no unfolding flock_ok_def ls by auto
    show "\<forall>fl \<in> set (X @ new # Y). \<forall>fl' \<in> set (X @ new # Y). IS_FLOCK fl \<longrightarrow> \<not> flock_locks_conflict fl fl'"
    proof (intro ballI impI)
      fix fl fl' assume m: "fl \<in> set (X @ new # Y)" "fl' \<in> set (X @ new # Y)" "IS_FLOCK fl"
      show "\<not> flock_locks_conflict fl fl'"
        using m old(3) new(1,5) cf [of fl] cf [of fl'] sym unfolding all by (cases "fl = new"; cases "fl' = new") (auto simp: flock_conflict_types)
    qed
  qed
  show "flock_table (flock_insert tgid addr request ls) = (flock_table ls)(filp \<mapsto> fl_type request)"
  proof
    fix f show "flock_table (flock_insert tgid addr request ls) f = ((flock_table ls)(filp \<mapsto> fl_type request)) f"
      unfolding ins using none new by (auto simp: ls flock_table_append flock_table_Cons split: option.split)
  qed
qed

lemma flock_acquire_result:
  assumes ok: "lock_list_ok (i_flock st)" "flock_ok (i_flock st)" and rq: "flock_request filp request"
    and t: "fl_type request \<noteq> F_UNLCK" and addr: "addr \<notin> fl_addr ` set (i_flock st)" and none: "flock_table (i_flock st) filp = None"
    and call: "flock_acquire tgid (Some addr) request st = (r, st')"
  shows "lock_list_ok (i_flock st') \<and> flock_ok (i_flock st') \<and>
    (r = Inr Locked \<longleftrightarrow> flock_allows filp (fl_type request) (flock_table (i_flock st))) \<and>
    flock_table (i_flock st') =
      (if r = Inr Locked then (flock_table (i_flock st))(filp \<mapsto> fl_type request) else flock_table (i_flock st))"
proof -
  have fp: "fl_file request = Some filp" using rq by (simp add: flock_request_def)
  have pl: "posix_last (i_flock st)" using ok(1) by (simp add: lock_list_ok_def)
  note iff = flock_conflict_table [OF pl ok(2) fp]
  show ?thesis
  proof (cases "flock_conflict request (i_flock st)")
    case None
    then have allow: "flock_allows filp (fl_type request) (flock_table (i_flock st))" using iff by blast
    have "r = Inr Locked" "i_flock st' = flock_insert tgid addr request (i_flock st)"
      using call None rq by (auto simp: flock_acquire_def flock_insert_def flock_request_def)
    then show ?thesis using flock_insert_ok [OF ok rq t addr none allow, of tgid] allow by simp
  next
    case (Some fl)
    then have "\<not> flock_allows filp (fl_type request) (flock_table (i_flock st))" "r \<noteq> Inr Locked" "i_flock st' = i_flock st"
      using iff call by (auto simp: flock_acquire_def locks_insert_block_def split: if_splits)
    then show ?thesis using ok by simp
  qed
qed

text \<open>
  C19. flock locks refine a table from open files to lock types. When no other thread comes in between,
  a flock call succeeds exactly when it unlocks, when the file has that lock already or when no other
  file's lock excludes it; the table then has exactly the requested entry for the file. When it does
  not succeed the file has lost the lock of another type it had. The list stays well formed, with one
  flock lock for each file and no two that conflict.
\<close>

theorem flock_refines_table:
  assumes ok: "lock_list_ok (i_flock st)" "flock_ok (i_flock st)" and rq: "flock_request filp request"
    and addr: "addr \<notin> fl_addr ` set (i_flock st)"
    and call: "flock_lock_file tgid (Some addr) (\<lambda>s. s) filp request st = (r, st')"
  shows "lock_list_ok (i_flock st') \<and> flock_ok (i_flock st') \<and>
    (r = Inr Locked \<longleftrightarrow> fl_type request = F_UNLCK \<or> flock_table (i_flock st) filp = Some (fl_type request) \<or>
       flock_allows filp (fl_type request) (flock_table (i_flock st))) \<and>
    flock_table (i_flock st') = (flock_table (i_flock st))(filp :=
      (if r = Inr Locked \<and> fl_type request \<noteq> F_UNLCK then Some (fl_type request) else None))"
proof -
  define ls where "ls = i_flock st"
  have acc: "fl_flags request AND FL_ACCESS = 0" "fl_flags request AND FL_EXISTS = 0" using rq by (auto simp: flock_request_def)
  have pl: "posix_last ls" "\<forall>fl \<in> set ls. IS_FLOCK fl \<longleftrightarrow> \<not> IS_POSIX fl \<and> \<not> IS_LEASE fl"
    using ok by (simp_all add: lock_list_ok_def flock_ok_def ls_def)
  note fc = find_flock_cases [OF pl, of filp "fl_type request" "[]"]
  show ?thesis
  proof (cases "find_flock filp (fl_type request) [] ls")
    case No_Flock
    then have none: "flock_table (i_flock st) filp = None" using fc by (simp add: ls_def)
    then have upd: "(flock_table (i_flock st))(filp := None) = flock_table (i_flock st)" by auto
    show ?thesis
    proof (cases "fl_type request = F_UNLCK")
      case True
      then show ?thesis using call No_Flock acc ok upd by (auto simp: flock_lock_file_def ls_def)
    next
      case False
      then have "flock_acquire tgid (Some addr) request st = (r, st')"
        using call No_Flock acc by (simp add: flock_lock_file_def ls_def)
      from flock_acquire_result [OF ok rq False addr none this] show ?thesis using False none upd by auto
    qed
  next
    case Same_Flock
    then have s: "flock_table (i_flock st) filp = Some (fl_type request)" using fc by (simp add: ls_def)
    then obtain fl where "fl \<in> set ls" "IS_FLOCK fl" "fl_type fl = fl_type request" unfolding ls_def by (rule flock_table_SomeE)
    then have "fl_type request \<noteq> F_UNLCK" using ok(2) unfolding flock_ok_def ls_def by metis
    moreover have "(flock_table (i_flock st))(filp := Some (fl_type request)) = flock_table (i_flock st)" using s by auto
    ultimately show ?thesis using call Same_Flock acc ok s by (auto simp: flock_lock_file_def ls_def)
  next
    case (Old_Flock F fl R)
    then have f: "ls = F @ fl # R" "IS_FLOCK fl" "fl_file fl = Some filp" "fl_type fl \<noteq> fl_type request" using fc by auto
    note del = flock_delete [OF ok [folded ls_def, unfolded f(1)] f(2,3)]
    define st1 where "st1 = wake_up_blocks [fl_addr fl] (st\<lparr>i_flock := F @ R\<rparr>)"
    have l1: "i_flock st1 = F @ R" by (simp add: st1_def)
    have t1: "flock_table (i_flock st1) = (flock_table ls)(filp := None)" unfolding l1 del(3) f(1) ..
    have ne: "flock_table ls filp \<noteq> Some (fl_type request)"
      using flock_table_member [of ls fl filp] f ok(2) by (auto simp: flock_ok_def ls_def)
    show ?thesis
    proof (cases "fl_type request = F_UNLCK")
      case True
      then have "r = Inr Locked" "st' = st1" using call Old_Flock acc by (auto simp: flock_lock_file_def ls_def st1_def)
      then show ?thesis using del l1 t1 True by (simp add: ls_def)
    next
      case False
      then have c: "flock_acquire tgid (Some addr) request st1 = (r, st')"
        using call Old_Flock acc by (simp add: flock_lock_file_def ls_def st1_def)
      have "addr \<notin> fl_addr ` set (i_flock st1)" using addr unfolding l1 f(1) [unfolded ls_def] by auto
      moreover have "flock_table (i_flock st1) filp = None" by (simp add: t1)
      ultimately have "lock_list_ok (i_flock st') \<and> flock_ok (i_flock st') \<and>
        (r = Inr Locked \<longleftrightarrow> flock_allows filp (fl_type request) (flock_table (i_flock st1))) \<and>
        flock_table (i_flock st') =
          (if r = Inr Locked then (flock_table (i_flock st1))(filp \<mapsto> fl_type request) else flock_table (i_flock st1))"
        using flock_acquire_result [OF _ _ rq False _ _ c] del(1,2) l1 by simp
      moreover have "flock_allows filp (fl_type request) (flock_table (i_flock st1)) = flock_allows filp (fl_type request) (flock_table ls)"
        by (auto simp: flock_allows_def t1)
      ultimately show ?thesis using False ne t1 by (auto simp: ls_def)
    qed
  qed
qed

end
