(* ===== verification/Lock_Calls.thy ===== *)
theory Lock_Calls
  imports Flock_Locks
begin

text \<open>
  From the system calls to the list: the requests user space can make, the description F_GETLK returns,
  waiting until a request is granted; witnesses on a sample state, and two limits of the code.
\<close>

section \<open>Requests from user space\<close>

definition offset_ok :: "nat \<Rightarrow> int \<Rightarrow> bool" where
  "offset_ok w x \<longleftrightarrow> - (2 ^ (w - 1)) \<le> x \<and> x < 2 ^ (w - 1)"

lemma lock_range_bounds:
  assumes "lock_range w base l = Inr (start, fin)" "w \<in> {32, 64}"
  shows "0 \<le> start" "start \<le> fin" "fin \<le> OFFSET_MAX"
proof -
  have b: "wrap_s w x \<le> OFFSET_MAX" for x
    using wrap_s_bounds(2) [of w x] assms(2) by (auto simp: OFFSET_MAX_def)
  show "0 \<le> start" "start \<le> fin" "fin \<le> OFFSET_MAX"
    using assms(1) b [of "base + l_start l"] b [of "wrap_s w (base + l_start l) + l_len l - 1"]
    by (auto simp: lock_range_def Let_def not_less split: if_splits)
qed

lemma to_posix_lock_result:
  assumes "to_posix_lock w files tgid filp fl l = Inr fl'" "w \<in> {32, 64}"
  shows "IS_POSIX fl'" "fl_type fl' \<in> {F_RDLCK, F_WRLCK, F_UNLCK}" "0 \<le> fl_start fl'" "fl_start fl' \<le> fl_end fl'"
    "fl_end fl' \<le> OFFSET_MAX" "fl_owner fl' = files" "fl_addr fl' = fl_addr fl" "fl_flags fl' = FL_POSIX"
    "uint (fl_type fl') = l_type l"
proof -
  obtain base start fin where r: "whence_base w filp l = Inr base" "lock_range w base l = Inr (start, fin)"
    "assign_type (fl\<lparr>fl_start := start, fl_end := fin, fl_owner := files, fl_pid := tgid,
       fl_file := Some (lf_file filp), fl_flags := FL_POSIX\<rparr>) (l_type l) = Inr fl'"
    using assms(1) by (auto simp: to_posix_lock_def split: sum.splits)
  have t: "l_type l \<in> {0, 1, 2}"
    "fl' = fl\<lparr>fl_start := start, fl_end := fin, fl_owner := files, fl_pid := tgid, fl_file := Some (lf_file filp),
       fl_flags := FL_POSIX, fl_type := word_of_int (l_type l)\<rparr>"
    using r(3) by (auto simp: assign_type_def split: if_splits)
  show "IS_POSIX fl'" "fl_type fl' \<in> {F_RDLCK, F_WRLCK, F_UNLCK}" "uint (fl_type fl') = l_type l"
    using t by (auto simp: IS_POSIX_def FL_defs F_defs)
  show "0 \<le> fl_start fl'" "fl_start fl' \<le> fl_end fl'" "fl_end fl' \<le> OFFSET_MAX"
    using lock_range_bounds [OF r(2) assms(2)] t(2) by simp_all
  show "fl_owner fl' = files" "fl_addr fl' = fl_addr fl" "fl_flags fl' = FL_POSIX" using t(2) by simp_all
qed

text \<open>
  Every lock request that F_SETLK and F_SETLKW accept, with 32-bit and with 64-bit offsets, is one
  \<open>__posix_lock_file\<close> is made for: a POSIX request of a known type over a non-empty range of
  representable offsets, with neither FL_ACCESS nor FL_EXISTS; a read lock needs a file open for
  reading and a write lock one open for writing.
\<close>

theorem setlk_requests_well_formed:
  assumes req: "setlk_request (to_posix_lock w files tgid) setlkw filp (locks_init_lock addr) l = Inr request"
    and w: "w = 32 \<or> w = 64" and addr: "addr \<notin> fl_addr ` set ls"
  shows "lock_request_ok request ls \<and> fl_owner request = files \<and>
    fl_flags request AND FL_ACCESS = 0 \<and> fl_flags request AND FL_EXISTS = 0 \<and>
    (fl_flags request AND FL_SLEEP \<noteq> 0 \<longleftrightarrow> setlkw) \<and>
    (fl_type request = F_RDLCK \<longrightarrow> lf_read filp) \<and> (fl_type request = F_WRLCK \<longrightarrow> lf_write filp)"
proof -
  obtain fl where fl: "to_posix_lock w files tgid filp (locks_init_lock addr) l = Inr fl"
    "l_type l = 0 \<longrightarrow> lf_read filp" "l_type l = 1 \<longrightarrow> lf_write filp"
    "request = (if setlkw then fl\<lparr>fl_flags := fl_flags fl OR FL_SLEEP\<rparr> else fl)"
    using req by (auto simp: setlk_request_def split: sum.splits if_splits)
  note r = to_posix_lock_result [OF fl(1)]
  have w': "w \<in> {32, 64}" using w by simp
  note r = r [OF w']
  have a: "fl_addr fl = addr" using r(7) by (simp add: locks_init_lock_def)
  show ?thesis
    using r(1-6,8,9) fl(2-4) addr a
    by (auto simp: lock_request_ok_def IS_POSIX_def FL_defs F_defs)
qed

lemma absolute_range:
  assumes "l_whence l = 0" "w \<in> {32, 64}" "0 \<le> l_start l" "offset_ok w (l_start l)"
  shows "0 < l_len l \<Longrightarrow> offset_ok w (l_start l + l_len l - 1) \<Longrightarrow>
      lock_range w 0 l = Inr (l_start l, l_start l + l_len l - 1)"
    "l_len l = 0 \<Longrightarrow> lock_range w 0 l = Inr (l_start l, OFFSET_MAX)"
proof -
  have s: "wrap_s w (l_start l) = l_start l" using wrap_s_id [of w "l_start l"] assms by (auto simp: offset_ok_def)
  show "lock_range w 0 l = Inr (l_start l, l_start l + l_len l - 1)" if "0 < l_len l" "offset_ok w (l_start l + l_len l - 1)"
    using that wrap_s_id [of w "l_start l + l_len l - 1"] assms s
    by (auto simp: lock_range_def Let_def offset_ok_def)
  show "lock_range w 0 l = Inr (l_start l, OFFSET_MAX)" if "l_len l = 0"
    using that assms s by (auto simp: lock_range_def Let_def offset_ok_def OFFSET_MAX_def)
qed

lemma to_posix_absolute:
  assumes "l_whence l = 0"
  shows "to_posix_lock w files tgid filp fl l =
    (case lock_range w 0 l of
       Inl e \<Rightarrow> Inl e
     | Inr (start, fin) \<Rightarrow>
         assign_type (fl\<lparr>fl_start := start, fl_end := fin, fl_owner := files, fl_pid := tgid,
                         fl_file := Some (lf_file filp), fl_flags := FL_POSIX\<rparr>) (l_type l))"
  using assms by (simp add: to_posix_lock_def whence_base_def)

lemma assign_type_uint: "fl_type fl \<in> {F_RDLCK, F_WRLCK} \<Longrightarrow> assign_type b (uint (fl_type fl)) = Inr (b\<lparr>fl_type := fl_type fl\<rparr>)"
  by (auto simp: assign_type_def F_defs)

lemma flock_range_32:
  assumes "posix_lock_to_flock l fl = Inr l'" "0 \<le> fl_start fl" "fl_start fl \<le> fl_end fl"
  shows "lock_range 32 0 l' =
    (if fl_start fl = 0 \<and> fl_end fl = 2 ^ 31 - 1 then Inl EINVAL else Inr (fl_start fl, fl_end fl))"
proof -
  have b: "fl_start fl < 2 ^ 31" "fl_end fl = OFFSET_MAX \<or> fl_end fl < 2 ^ 31"
    using assms(1) by (auto simp: posix_lock_to_flock_def OFFT_OFFSET_MAX_def split: if_splits)
  have l': "l_start l' = fl_start fl" "l_whence l' = 0"
    "l_len l' = (if fl_end fl = OFFSET_MAX then 0 else wrap_s 32 (fl_end fl - fl_start fl + 1))"
    using assms(1) by (auto simp: posix_lock_to_flock_def split: if_splits)
  consider (eof) "fl_end fl = OFFSET_MAX" | (bug) "fl_start fl = 0" "fl_end fl = 2 ^ 31 - 1"
    | (fits) "fl_end fl < 2 ^ 31" "\<not> (fl_start fl = 0 \<and> fl_end fl = 2 ^ 31 - 1)" using b by blast
  then show ?thesis
  proof cases
    case eof
    then show ?thesis using absolute_range(2) [of l' 32] l' b(1) assms(2) by (simp add: offset_ok_def OFFSET_MAX_def)
  next
    case bug
    then show ?thesis using l' by (simp add: lock_range_def wrap_s_def OFFSET_MAX_def)
  next
    case fits
    have "wrap_s 32 (fl_end fl - fl_start fl + 1) = fl_end fl - fl_start fl + 1"
      using fits assms(2,3) by (intro wrap_s_id) auto
    then have "l_len l' = fl_end fl - fl_start fl + 1" using l'(3) fits(1) by (simp add: OFFSET_MAX_def)
    then show ?thesis using absolute_range(1) [of l' 32] l'(1,2) fits assms(2,3) b(1) by (simp add: offset_ok_def)
  qed
qed


text \<open>
  C35. F_GETLK predicts F_SETLK. For a read or write request, the test reports F_UNLCK exactly when the
  request would be granted at once, and otherwise it reports the range, type and owner of a lock of
  another owner that conflicts with it.
\<close>

theorem test_lock_predicts:
  assumes ok: "lock_list_ok (i_flock st)" "lock_request_ok request (i_flock st)" "fresh_allocs (Some n1) (Some n2) (i_flock st)"
    and type: "fl_type request \<noteq> F_UNLCK" "fl_flags request AND FL_ACCESS = 0"
  shows "(fl_type (posix_test_lock st request) = F_UNLCK \<longleftrightarrow>
      fst (posix_lock_file tgid (Some n1) (Some n2) request st) = Inr Locked) \<and>
    (fl_type (posix_test_lock st request) \<noteq> F_UNLCK \<longrightarrow>
      (\<exists>cfl \<in> set (i_flock st). posix_locks_conflict request cfl \<and> rng (posix_test_lock st request) = rng cfl \<and>
        fl_owner (posix_test_lock st request) = fl_owner cfl))"
proof -
  define c where "c = find (\<lambda>cfl. IS_POSIX cfl \<and> posix_locks_conflict request cfl) (i_flock st)"
  have c: "conflicting_lock request st = c" using type by (simp add: conflicting_lock_def c_def)
  have none: "c = None \<Longrightarrow> fl_type (posix_test_lock st request) = F_UNLCK" by (simp add: posix_test_lock_def c_def)
  have some: "cfl \<in> set (i_flock st) \<and> posix_locks_conflict request cfl \<and> rng (posix_test_lock st request) = rng cfl \<and>
      fl_owner (posix_test_lock st request) = fl_owner cfl \<and> fl_type (posix_test_lock st request) \<noteq> F_UNLCK" if "c = Some cfl" for cfl
  proof -
    have m: "cfl \<in> set (i_flock st)" "IS_POSIX cfl" "posix_locks_conflict request cfl" using that by (auto simp: c_def find_Some_iff)
    have "fl_type cfl \<noteq> F_UNLCK" using lock_list_okD(2) [OF ok(1) m(1,2)] by (auto simp: F_defs)
    then show ?thesis using that m
      by (auto simp: posix_test_lock_def c_def [symmetric] locks_copy_header_def rng_def split: option.split)
  qed
  have "fl_type (posix_test_lock st request) = F_UNLCK \<longleftrightarrow>
      fst (posix_lock_file tgid (Some n1) (Some n2) request st) = Inr Locked"
  proof (cases rule: posix_lock_file_cases [OF ok, of tgid])
    case (1 fl)
    then show ?thesis using some [of fl] c by (auto simp: block_on_conflict_def)
  qed (use none c type in simp_all)
  moreover have "\<exists>cfl \<in> set (i_flock st). posix_locks_conflict request cfl \<and> rng (posix_test_lock st request) = rng cfl \<and>
        fl_owner (posix_test_lock st request) = fl_owner cfl" if "fl_type (posix_test_lock st request) \<noteq> F_UNLCK"
    using that none some by (cases c) blast+
  ultimately show ?thesis by blast
qed

section \<open>Waiting ends\<close>

lemma sleeping_never_again:
  assumes "fl_flags request AND FL_SLEEP \<noteq> 0"
  shows "fst (posix_lock_file tgid a a2 request st) \<noteq> Inl EAGAIN"
proof -
  have f: "fst (finish_lock tgid n n2 L st) \<noteq> Inl EAGAIN" for n n2 L st
    by (auto simp: finish_lock_def Let_def split: option.split prod.split)
  show ?thesis using assms f by (simp add: posix_lock_file_def block_on_conflict_def Let_def split: option.split)
qed


section \<open>Witnesses\<close>

definition a_lock :: "nat \<Rightarrow> nat \<Rightarrow> u8 \<Rightarrow> u8 \<Rightarrow> nat \<Rightarrow> int \<Rightarrow> int \<Rightarrow> file_lock" where
  "a_lock addr owner flags ty filp s e =
     \<lparr>fl_addr = addr, fl_owner = owner, fl_flags = flags, fl_type = ty, fl_pid = 100, fl_nspid = Some 100,
      fl_file = Some filp, fl_start = s, fl_end = e\<rparr>"

definition sample_locks :: "file_lock list" where
  "sample_locks =
     [a_lock 1 0 FL_FLOCK F_RDLCK 7 0 OFFSET_MAX, a_lock 2 10 FL_POSIX F_RDLCK 8 0 9,
      a_lock 3 10 FL_POSIX F_WRLCK 8 20 29, a_lock 4 11 FL_POSIX F_RDLCK 9 5 14]"

definition sample_waiter :: file_lock where
  "sample_waiter = a_lock 9 12 (FL_POSIX OR FL_SLEEP) F_WRLCK 6 25 26"

definition sample_state :: lock_state where
  "sample_state = \<lparr>i_flock = sample_locks, waiting = [(sample_waiter, a_lock 3 10 FL_POSIX F_WRLCK 8 20 29)]\<rparr>"

lemmas sample_defs = sample_locks_def a_lock_def FL_defs F_defs IS_POSIX_def IS_FLOCK_def IS_LEASE_def OFFSET_MAX_def

lemma a_lock_simps [simp]:
  "fl_addr (a_lock a w f t p s e) = a" "fl_owner (a_lock a w f t p s e) = w" "fl_flags (a_lock a w f t p s e) = f"
  "fl_type (a_lock a w f t p s e) = t" "fl_file (a_lock a w f t p s e) = Some p" "fl_start (a_lock a w f t p s e) = s"
  "fl_end (a_lock a w f t p s e) = e"
  by (simp_all add: a_lock_def)

lemma sample_kinds [simp]:
  "IS_POSIX (a_lock a w FL_POSIX t p s e)" "\<not> IS_FLOCK (a_lock a w FL_POSIX t p s e)" "\<not> IS_LEASE (a_lock a w FL_POSIX t p s e)"
  "IS_FLOCK (a_lock a w FL_FLOCK t p s e)" "\<not> IS_POSIX (a_lock a w FL_FLOCK t p s e)" "\<not> IS_LEASE (a_lock a w FL_FLOCK t p s e)"
  "IS_POSIX (a_lock a w (FL_POSIX OR FL_SLEEP) t p s e)"
  by (simp_all add: IS_POSIX_def IS_FLOCK_def IS_LEASE_def FL_defs)

lemma sample_types [simp]: "F_RDLCK \<noteq> F_WRLCK" "F_WRLCK \<noteq> F_RDLCK" "F_RDLCK \<noteq> F_UNLCK" "F_WRLCK \<noteq> F_UNLCK" "F_UNLCK \<noteq> F_RDLCK" "F_UNLCK \<noteq> F_WRLCK"
  by (simp_all add: F_defs)

lemma flag_simps [simp]:
  "FL_POSIX AND FL_SLEEP = 0" "FL_POSIX AND FL_ACCESS = 0" "FL_POSIX AND FL_EXISTS = 0"
  "(FL_POSIX OR FL_SLEEP) AND FL_SLEEP \<noteq> 0" "(FL_POSIX OR FL_SLEEP) AND FL_ACCESS = 0" "(FL_POSIX OR FL_SLEEP) AND FL_EXISTS = 0"
  by (simp_all add: FL_defs)

lemma sample_ok: "lock_list_ok sample_locks"
  by (simp add: sample_locks_def lock_list_ok_def posix_last_def grouped_def ranges_of_def own_def rng_def apart_def
      posix_conflict_iff locks_overlap_def OFFSET_MAX_def)

lemma sample_flock_ok: "flock_ok sample_locks"
  by (simp add: sample_locks_def flock_ok_def flock_locks_conflict_def)

definition sample_request :: "u8 \<Rightarrow> int \<Rightarrow> int \<Rightarrow> file_lock" where
  "sample_request ty s e = a_lock 50 10 FL_POSIX ty 8 s e"

lemma sample_request_ok:
  assumes "ty \<in> {F_RDLCK, F_WRLCK, F_UNLCK}" "0 \<le> s" "s \<le> e" "e \<le> OFFSET_MAX"
  shows "lock_request_ok (sample_request ty s e) sample_locks"
  using assms by (simp add: lock_request_ok_def sample_request_def) (simp add: sample_locks_def)

lemma sample_fresh: "fresh_allocs (Some 60) (Some 61) sample_locks"
  by (simp add: fresh_allocs_def sample_locks_def)

theorem posix_lock_refines_table_witness:
  "table_allows (sample_request F_WRLCK 16 24) (lock_table sample_locks) \<and>
   lock_table (i_flock (snd (posix_lock_file 100 (Some 60) (Some 61) (sample_request F_WRLCK 16 24) sample_state))) 10 18 = Some F_WRLCK"
proof -
  define rq where "rq = sample_request F_WRLCK 16 24"
  have ok: "lock_list_ok (i_flock sample_state)" "lock_request_ok rq (i_flock sample_state)" "fresh_allocs (Some 60) (Some 61) (i_flock sample_state)"
    using sample_ok sample_request_ok [of F_WRLCK 16 24] sample_fresh by (simp_all add: sample_state_def rq_def OFFSET_MAX_def)
  have plain: "fl_flags rq AND FL_ACCESS = 0" "fl_flags rq AND FL_EXISTS = 0" by (simp_all add: rq_def sample_request_def FL_defs)
  obtain r st' where call: "posix_lock_file 100 (Some 60) (Some 61) rq sample_state = (r, st')" by (cases "posix_lock_file 100 (Some 60) (Some 61) rq sample_state")
  note t = posix_lock_refines_table [OF ok plain call, THEN conjunct1] posix_lock_refines_table [OF ok plain call, THEN conjunct2, THEN conjunct1]
  have al: "table_allows rq (lock_table (i_flock sample_state))"
    using no_conflict_table [OF ok(1,2)]
    by (simp add: rq_def sample_request_def conflicting_lock_def sample_state_def sample_locks_def posix_conflict_iff locks_overlap_def)
  then have "lock_table (i_flock st') 10 18 = Some F_WRLCK" using t(1,2) by (simp add: relock_table_def rq_def sample_request_def)
  then show ?thesis using call al by (simp add: rq_def sample_state_def)
qed

lemma sample_state_ok:
  "lock_list_ok (i_flock sample_state)" "fresh_allocs (Some 60) (Some 61) (i_flock sample_state)"
  "ty \<in> {F_RDLCK, F_WRLCK, F_UNLCK} \<Longrightarrow> 0 \<le> s \<Longrightarrow> s \<le> e \<Longrightarrow> e \<le> OFFSET_MAX \<Longrightarrow>
     lock_request_ok (sample_request ty s e) (i_flock sample_state)"
  using sample_ok sample_fresh sample_request_ok by (simp_all add: sample_state_def)


theorem no_lost_wakeup_witness:
  "blocked_by (snd (posix_lock_file 100 None None (a_lock 50 10 (FL_POSIX OR FL_SLEEP) F_WRLCK 8 8 8) sample_state))
     (a_lock 50 10 (FL_POSIX OR FL_SLEEP) F_WRLCK 8 8 8) (a_lock 4 11 FL_POSIX F_RDLCK 9 5 14)"
proof -
  define rq where "rq = a_lock 50 10 (FL_POSIX OR FL_SLEEP) F_WRLCK 8 8 8"
  have s: "\<forall>(w, b) \<in> set (waiting sample_state). blocked_by sample_state w b"
    by (simp add: sample_state_def blocked_by_def sample_locks_def sample_waiter_def posix_conflict_iff locks_overlap_def)
  have ok: "lock_request_ok rq (i_flock sample_state)" "fresh_allocs None None (i_flock sample_state)"
    by (simp_all add: lock_request_ok_def rq_def fresh_allocs_def OFFSET_MAX_def) (simp add: sample_state_def sample_locks_def)
  have "what_owner_is_waiting_for sample_state (a_lock 4 11 FL_POSIX F_RDLCK 9 5 14) = None"
    by (simp add: what_owner_is_waiting_for_def sample_state_def sample_waiter_def posix_same_owner_def)
  then have "\<not> posix_locks_deadlock sample_state rq (a_lock 4 11 FL_POSIX F_RDLCK 9 5 14)"
    unfolding posix_locks_deadlock_def by (subst deadlock_loop.simps) simp
  then have c: "posix_lock_file 100 None None rq sample_state =
      (Inr Deferred, locks_insert_block (a_lock 4 11 FL_POSIX F_RDLCK 9 5 14) rq sample_state)"
    by (simp add: posix_lock_file_def conflicting_lock_def rq_def sample_state_def sample_locks_def
        posix_conflict_iff locks_overlap_def block_on_conflict_def FL_SLEEP_def)
  from no_lost_wakeup [OF sample_state_ok(1) ok s c] show ?thesis
    unfolding rq_def [symmetric] c by (simp add: locks_insert_block_def)
qed

theorem posix_locks_acyclic_witness:
  "acyclic (set (posix_waits (snd (posix_lock_file 100 None None (a_lock 50 10 (FL_POSIX OR FL_SLEEP) F_WRLCK 8 8 8) sample_state))))"
proof -
  define rq where "rq = a_lock 50 10 (FL_POSIX OR FL_SLEEP) F_WRLCK 8 8 8"
  obtain r st' where c: "posix_lock_file 100 None None rq sample_state = (r, st')"
    by (cases "posix_lock_file 100 None None rq sample_state")
  have ok: "lock_request_ok rq (i_flock sample_state)" "fresh_allocs None None (i_flock sample_state)"
    by (simp_all add: lock_request_ok_def rq_def fresh_allocs_def OFFSET_MAX_def) (simp add: sample_state_def sample_locks_def)
  have w: "posix_waits sample_state = [(12, 10)]" by (simp add: posix_waits_def sample_state_def sample_waiter_def)
  have "acyclic (set (posix_waits sample_state))" unfolding w by (simp add: acyclic_insert) (simp add: acyclic_def)
  from posix_locks_acyclic [OF sample_state_ok(1) ok this _ _ _ c] show ?thesis by (simp add: w c [unfolded rq_def] rq_def)
qed

theorem close_releases_exactly_witness:
  "\<exists>st'. locks_remove_flock 8 (locks_remove_posix 100 50 8 10 sample_state) = Some st' \<and>
     i_flock st' = [a_lock 1 0 FL_FLOCK F_RDLCK 7 0 OFFSET_MAX, a_lock 4 11 FL_POSIX F_RDLCK 9 5 14]"
proof -
  have "50 \<notin> fl_addr ` set (i_flock sample_state)"
    "\<forall>fl \<in> set (i_flock sample_state). IS_POSIX fl \<or> IS_FLOCK fl \<or> IS_LEASE fl"
    "\<forall>fl \<in> set (i_flock sample_state). IS_POSIX fl \<and> fl_file fl = Some 8 \<longrightarrow> fl_owner fl = 10"
    by (simp_all add: sample_state_def sample_locks_def)
  from close_releases_exactly [OF sample_state_ok(1) this, of 100] show ?thesis
    by (auto simp: sample_state_def sample_locks_def own_def)
qed

theorem flock_refines_table_witness:
  "flock_table (i_flock (snd (flock_lock_file 100 (Some 60) (\<lambda>s. s) 7 (a_lock 50 0 FL_FLOCK F_WRLCK 7 0 OFFSET_MAX) sample_state))) 7
     = Some F_WRLCK"
proof -
  define rq where "rq = a_lock 50 0 FL_FLOCK F_WRLCK 7 0 OFFSET_MAX"
  obtain r st' where c: "flock_lock_file 100 (Some 60) (\<lambda>s. s) 7 rq sample_state = (r, st')"
    by (cases "flock_lock_file 100 (Some 60) (\<lambda>s. s) 7 rq sample_state")
  have f: "flock_ok (i_flock sample_state)" "60 \<notin> fl_addr ` set (i_flock sample_state)"
    using sample_flock_ok by (simp_all add: sample_state_def sample_locks_def)
  have q: "flock_request 7 rq" by (simp add: flock_request_def rq_def) (simp add: FL_defs)
  have "flock_table (i_flock sample_state) = (\<lambda>f. if f = 7 then Some F_RDLCK else None)"
    by (intro ext) (simp add: flock_table_def sample_state_def sample_locks_def)
  then have "r = Inr Locked" using flock_refines_table [OF sample_state_ok(1) f(1) q f(2) c] by (simp add: flock_allows_def)
  then show ?thesis using flock_refines_table [OF sample_state_ok(1) f(1) q f(2) c] c by (simp add: rq_def)
qed

definition sample_lock_file :: lock_file where
  "sample_lock_file = \<lparr>lf_file = 8, lf_pos = 0, lf_size = 100, lf_read = True, lf_write = True\<rparr>"

theorem setlk_requests_well_formed_witness:
  "lock_request_ok (a_lock 50 10 FL_POSIX F_WRLCK 8 5 14\<lparr>fl_nspid := None\<rparr>) sample_locks"
proof -
  define l where "l = \<lparr>l_type = 1, l_whence = 0, l_start = 5, l_len = 10, l_pid = 0\<rparr>"
  have "lock_range 64 0 l = Inr (5, 14)"
    using absolute_range(1) [of l 64] by (simp add: l_def offset_ok_def)
  then have "setlk_request (to_posix_lock 64 10 100) False sample_lock_file (locks_init_lock 50) l =
    Inr (a_lock 50 10 FL_POSIX F_WRLCK 8 5 14\<lparr>fl_nspid := None\<rparr>)"
    using to_posix_absolute [of l 64 10 100 sample_lock_file "locks_init_lock 50"]
    by (simp add: setlk_request_def l_def assign_type_def locks_init_lock_def a_lock_def sample_lock_file_def F_WRLCK_def)
  from setlk_requests_well_formed [OF this, of sample_locks] show ?thesis by (simp add: sample_locks_def)
qed

definition sample_flock :: flock where
  "sample_flock = \<lparr>l_type = 1, l_whence = 0, l_start = 0, l_len = 0, l_pid = 0\<rparr>"


theorem test_lock_predicts_witness:
  "fl_type (posix_test_lock sample_state (sample_request F_WRLCK 16 24)) = F_UNLCK \<and>
   fst (posix_lock_file 100 (Some 60) (Some 61) (sample_request F_WRLCK 16 24) sample_state) = Inr Locked"
proof -
  have "fl_type (posix_test_lock sample_state (sample_request F_WRLCK 16 24)) = F_UNLCK"
    by (simp add: posix_test_lock_def sample_request_def sample_state_def sample_locks_def posix_conflict_iff locks_overlap_def)
  moreover have "lock_request_ok (sample_request F_WRLCK 16 24) (i_flock sample_state)" by (rule sample_state_ok) (simp_all add: OFFSET_MAX_def)
  ultimately show ?thesis
    using test_lock_predicts [OF sample_state_ok(1) _ sample_state_ok(2), of "sample_request F_WRLCK 16 24" 100]
    by (simp add: sample_request_def)
qed


section \<open>Limits of the code\<close>

text \<open>
  A chain of twelve waiting owners \<open>1, ..., 12\<close>, each waiting for a lock of the next, the last one for a
  lock of owner 0; owner 0 asks for a lock of owner 1.
\<close>

definition long_chain :: lock_state where
  "long_chain = \<lparr>i_flock = [a_lock 1 1 FL_POSIX F_WRLCK 8 0 0],
     waiting = map (\<lambda>i. (a_lock (100 + i) i (FL_POSIX OR FL_SLEEP) F_WRLCK 8 0 0,
                         a_lock (200 + i) (if i = 12 then 0 else i + 1) FL_POSIX F_WRLCK 8 0 0)) [1..<13]\<rparr>"

definition closing_request :: file_lock where
  "closing_request = a_lock 50 0 (FL_POSIX OR FL_SLEEP) F_WRLCK 8 0 0"

text \<open>
  Eleven is the limit of deadlock detection. With twelve waiting owners in a chain, the request that
  closes the cycle is not refused: it waits, and the wait-for relation then has a cycle.
\<close>

theorem long_deadlock_missed:
  "fst (posix_lock_file 100 None None closing_request long_chain) = Inr Deferred \<and>
   \<not> acyclic (set (posix_waits (snd (posix_lock_file 100 None None closing_request long_chain))))"
proof -
  have w: "posix_waits long_chain = map (\<lambda>i. (i, if i = 12 then 0 else i + 1)) [1..<13]"
    by (simp add: posix_waits_def long_chain_def case_prod_unfold upt_rec)
  have d: "\<not> posix_locks_deadlock long_chain closing_request (a_lock 1 1 FL_POSIX F_WRLCK 8 0 0)"
  proof
    assume "posix_locks_deadlock long_chain closing_request (a_lock 1 1 FL_POSIX F_WRLCK 8 0 0)"
    then obtain k where k: "k \<le> 10" "wait_chain (posix_waits long_chain) (Suc k) 1 = Some 0"
      unfolding posix_locks_deadlock_def deadlock_loop_chain by (auto simp: MAX_DEADLK_ITERATIONS_def closing_request_def)
    have step: "i \<le> 11 \<Longrightarrow> wait_chain (posix_waits long_chain) i 1 = Some (Suc i)" for i
    proof (induction i)
      case (Suc i)
      have "map_of (posix_waits long_chain) (Suc i) = Some (Suc (Suc i))"
        unfolding w using Suc.prems by (intro map_of_is_SomeI) (auto simp: distinct_map inj_on_def image_iff)
      then show ?case using Suc wait_chain_Suc by auto
    qed simp
    show False using k step [of "Suc k"] by simp
  qed
  have r: "posix_lock_file 100 None None closing_request long_chain =
    (Inr Deferred, locks_insert_block (a_lock 1 1 FL_POSIX F_WRLCK 8 0 0) closing_request long_chain)"
    using d by (simp add: posix_lock_file_def conflicting_lock_def closing_request_def long_chain_def posix_conflict_iff
        locks_overlap_def block_on_conflict_def FL_SLEEP_def)
  define S where "S = set (posix_waits (snd (posix_lock_file 100 None None closing_request long_chain)))"
  have S: "S = insert (0, 1) (set (posix_waits long_chain))"
    unfolding S_def r by (simp add: posix_waits_def locks_insert_block_def closing_request_def)
  have path: "i \<le> 11 \<Longrightarrow> (0, Suc i) \<in> S\<^sup>+" for i
  proof (induction i)
    case 0
    have "(0, Suc 0) \<in> S" unfolding S by simp
    then show ?case by (rule r_into_trancl)
  next
    case (Suc i)
    have "(Suc i, Suc (Suc i)) \<in> S" using Suc.prems unfolding S w by (auto simp: image_iff)
    then show ?case using Suc by (meson Suc_leD trancl_into_trancl)
  qed
  have "(12, 0) \<in> S" unfolding S w by (auto simp: image_iff)
  then have "(0, 0) \<in> S\<^sup>+" using path [of 11] by (simp add: trancl_into_trancl)
  then show ?thesis unfolding S_def [symmetric] by (auto simp: r acyclic_def)
qed

text \<open>
  An open file with a shared lock whose owner upgrades it; while the upgrade has released the old lock
  and reschedules, another thread takes a shared lock through the same open file.
\<close>

definition upgrade_start :: lock_state where
  "upgrade_start = \<lparr>i_flock = [a_lock 1 0 FL_FLOCK F_RDLCK 7 0 OFFSET_MAX], waiting = []\<rparr>"

definition flock_call :: "nat \<Rightarrow> u8 \<Rightarrow> (lock_state \<Rightarrow> lock_state) \<Rightarrow> lock_state \<Rightarrow> lock_outcome ret \<times> lock_state" where
  "flock_call addr ty resched = flock_lock_file 100 (Some addr) resched 7 (a_lock 50 0 FL_FLOCK ty 7 0 OFFSET_MAX)"

text \<open>
  The upgrade of a flock lock is not safe against other threads that use the same open file: when
  one of them takes a lock at the reschedule point, both calls succeed, the file has two flock locks
  at once, and unlocking it leaves one of them behind.
\<close>

theorem flock_upgrade_race:
  "\<exists>st st'. flock_call 2 F_WRLCK (\<lambda>s. snd (flock_call 3 F_RDLCK (\<lambda>s. s) s)) upgrade_start = (Inr Locked, st) \<and>
     map fl_type (filter (\<lambda>fl. fl_file fl = Some 7) (i_flock st)) = [F_RDLCK, F_WRLCK] \<and>
     flock_call 4 F_UNLCK (\<lambda>s. s) st = (Inr Locked, st') \<and> flock_table (i_flock st') 7 = Some F_WRLCK"
  by (simp add: flock_call_def upgrade_start_def flock_lock_file_def flock_acquire_def flock_conflict_def
      flock_locks_conflict_def wake_up_blocks_def flock_table_def locks_insert_lock_def locks_copy_lock_def
      locks_copy_header_def locks_init_lock_def IS_POSIX_def IS_FLOCK_def IS_LEASE_def FL_defs F_defs)

end
