(* ===== verification/Resource_Tree.thy ===== *)
theory Resource_Tree
  imports Kernel_Prelude "HOL-Library.Monad_Syntax"
begin

text \<open>
  The trees of I/O and memory resources of kernel/resource.c. A resource is a node with the list
  of its children, which stands for the \<open>child\<close> pointer and the \<open>sibling\<close> pointers of the chain that
  starts there; the \<open>parent\<close> pointer is the nesting. A pointer to a resource of a tree is the path
  to it from the resource the operation is given. \<open>resource_size_t\<close> has 32 bits, because the
  configuration has no 64-bit physical addresses.

  An operation that the source runs under \<open>resource_lock\<close> is a function from the tree to the new
  tree. Operations on a resource that is not in the tree follow a NULL pointer to its parent; the
  value \<open>None\<close> stands for that, as it does for a loop that does not end.
\<close>

section \<open>Data\<close>

datatype resource =
  Resource (r_start: u32) (r_end: u32) (r_name: string) (r_flags: u32) (r_child: "resource list")

type_synonym rpath = "nat list"

definition IORESOURCE_IO :: u32 where "IORESOURCE_IO = 0x100"
definition IORESOURCE_MEM :: u32 where "IORESOURCE_MEM = 0x200"
definition IORESOURCE_SIZEALIGN :: u32 where "IORESOURCE_SIZEALIGN = 0x20000"
definition IORESOURCE_STARTALIGN :: u32 where "IORESOURCE_STARTALIGN = 0x40000"
definition IORESOURCE_EXCLUSIVE :: u32 where "IORESOURCE_EXCLUSIVE = 0x8000000"
definition IORESOURCE_BUSY :: u32 where "IORESOURCE_BUSY = 0x80000000"

definition is_busy :: "resource \<Rightarrow> bool" where
  "is_busy r \<longleftrightarrow> r_flags r AND IORESOURCE_BUSY \<noteq> 0"

definition ioport_resource :: resource where
  "ioport_resource = Resource 0 0xFFFFFFFF ''PCI IO'' IORESOURCE_IO []"

definition iomem_resource :: resource where
  "iomem_resource = Resource 0 (- 1) ''PCI mem'' IORESOURCE_MEM []"

definition with_child :: "resource \<Rightarrow> resource list \<Rightarrow> resource" where
  "with_child r cs = Resource (r_start r) (r_end r) (r_name r) (r_flags r) cs"

definition with_range :: "u32 \<Rightarrow> u32 \<Rightarrow> resource \<Rightarrow> resource" where
  "with_range s e r = Resource s e (r_name r) (r_flags r) (r_child r)"

text \<open>Following a pointer, and writing through one.\<close>

fun node_at :: "resource \<Rightarrow> rpath \<Rightarrow> resource option" where
  "node_at r [] = Some r"
| "node_at r (i # p) = (if i < length (r_child r) then node_at (r_child r ! i) p else None)"

fun update_at :: "rpath \<Rightarrow> (resource \<Rightarrow> resource) \<Rightarrow> resource \<Rightarrow> resource" where
  "update_at [] f r = f r"
| "update_at (i # p) f r =
     (if i < length (r_child r)
      then with_child r ((r_child r)[i := update_at p f (r_child r ! i)]) else r)"

section \<open>Requesting and releasing\<close>

text \<open>
  The loop over the children: \<open>Inl i\<close> is the conflict with child \<open>i\<close>, \<open>Inr i\<close> the place of the new
  resource, before child \<open>i\<close>.
\<close>

fun request_slot :: "u32 \<Rightarrow> u32 \<Rightarrow> resource list \<Rightarrow> nat + nat" where
  "request_slot start fin [] = Inr 0"
| "request_slot start fin (tmp # rest) =
     (if r_start tmp > fin then Inr 0
      else if r_end tmp < start then map_sum Suc Suc (request_slot start fin rest)
      else Inl 0)"

text \<open>The result is the conflicting resource, or the place of the new one and the new tree.\<close>

definition raw_request_resource :: "resource \<Rightarrow> resource \<Rightarrow> rpath + rpath \<times> resource" where
  "raw_request_resource root new =
     (if r_end new < r_start new then Inl []
      else if r_start new < r_start root then Inl []
      else if r_end new > r_end root then Inl []
      else case request_slot (r_start new) (r_end new) (r_child root) of
             Inl i \<Rightarrow> Inl [i]
           | Inr i \<Rightarrow> Inr ([i], with_child root (take i (r_child root) @ new # drop i (r_child root))))"

definition request_resource :: "resource \<Rightarrow> resource \<Rightarrow> unit ret \<times> resource" where
  "request_resource root new =
     (case raw_request_resource root new of
        Inl _ \<Rightarrow> (Inl EBUSY, root)
      | Inr (_, root') \<Rightarrow> (Inr (), root'))"

fun unlink_child :: "nat \<Rightarrow> resource list \<Rightarrow> resource list option" where
  "unlink_child old [] = None"
| "unlink_child 0 (tmp # rest) = Some rest"
| "unlink_child (Suc old) (tmp # rest) = map_option ((#) tmp) (unlink_child old rest)"

definition raw_release_resource :: "resource \<Rightarrow> rpath \<Rightarrow> (unit ret \<times> resource) option" where
  "raw_release_resource root old =
     (if old = [] then None
      else do {
        parent \<leftarrow> node_at root (butlast old);
        Some (case unlink_child (last old) (r_child parent) of
                None \<Rightarrow> (Inl EINVAL, root)
              | Some cs \<Rightarrow> (Inr (), update_at (butlast old) (\<lambda>r. with_child r cs) root))
      })"

definition release_resource :: "resource \<Rightarrow> rpath \<Rightarrow> (unit ret \<times> resource) option" where
  "release_resource = raw_release_resource"

section \<open>Allocating\<close>

type_synonym align_fun = "resource \<Rightarrow> u32 \<Rightarrow> u32 \<Rightarrow> resource"

text \<open>The body of the loop up to the test: the gap before \<open>this\<close>, clipped and aligned.\<close>

definition gap_before ::
  "resource \<Rightarrow> u32 \<Rightarrow> u32 \<Rightarrow> u32 \<Rightarrow> u32 \<Rightarrow> align_fun option \<Rightarrow> resource \<Rightarrow> resource list \<Rightarrow> resource" where
  "gap_before root sz mn mx align alignf new this =
     (let fin = (case this of t # _ \<Rightarrow> r_start t - 1 | [] \<Rightarrow> r_end root);
          start = (if r_start new < mn then mn else r_start new);
          fin = (if fin > mx then mx else fin);
          new = with_range (ALIGN start align) fin new
      in case alignf of Some f \<Rightarrow> f new sz align | None \<Rightarrow> new)"

fun find_gap ::
  "resource \<Rightarrow> u32 \<Rightarrow> u32 \<Rightarrow> u32 \<Rightarrow> u32 \<Rightarrow> align_fun option \<Rightarrow> resource \<Rightarrow> resource list \<Rightarrow> unit ret \<times> resource" where
  "find_gap root sz mn mx align alignf new this =
     (let new = gap_before root sz mn mx align alignf new this in
      if r_start new < r_end new \<and> r_end new - r_start new \<ge> sz - 1
      then (Inr (), with_range (r_start new) (r_start new + sz - 1) new)
      else case this of
             [] \<Rightarrow> (Inl EBUSY, new)
           | t # rest \<Rightarrow> find_gap root sz mn mx align alignf (with_range (r_end t + 1) (r_end new) new) rest)"

declare find_gap.simps [simp del]

definition find_resource ::
  "resource \<Rightarrow> resource \<Rightarrow> u32 \<Rightarrow> u32 \<Rightarrow> u32 \<Rightarrow> u32 \<Rightarrow> align_fun option \<Rightarrow> unit ret \<times> resource" where
  "find_resource root new sz mn mx align alignf =
     (let new = with_range (r_start root) (r_end new) new in
      case r_child root of
        t # rest \<Rightarrow>
          if r_start t = 0
          then find_gap root sz mn mx align alignf (with_range (r_end t + 1) (r_end new) new) rest
          else find_gap root sz mn mx align alignf new (t # rest)
      | [] \<Rightarrow> find_gap root sz mn mx align alignf new [])"

text \<open>The result has the tree and the descriptor \<open>new\<close>, which a failed call changes as well.\<close>

definition allocate_resource ::
  "resource \<Rightarrow> resource \<Rightarrow> u32 \<Rightarrow> u32 \<Rightarrow> u32 \<Rightarrow> u32 \<Rightarrow> align_fun option \<Rightarrow> unit ret \<times> resource \<times> resource" where
  "allocate_resource root new sz mn mx align alignf =
     (case find_resource root new sz mn mx align alignf of
        (Inl e, new) \<Rightarrow> (Inl e, root, new)
      | (Inr _, new) \<Rightarrow>
          (case raw_request_resource root new of
             Inl _ \<Rightarrow> (Inl EBUSY, root, new)
           | Inr (_, root') \<Rightarrow> (Inr (), root', new)))"

section \<open>Inserting\<close>

text \<open>
  The scan of the children from the first conflict on: \<open>Inl k\<close> is a partial overlap with the
  \<open>k\<close>-th of them, \<open>Inr k\<close> says that the new resource covers the first \<open>k\<close>.
\<close>

fun adopt_scan :: "resource \<Rightarrow> resource list \<Rightarrow> nat + nat" where
  "adopt_scan new [] = Inr 0"
| "adopt_scan new (nxt # rest) =
     (if r_start nxt < r_start new \<or> r_end nxt > r_end new then Inl 0
      else case rest of
             [] \<Rightarrow> Inr 1
           | sib # _ \<Rightarrow> if r_start sib > r_end new then Inr 1 else map_sum Suc Suc (adopt_scan new rest))"

definition adopt :: "resource \<Rightarrow> resource \<Rightarrow> nat \<Rightarrow> rpath + rpath \<times> resource" where
  "adopt parent new i =
     (let cs = r_child parent in
      case adopt_scan new (drop i cs) of
        Inl k \<Rightarrow> Inl [i + k]
      | Inr k \<Rightarrow> Inr ([i], with_child parent
                         (take i cs @ with_child new (take k (drop i cs)) # drop (i + k) cs)))"

lemma request_slot_bound:
  "request_slot s e cs = Inl i \<Longrightarrow> i < length cs"
  "request_slot s e cs = Inr j \<Longrightarrow> j \<le> length cs"
  by (induction cs arbitrary: i j) (auto split: if_splits sum.splits simp: map_sum_def)

lemma child_size: "i < length (r_child r) \<Longrightarrow> size (r_child r ! i) < size r"
  by (cases r) (auto simp: less_Suc_eq_le intro!: trans_le_add1 size_list_estimation' [OF nth_mem])

lemma conflict_child:
  "raw_request_resource root new = Inl (i # p) \<Longrightarrow> i < length (r_child root) \<and> p = []"
  by (auto simp: raw_request_resource_def request_slot_bound split: if_splits sum.splits)

function raw_insert_resource :: "resource \<Rightarrow> resource \<Rightarrow> rpath + rpath \<times> resource" where
  "raw_insert_resource parent new =
     (case raw_request_resource parent new of
        Inr done \<Rightarrow> Inr done
      | Inl [] \<Rightarrow> Inl []
      | Inl (i # _) \<Rightarrow>
          (let first = r_child parent ! i in
           if r_start first > r_start new \<or> r_end first < r_end new then adopt parent new i
           else if r_start first = r_start new \<and> r_end first = r_end new then adopt parent new i
           else (case raw_insert_resource first new of
                   Inl q \<Rightarrow> Inl (i # q)
                 | Inr (q, first') \<Rightarrow> Inr (i # q, with_child parent ((r_child parent)[i := first'])))))"
  by pat_completeness auto
termination
  by (relation "measure (\<lambda>(parent, _). size parent)") (auto dest!: conflict_child child_size)

declare raw_insert_resource.simps [simp del]

definition insert_resource :: "resource \<Rightarrow> resource \<Rightarrow> unit ret \<times> resource" where
  "insert_resource parent new =
     (case raw_insert_resource parent new of
        Inl _ \<Rightarrow> (Inl EBUSY, parent)
      | Inr (_, parent') \<Rightarrow> (Inr (), parent'))"

lemma adopt_scan_partial:
  "adopt_scan new cs = Inl k \<Longrightarrow>
     k < length cs \<and> (r_start (cs ! k) < r_start new \<or> r_end (cs ! k) > r_end new)"
proof (induction cs arbitrary: k)
  case (Cons c cs)
  show ?case
  proof (cases "r_start c < r_start new \<or> r_end c > r_end new")
    case False
    then obtain j where "adopt_scan new cs = Inl j" "k = Suc j"
      using Cons.prems by (cases cs; cases "adopt_scan new cs") (auto split: if_splits)
    then show ?thesis using Cons.IH by auto
  qed (use Cons.prems in auto)
qed simp

lemma no_root_conflict:
  "raw_request_resource root new = Inl [] \<longleftrightarrow>
     r_end new < r_start new \<or> r_start new < r_start root \<or> r_end new > r_end root"
  by (auto simp: raw_request_resource_def split: sum.splits)

lemma insert_conflict:
  "raw_insert_resource root new = Inl q \<Longrightarrow> q \<noteq> [] \<Longrightarrow>
     \<exists>c. node_at root q = Some c \<and> r_start new \<le> r_end new \<and> (r_start c < r_start new \<or> r_end c > r_end new)"
proof (induction root new arbitrary: q rule: raw_insert_resource.induct)
  case (1 parent new)
  obtain i p where r: "raw_request_resource parent new = Inl (i # p)"
    using "1.prems" by (subst (asm) raw_insert_resource.simps) (auto split: sum.splits list.splits)
  have i: "i < length (r_child parent)" using conflict_child [OF r] by simp
  have ok: "r_start new \<le> r_end new" using r by (auto simp: raw_request_resource_def split: if_splits)
  define first where "first = r_child parent ! i"
  consider "r_start first > r_start new \<or> r_end first < r_end new \<or> r_start first = r_start new \<and> r_end first = r_end new"
    | "r_start first \<le> r_start new" "r_end new \<le> r_end first" "\<not> (r_start first = r_start new \<and> r_end first = r_end new)"
    by fastforce
  then show ?case
  proof cases
    case 1
    then have "adopt parent new i = Inl q"
      using "1.prems"(1) r by (subst (asm) raw_insert_resource.simps) (auto simp: first_def Let_def)
    then obtain k where k: "adopt_scan new (drop i (r_child parent)) = Inl k" "q = [i + k]"
      by (auto simp: adopt_def Let_def split: sum.splits)
    then show ?thesis using adopt_scan_partial [OF k(1)] i ok by auto
  next
    case 2
    have h: "\<not> (r_start first > r_start new \<or> r_end first < r_end new)" using 2 by auto
    obtain q' where q: "raw_insert_resource first new = Inl q'" "q = i # q'"
      using "1.prems"(1) r h 2(3) by (subst (asm) raw_insert_resource.simps) (auto simp: first_def [symmetric] split: sum.splits)
    have "raw_request_resource first new \<noteq> Inl []" using h ok by (auto simp: no_root_conflict)
    then have "q' \<noteq> []" using q(1)
      by (subst (asm) raw_insert_resource.simps) (auto simp: adopt_def Let_def split: sum.splits list.splits if_splits)
    from "1.IH" [OF r _ first_def h 2(3) q(1) this] q(2) i show ?thesis by (auto simp: first_def)
  qed
qed

text \<open>The flag says that the descriptor is in a tree already; the result has the tree and the descriptor.\<close>

function expand_to_fit :: "resource \<Rightarrow> resource \<Rightarrow> resource \<times> resource" where
  "expand_to_fit root new =
     (case raw_insert_resource root new of
        Inr (q, root') \<Rightarrow> (root', the (node_at root' q))
      | Inl q \<Rightarrow>
          if q = [] then (root, new)
          else (let conflict = the (node_at root q);
                    start = (if r_start conflict < r_start new then r_start conflict else r_start new);
                    fin = (if r_end conflict > r_end new then r_end conflict else r_end new)
                in expand_to_fit root (with_range start fin new)))"
  by pat_completeness auto
termination
proof (relation "measure (\<lambda>(_, new). unat (r_start new) + (2 ^ 32 - unat (r_end new)))", goal_cases)
  case (2 root new q conflict start fin)
  then obtain c where c: "node_at root q = Some c" "r_start c < r_start new \<or> r_end c > r_end new"
    using insert_conflict by blast
  have "unat start \<le> unat (r_start new)" "unat (r_end new) \<le> unat fin"
       "unat start < unat (r_start new) \<or> unat (r_end new) < unat fin"
    using 2(3-5) c by (auto simp: word_less_nat_alt)
  moreover have "unat fin < 2 ^ 32" using unsigned_less [of fin] by simp
  ultimately show ?case by (auto simp: with_range_def)
qed simp

declare expand_to_fit.simps [simp del]

definition insert_resource_expand_to_fit :: "resource \<Rightarrow> bool \<Rightarrow> resource \<Rightarrow> resource \<times> resource" where
  "insert_resource_expand_to_fit root in_tree new = (if in_tree then (root, new) else expand_to_fit root new)"

section \<open>Adjusting and splitting\<close>

text \<open>The tests of \<open>adjust_resource\<close>, for child \<open>i\<close> of \<open>parent\<close>.\<close>

definition adjust_fits :: "resource \<Rightarrow> nat \<Rightarrow> u32 \<Rightarrow> u32 \<Rightarrow> bool" where
  "adjust_fits parent i start fin \<longleftrightarrow>
     (let cs = r_child parent in
      \<not> (start < r_start parent \<or> fin > r_end parent) \<and>
      list_all (\<lambda>tmp. \<not> (r_start tmp < start \<or> r_end tmp > fin)) (r_child (cs ! i)) \<and>
      \<not> (Suc i < length cs \<and> r_start (cs ! Suc i) \<le> fin) \<and>
      \<not> (i \<noteq> 0 \<and> start \<le> r_end (cs ! (i - 1))))"

definition adjust_resource :: "resource \<Rightarrow> rpath \<Rightarrow> u32 \<Rightarrow> u32 \<Rightarrow> (unit ret \<times> resource) option" where
  "adjust_resource root res start sz =
     (if res = [] then None
      else do {
        parent \<leftarrow> node_at root (butlast res);
        _ \<leftarrow> node_at root res;
        Some (let fin = start + sz - 1 in
              if adjust_fits parent (last res) start fin
              then (Inr (), update_at res (with_range start fin) root)
              else (Inl EBUSY, root))
      })"

text \<open>
  The argument \<open>alloc\<close> gives the outcome of each allocation, in order; the number counts them.
\<close>

partial_function (option) raw_reserve_region_with_split ::
  "(nat \<Rightarrow> bool) \<Rightarrow> resource \<Rightarrow> u32 \<Rightarrow> u32 \<Rightarrow> string \<Rightarrow> nat \<Rightarrow> (resource \<times> nat) option" where
  "raw_reserve_region_with_split alloc root start fin name n =
     (if \<not> alloc n then Some (root, Suc n)
      else case raw_request_resource root (Resource start fin name IORESOURCE_BUSY []) of
             Inr (_, root') \<Rightarrow> Some (root', Suc n)
           | Inl q \<Rightarrow> do {
               conflict \<leftarrow> node_at root q;
               if r_start conflict \<le> start \<and> r_end conflict \<ge> fin then Some (root, Suc n)
               else do {
                 (root1, n1) \<leftarrow> (if r_start conflict > start
                   then raw_reserve_region_with_split alloc root start (r_start conflict - 1) name (Suc n)
                   else Some (root, Suc n));
                 if r_end conflict < fin
                 then raw_reserve_region_with_split alloc root1 (r_end conflict + 1) fin name n1
                 else Some (root1, n1)
               }
             })"

definition reserve_region_with_split ::
  "(nat \<Rightarrow> bool) \<Rightarrow> resource \<Rightarrow> u32 \<Rightarrow> u32 \<Rightarrow> string \<Rightarrow> resource option" where
  "reserve_region_with_split alloc root start fin name =
     map_option fst (raw_reserve_region_with_split alloc root start fin name 0)"

definition resource_size :: "resource \<Rightarrow> u32" where
  "resource_size r = r_end r - r_start r + 1"

definition resource_alignment :: "resource \<Rightarrow> u32" where
  "resource_alignment r =
     (let f = r_flags r AND (IORESOURCE_SIZEALIGN OR IORESOURCE_STARTALIGN) in
      if f = IORESOURCE_SIZEALIGN then resource_size r
      else if f = IORESOURCE_STARTALIGN then r_start r
      else 0)"

section \<open>Regions\<close>

function region_loop :: "resource \<Rightarrow> resource \<Rightarrow> (rpath \<times> resource) option" where
  "region_loop parent res =
     (case raw_request_resource parent res of
        Inr done \<Rightarrow> Some done
      | Inl [] \<Rightarrow> None
      | Inl (i # _) \<Rightarrow>
          (let conflict = r_child parent ! i in
           if \<not> is_busy conflict
           then map_option (\<lambda>(q, c). (i # q, with_child parent ((r_child parent)[i := c]))) (region_loop conflict res)
           else None))"
  by pat_completeness auto
termination
  by (relation "measure (\<lambda>(parent, _). size parent)") (auto dest!: conflict_child child_size)

declare region_loop.simps [simp del]

text \<open>The result is the new region and the new tree; \<open>None\<close> is the NULL pointer.\<close>

definition request_region ::
  "bool \<Rightarrow> resource \<Rightarrow> u32 \<Rightarrow> u32 \<Rightarrow> string \<Rightarrow> u32 \<Rightarrow> (rpath \<times> resource) option" where
  "request_region alloc parent start n name flags =
     (if \<not> alloc then None
      else region_loop parent (Resource start (start + n - 1) name (IORESOURCE_BUSY OR flags) []))"

definition check_region :: "bool \<Rightarrow> resource \<Rightarrow> u32 \<Rightarrow> u32 \<Rightarrow> (unit ret \<times> resource) option" where
  "check_region alloc parent start n =
     (case request_region alloc parent start n ''check-region'' 0 of
        None \<Rightarrow> Some (Inl EBUSY, parent)
      | Some (res, parent') \<Rightarrow> do {
          (_, parent'') \<leftarrow> release_resource parent' res;
          Some (Inr (), parent'')
        })"

lemma children_size [termination_simp]: "size_list size (r_child r) < Suc (size r + n)"
  by (cases r) simp

text \<open>\<open>None\<close> stands for the exit with the warning, which leaves the tree alone.\<close>

fun release_in :: "u32 \<Rightarrow> u32 \<Rightarrow> resource list \<Rightarrow> resource list option" where
  "release_in start fin [] = None"
| "release_in start fin (res # rest) =
     (if r_start res \<le> start \<and> r_end res \<ge> fin
      then if \<not> is_busy res
           then map_option (\<lambda>cs. with_child res cs # rest) (release_in start fin (r_child res))
           else if r_start res \<noteq> start \<or> r_end res \<noteq> fin then None
           else Some rest
      else map_option ((#) res) (release_in start fin rest))"

definition release_region :: "resource \<Rightarrow> u32 \<Rightarrow> u32 \<Rightarrow> resource" where
  "release_region parent start n =
     (case release_in start (start + n - 1) (r_child parent) of
        Some cs \<Rightarrow> with_child parent cs
      | None \<Rightarrow> parent)"

section \<open>Walking the tree\<close>

text \<open>The way up from a resource without children, to the next sibling.\<close>

function next_up :: "resource \<Rightarrow> rpath \<Rightarrow> rpath option" where
  "next_up root p =
     (if p = [] then None
      else case node_at root (butlast p) of
             None \<Rightarrow> None
           | Some parent \<Rightarrow>
               if Suc (last p) < length (r_child parent) then Some (butlast p @ [Suc (last p)])
               else next_up root (butlast p))"
  by pat_completeness auto
termination
  by (relation "measure (\<lambda>(_, p). length p)") auto

declare next_up.simps [simp del]

definition r_next :: "resource \<Rightarrow> rpath \<Rightarrow> rpath option" where
  "r_next root p =
     (case node_at root p of
        None \<Rightarrow> None
      | Some r \<Rightarrow> if r_child r \<noteq> [] then Some (p @ [0]) else next_up root p)"

definition first_child :: "resource \<Rightarrow> rpath option" where
  "first_child root = (if r_child root \<noteq> [] then Some [0] else None)"

text \<open>The position of \<open>/proc/iomem\<close> and \<open>/proc/ioports\<close>: \<open>pos\<close> steps from the first child.\<close>

fun r_start_loop :: "resource \<Rightarrow> rpath option \<Rightarrow> nat \<Rightarrow> rpath option" where
  "r_start_loop root None pos = None"
| "r_start_loop root (Some p) 0 = Some p"
| "r_start_loop root (Some p) (Suc pos) = r_start_loop root (r_next root p) pos"

definition r_seq_start :: "resource \<Rightarrow> nat \<Rightarrow> rpath option" where
  "r_seq_start root pos = r_start_loop root (first_child root) pos"

text \<open>
  The loops over a whole tree: \<open>body\<close> gives the value with which the loop ends at a resource, or
  \<open>None\<close> to go on. The inner option of the result is that value.
\<close>

partial_function (option) resource_scan ::
  "resource \<Rightarrow> (resource \<Rightarrow> 'v option) \<Rightarrow> rpath option \<Rightarrow> 'v option option" where
  "resource_scan root body p =
     (case p of
        None \<Rightarrow> Some None
      | Some q \<Rightarrow> do {
          r \<leftarrow> node_at root q;
          case body r of
            Some v \<Rightarrow> Some (Some v)
          | None \<Rightarrow> resource_scan root body (r_next root q)
        })"

definition PFN_DOWN :: "u32 \<Rightarrow> u32" where
  "PFN_DOWN x = drop_bit 12 x"

definition map_check :: "u32 \<Rightarrow> u32 \<Rightarrow> resource \<Rightarrow> int option" where
  "map_check addr sz p =
     (if r_start p \<ge> addr + sz then None
      else if r_end p < addr then None
      else if PFN_DOWN (r_start p) \<le> PFN_DOWN addr \<and> PFN_DOWN (r_end p) \<ge> PFN_DOWN (addr + sz - 1) then None
      else if is_busy p then None
      else Some (- 1))"

definition iomem_map_sanity_check :: "resource \<Rightarrow> u32 \<Rightarrow> u32 \<Rightarrow> int option" where
  "iomem_map_sanity_check iomem addr sz =
     map_option (\<lambda>r. case r of Some v \<Rightarrow> v | None \<Rightarrow> 0) (resource_scan iomem (map_check addr sz) (first_child iomem))"

text \<open>Addresses have 64 bits here; \<open>PAGE_MASK\<close> has 32, so the upper half is cut off.\<close>

definition exclusive_check :: "64 word \<Rightarrow> resource \<Rightarrow> int option" where
  "exclusive_check addr p =
     (if ucast (r_start p) \<ge> addr + 0x1000 then Some 0
      else if ucast (r_end p) < addr then None
      else if is_busy p \<and> r_flags p AND IORESOURCE_EXCLUSIVE \<noteq> 0 then Some 1
      else None)"

definition iomem_is_exclusive :: "bool \<Rightarrow> resource \<Rightarrow> 64 word \<Rightarrow> int option" where
  "iomem_is_exclusive strict iomem addr =
     (if \<not> strict then Some 0
      else map_option (\<lambda>r. case r of Some v \<Rightarrow> v | None \<Rightarrow> 0)
             (resource_scan iomem (exclusive_check (addr AND 0xFFFFF000)) (first_child iomem)))"

section \<open>System memory\<close>

fun next_ram :: "u32 \<Rightarrow> u32 \<Rightarrow> u32 \<Rightarrow> string \<Rightarrow> resource list \<Rightarrow> resource option" where
  "next_ram flags start fin name [] = None"
| "next_ram flags start fin name (p # rest) =
     (if r_flags p \<noteq> flags then next_ram flags start fin name rest
      else if r_name p \<noteq> name then next_ram flags start fin name rest
      else if r_start p > fin then None
      else if r_end p \<ge> start \<and> r_start p < fin then Some p
      else next_ram flags start fin name rest)"

text \<open>The range \<open>res\<close> as a pair; the outer \<open>None\<close> stands for the BUG_ON. The value -1 is \<open>-EPERM\<close>.\<close>

definition find_next_system_ram :: "resource \<Rightarrow> u32 \<Rightarrow> u32 \<times> u32 \<Rightarrow> string \<Rightarrow> (u32 \<times> u32) ret option" where
  "find_next_system_ram iomem flags res name =
     (if fst res \<ge> snd res then None
      else Some (case next_ram flags (fst res) (snd res) name (r_child iomem) of
                   None \<Rightarrow> Inl EPERM
                 | Some p \<Rightarrow> Inr (if fst res < r_start p then r_start p else fst res,
                                 if snd res > r_end p then r_end p else snd res)))"

text \<open>The callback works on a state of its caller and returns an error code.\<close>

partial_function (option) ram_loop ::
  "resource \<Rightarrow> (u32 \<Rightarrow> u32 \<Rightarrow> 's \<Rightarrow> int \<times> 's) \<Rightarrow> u32 \<Rightarrow> u32 \<times> u32 \<Rightarrow> int \<Rightarrow> 's \<Rightarrow> (int \<times> 's) option" where
  "ram_loop iomem func orig_end res ret s =
     (if fst res < snd res
      then do {
        found \<leftarrow> find_next_system_ram iomem (IORESOURCE_MEM OR IORESOURCE_BUSY) res ''System RAM'';
        case found of
          Inl _ \<Rightarrow> Some (ret, s)
        | Inr r \<Rightarrow>
            (case func (drop_bit 12 (fst r)) (drop_bit 12 (snd r + 1 - fst r)) s of
               (ret', s') \<Rightarrow>
                 if ret' \<noteq> 0 then Some (ret', s')
                 else ram_loop iomem func orig_end (snd r + 1, orig_end) ret' s')
      }
      else Some (ret, s))"

definition walk_system_ram_range ::
  "resource \<Rightarrow> u32 \<Rightarrow> u32 \<Rightarrow> (u32 \<Rightarrow> u32 \<Rightarrow> 's \<Rightarrow> int \<times> 's) \<Rightarrow> 's \<Rightarrow> (int \<times> 's) option" where
  "walk_system_ram_range iomem start_pfn nr_pages func s =
     (let start = ucast (push_bit 12 (ucast start_pfn :: 64 word));
          fin = ucast (push_bit 12 (ucast (start_pfn + nr_pages) :: 64 word) - 1)
      in ram_loop iomem func fin (start, fin) (- 1) s)"

end
