(* ===== verification/Resource_Claims.thy ===== *)
theory Resource_Claims
  imports Resource_Tree
begin

text \<open>
  What requests, regions and insertions do to a well-formed tree of resources. The measure of a
  tree is the multiset of its headers (range, name and flags of every resource); an operation is
  described by the condition under which it succeeds, in terms of the resources its range meets,
  and by what it does to the headers.
\<close>

section \<open>Well-formed trees\<close>

text \<open>
  Every resource has a non-empty range, its children lie inside it, and they are sorted by address
  and do not overlap.
\<close>

definition siblings_ok :: "resource list \<Rightarrow> bool" where
  "siblings_ok cs \<longleftrightarrow> sorted_wrt (\<lambda>x y. r_end x < r_start y) cs"

fun resource_ok :: "resource \<Rightarrow> bool" where
  "resource_ok (Resource s e n f cs) \<longleftrightarrow>
     s \<le> e \<and> siblings_ok cs \<and> (\<forall>c \<in> set cs. s \<le> r_start c \<and> r_end c \<le> e \<and> resource_ok c)"

text \<open>The resources below a resource, in the order of \<open>/proc/iomem\<close>.\<close>

fun descs :: "resource \<Rightarrow> resource list" where
  "descs (Resource s e n f cs) = concat (map (\<lambda>c. c # descs c) cs)"

definition meets :: "u32 \<Rightarrow> u32 \<Rightarrow> resource \<Rightarrow> bool" where
  "meets s e r \<longleftrightarrow> r_start r \<le> e \<and> s \<le> r_end r"

definition encloses :: "u32 \<Rightarrow> u32 \<Rightarrow> resource \<Rightarrow> bool" where
  "encloses s e r \<longleftrightarrow> r_start r \<le> s \<and> e \<le> r_end r"

definition inside :: "u32 \<Rightarrow> u32 \<Rightarrow> resource \<Rightarrow> bool" where
  "inside s e r \<longleftrightarrow> s \<le> r_start r \<and> r_end r \<le> e"

text \<open>A resource without its place in the tree, and all those of a tree.\<close>

definition header :: "resource \<Rightarrow> u32 \<times> u32 \<times> string \<times> u32" where
  "header r = (r_start r, r_end r, r_name r, r_flags r)"

definition headers :: "resource \<Rightarrow> (u32 \<times> u32 \<times> string \<times> u32) multiset" where
  "headers r = image_mset header (mset (descs r))"

definition forest_headers :: "resource list \<Rightarrow> (u32 \<times> u32 \<times> string \<times> u32) multiset" where
  "forest_headers cs = (\<Sum>c\<leftarrow>cs. add_mset (header c) (headers c))"

lemma resource_ok_iff:
  "resource_ok r \<longleftrightarrow> r_start r \<le> r_end r \<and> siblings_ok (r_child r) \<and>
     (\<forall>c \<in> set (r_child r). inside (r_start r) (r_end r) c \<and> resource_ok c)"
  by (cases r) (auto simp: inside_def)

lemma descs_child: "descs r = concat (map (\<lambda>c. c # descs c) (r_child r))"
  by (cases r) simp

lemma with_child_simps [simp]:
  "r_start (with_child r cs) = r_start r" "r_end (with_child r cs) = r_end r" "r_name (with_child r cs) = r_name r"
  "r_flags (with_child r cs) = r_flags r" "r_child (with_child r cs) = cs" "header (with_child r cs) = header r"
  "is_busy (with_child r cs) = is_busy r" "meets s e (with_child r cs) = meets s e r"
  "encloses s e (with_child r cs) = encloses s e r" "inside s e (with_child r cs) = inside s e r"
  "with_child (with_child r cs) ds = with_child r ds" "with_child r (r_child r) = r"
  by (simp_all add: with_child_def header_def is_busy_def meets_def encloses_def inside_def)

lemma with_range_simps [simp]:
  "r_start (with_range s e r) = s" "r_end (with_range s e r) = e" "r_name (with_range s e r) = r_name r"
  "r_flags (with_range s e r) = r_flags r" "r_child (with_range s e r) = r_child r"
  "with_range s e (with_range s' e' r) = with_range s e r" "is_busy (with_range s e r) = is_busy r"
  by (simp_all add: with_range_def is_busy_def)

lemma forest_headers_simps [simp]:
  "forest_headers [] = {#}" "forest_headers (c # cs) = add_mset (header c) (headers c) + forest_headers cs"
  "forest_headers (cs @ ds) = forest_headers cs + forest_headers ds"
  by (simp_all add: forest_headers_def)

lemma headers_child: "headers r = forest_headers (r_child r)"
proof -
  have "image_mset header (mset (concat (map (\<lambda>c. c # descs c) cs))) = forest_headers cs" for cs
    by (induction cs) (simp_all add: headers_def)
  then show ?thesis by (simp add: headers_def descs_child [of r])
qed

lemma siblings_ok_append:
  "siblings_ok (cs @ ds) \<longleftrightarrow> siblings_ok cs \<and> siblings_ok ds \<and> (\<forall>c \<in> set cs. \<forall>d \<in> set ds. r_end c < r_start d)"
  by (simp add: siblings_ok_def sorted_wrt_append)

lemma siblings_ok_Cons:
  "siblings_ok (c # ds) \<longleftrightarrow> siblings_ok ds \<and> (\<forall>d \<in> set ds. r_end c < r_start d)"
  by (auto simp: siblings_ok_def)

lemma siblings_ok_Nil [simp]: "siblings_ok []" by (simp add: siblings_ok_def)

lemma desc_cases:
  "d \<in> set (descs r) \<longleftrightarrow> (\<exists>c \<in> set (r_child r). d = c \<or> d \<in> set (descs c))"
  by (subst descs_child) auto

lemma desc_ok:
  assumes "resource_ok r" "d \<in> set (descs r)"
  shows "resource_ok d \<and> inside (r_start r) (r_end r) d"
  using assms
proof (induction r rule: resource_ok.induct)
  case (1 s e n f cs)
  then obtain c where c: "c \<in> set cs" "d = c \<or> d \<in> set (descs c)" by (auto simp del: resource_ok.simps)
  have o: "resource_ok c" "inside s e c" using "1.prems"(1) c(1) by (auto simp: inside_def)
  show ?case using c(2)
  proof
    assume "d \<in> set (descs c)"
    from "1.IH" [OF c(1) o(1) this] o(2) show ?thesis by (auto simp: inside_def)
  qed (use o in simp)
qed

lemma ok_range: "resource_ok r \<Longrightarrow> r_start r \<le> r_end r"
  by (cases r) simp

section \<open>The place of a request among the children\<close>

lemma slot_conflict:
  assumes "request_slot s e cs = Inl i"
  obtains as c bs where "cs = as @ c # bs" "i = length as" "\<forall>a \<in> set as. r_end a < s" "meets s e c"
  using assms
proof (induction cs arbitrary: i thesis)
  case (Cons c cs)
  show ?case
  proof (cases "e < r_start c")
    case False
    show ?thesis
    proof (cases "r_end c < s")
      case True
      then obtain j where j: "request_slot s e cs = Inl j" "i = Suc j"
        using Cons.prems(2) False by (cases "request_slot s e cs") auto
      show ?thesis
      proof (rule Cons.IH [OF _ j(1)])
        fix as d bs assume a: "cs = as @ d # bs" "j = length as" "\<forall>a \<in> set as. r_end a < s" "meets s e d"
        show thesis using Cons.prems(1) [of "c # as" d bs] a j(2) True by simp
      qed
    next
      case F: False
      then have "meets s e c" "i = 0" using Cons.prems(2) False by (auto simp: meets_def)
      then show ?thesis using Cons.prems(1) [of "[]" c cs] by simp
    qed
  qed (use Cons.prems in simp)
qed simp

lemma slot_free:
  assumes "request_slot s e cs = Inr i" "siblings_ok cs" "\<forall>c \<in> set cs. r_start c \<le> r_end c"
  obtains as bs where "cs = as @ bs" "i = length as" "\<forall>a \<in> set as. r_end a < s" "\<forall>b \<in> set bs. e < r_start b"
  using assms
proof (induction cs arbitrary: i thesis)
  case Nil
  then show ?case by (metis append_Nil empty_iff list.set(1) list.size(3) request_slot.simps(1) sum.inject(2))
next
  case (Cons c cs)
  show ?case
  proof (cases "e < r_start c")
    case True
    have "\<forall>b \<in> set (c # cs). e < r_start b"
    proof
      fix b assume b: "b \<in> set (c # cs)"
      show "e < r_start b"
      proof (cases "b = c")
        case False
        then have "r_end c < r_start b" using b Cons.prems(3) by (auto simp: siblings_ok_Cons)
        moreover have "r_start c \<le> r_end c" using Cons.prems(4) by simp
        ultimately show ?thesis using True by simp
      qed (use True in simp)
    qed
    then show ?thesis using Cons.prems(1) [of "[]" "c # cs"] Cons.prems(2) True by simp
  next
    case F: False
    then have lt: "r_end c < s" using Cons.prems(2) by (auto split: if_splits)
    then obtain j where j: "request_slot s e cs = Inr j" "i = Suc j"
      using Cons.prems(2) F by (cases "request_slot s e cs") auto
    show ?thesis
    proof (rule Cons.IH [OF _ j(1)])
      fix as bs assume a: "cs = as @ bs" "j = length as" "\<forall>a \<in> set as. r_end a < s" "\<forall>b \<in> set bs. e < r_start b"
      show thesis using Cons.prems(1) [of "c # as" bs] a j(2) lt by simp
    qed (use Cons.prems in \<open>auto simp: siblings_ok_Cons\<close>)
  qed
qed

lemma resource_ok_with_child:
  "resource_ok (with_child r cs) \<longleftrightarrow>
     r_start r \<le> r_end r \<and> siblings_ok cs \<and> (\<forall>c \<in> set cs. inside (r_start r) (r_end r) c \<and> resource_ok c)"
  using resource_ok_iff [of "with_child r cs"] by simp

lemma ok_children:
  assumes "resource_ok r"
  shows "siblings_ok (r_child r)" "\<forall>c \<in> set (r_child r). inside (r_start r) (r_end r) c \<and> resource_ok c"
    "\<forall>c \<in> set (r_child r). r_start c \<le> r_end c"
  using assms resource_ok_iff [of r] ok_range by auto

lemma request_cases:
  assumes "resource_ok root"
  obtains (bad) "raw_request_resource root new = Inl []"
      "\<not> (r_start new \<le> r_end new \<and> encloses (r_start new) (r_end new) root)"
  | (conflict) as c bs where "r_child root = as @ c # bs" "raw_request_resource root new = Inl [length as]"
      "r_start new \<le> r_end new" "encloses (r_start new) (r_end new) root"
      "\<forall>a \<in> set as. r_end a < r_start new" "meets (r_start new) (r_end new) c"
  | (free) as bs where "r_child root = as @ bs"
      "raw_request_resource root new = Inr ([length as], with_child root (as @ new # bs))"
      "r_start new \<le> r_end new" "encloses (r_start new) (r_end new) root"
      "\<forall>a \<in> set as. r_end a < r_start new" "\<forall>b \<in> set bs. r_end new < r_start b"
proof -
  note ok = ok_children [OF assms]
  show thesis
  proof (cases "r_start new \<le> r_end new \<and> encloses (r_start new) (r_end new) root")
    case False
    then have "raw_request_resource root new = Inl []" by (auto simp: no_root_conflict encloses_def not_le)
    then show thesis using bad False by blast
  next
    case True
    then have in_range: "raw_request_resource root new =
      (case request_slot (r_start new) (r_end new) (r_child root) of
         Inl i \<Rightarrow> Inl [i]
       | Inr i \<Rightarrow> Inr ([i], with_child root (take i (r_child root) @ new # drop i (r_child root))))"
      by (auto simp: raw_request_resource_def encloses_def)
    show thesis
    proof (cases "request_slot (r_start new) (r_end new) (r_child root)")
      case (Inl i)
      from slot_conflict [OF this] obtain as c bs where "r_child root = as @ c # bs" "i = length as"
        "\<forall>a \<in> set as. r_end a < r_start new" "meets (r_start new) (r_end new) c" by blast
      then show thesis using conflict [of as c bs] True in_range Inl by simp
    next
      case (Inr i)
      from slot_free [OF this ok(1,3)] obtain as bs where "r_child root = as @ bs" "i = length as"
        "\<forall>a \<in> set as. r_end a < r_start new" "\<forall>b \<in> set bs. r_end new < r_start b" by blast
      then show thesis using free [of as bs] True in_range Inr by simp
    qed
  qed
qed

lemma before_not_meets: "r_end a < s \<Longrightarrow> \<not> meets s e a" and after_not_meets: "e < r_start b \<Longrightarrow> \<not> meets s e b"
  by (auto simp: meets_def)

lemma meets_desc:
  assumes "resource_ok c" "d \<in> set (descs c)" "meets s e d"
  shows "meets s e c"
  using desc_ok [OF assms(1,2)] assms(3) by (auto simp: meets_def inside_def)

lemma meets_below:
  assumes "resource_ok root" "d \<in> set (descs root)" "meets s e d"
  obtains c where "c \<in> set (r_child root)" "meets s e c" "d = c \<or> d \<in> set (descs c)"
proof -
  obtain c where c: "c \<in> set (r_child root)" "d = c \<or> d \<in> set (descs c)"
    using assms(2) by (subst (asm) desc_cases) auto
  then have "meets s e c" using meets_desc [of c d s e] ok_children(2) [OF assms(1)] assms(3) by blast
  then show thesis using that c by blast
qed

text \<open>The resources that meet a range enclosed by one child are that child and some below it.\<close>

lemma enclosed_meets:
  assumes ok: "resource_ok root" and cs: "r_child root = as @ c # bs" and enc: "encloses s e c" "s \<le> e"
  shows "d \<in> set (descs root) \<and> meets s e d \<longleftrightarrow> d = c \<or> d \<in> set (descs c) \<and> meets s e d"
proof
  assume d: "d \<in> set (descs root) \<and> meets s e d"
  then obtain x where x: "x \<in> set (r_child root)" "meets s e x" "d = x \<or> d \<in> set (descs x)"
    using meets_below [OF ok] by blast
  have "x = c"
    using x(1,2) ok_children(1) [OF ok] enc by (auto simp: cs siblings_ok_append siblings_ok_Cons meets_def encloses_def)
  then show "d = c \<or> d \<in> set (descs c) \<and> meets s e d" using x(3) d by blast
next
  assume d: "d = c \<or> d \<in> set (descs c) \<and> meets s e d"
  have "meets s e c" using enc by (auto simp: meets_def encloses_def)
  then show "d \<in> set (descs root) \<and> meets s e d" using d desc_cases [of d root] by (auto simp: cs)
qed

lemma region_loop_exact:
  assumes "resource_ok parent"
  shows "region_loop parent res \<noteq> None \<longleftrightarrow>
    r_start res \<le> r_end res \<and> encloses (r_start res) (r_end res) parent \<and>
    (\<forall>d \<in> set (descs parent). meets (r_start res) (r_end res) d \<longrightarrow> \<not> is_busy d \<and> encloses (r_start res) (r_end res) d)"
  using assms
proof (induction parent res rule: region_loop.induct)
  case (1 parent res)
  let ?s = "r_start res" and ?e = "r_end res"
  show ?case
  proof (cases rule: request_cases [OF "1.prems", of res, case_names bad conflict free])
    case bad
    then show ?thesis by (subst region_loop.simps) auto
  next
    case (free as bs)
    have "\<not> meets ?s ?e c" if "c \<in> set (r_child parent)" for c
      using that free(1,5,6) by (auto simp: before_not_meets after_not_meets)
    then have "\<not> meets ?s ?e d" if "d \<in> set (descs parent)" for d
      using meets_below [OF "1.prems" that] by blast
    then show ?thesis using free(2-4) by (subst region_loop.simps) auto
  next
    case (conflict as c bs)
    have c: "r_child parent ! length as = c" using conflict(1) by simp
    have okc: "resource_ok c" "c \<in> set (descs parent)"
      using ok_children [OF "1.prems"] conflict(1) desc_cases [of c parent] by auto
    have u: "region_loop parent res \<noteq> None \<longleftrightarrow> \<not> is_busy c \<and> region_loop c res \<noteq> None"
      using conflict(2) c by (subst region_loop.simps) simp
    have IH: "region_loop c res \<noteq> None \<longleftrightarrow> ?s \<le> ?e \<and> encloses ?s ?e c \<and>
        (\<forall>d \<in> set (descs c). meets ?s ?e d \<longrightarrow> \<not> is_busy d \<and> encloses ?s ?e d)" if "\<not> is_busy c"
      using "1.IH" [OF conflict(2) refl c [symmetric] that okc(1)] .
    show ?thesis
    proof (cases "is_busy c \<or> \<not> encloses ?s ?e c")
      case True
      then show ?thesis using u IH okc(2) conflict(6) by blast
    next
      case False
      have m: "d \<in> set (descs parent) \<and> meets ?s ?e d \<longleftrightarrow> d = c \<or> d \<in> set (descs c) \<and> meets ?s ?e d" for d
        using enclosed_meets [OF "1.prems" conflict(1) _ conflict(3)] False by blast
      have "(\<forall>d \<in> set (descs parent). meets ?s ?e d \<longrightarrow> \<not> is_busy d \<and> encloses ?s ?e d) \<longleftrightarrow>
          (\<forall>d \<in> set (descs c). meets ?s ?e d \<longrightarrow> \<not> is_busy d \<and> encloses ?s ?e d)"
        using m False by metis
      then show ?thesis using u IH False conflict(3,4) by blast
    qed
  qed
qed

section \<open>Writing through a path\<close>

lemma unlink_child_eq: "unlink_child i cs = (if i < length cs then Some (take i cs @ drop (Suc i) cs) else None)"
  by (induction i cs rule: unlink_child.induct) auto

lemma unlink_inserted: "unlink_child (length as) (as @ c # bs) = Some (as @ bs)"
  by (simp add: unlink_child_eq)

lemma release_below:
  assumes "i < length cs" "q \<noteq> []" "raw_release_resource c q = Some (r, c')"
  shows "raw_release_resource (with_child parent (cs[i := c])) (i # q) = Some (r, with_child parent (cs[i := c']))"
  using assms by (auto simp: raw_release_resource_def split: option.splits bind_splits)

text \<open>Replacing one child of a well-formed resource by another one with the same range.\<close>

lemma ok_replace_child:
  assumes ok: "resource_ok parent" and cs: "r_child parent = as @ c # bs"
    and c': "resource_ok c'" "r_start c' = r_start c" "r_end c' = r_end c"
  shows "resource_ok (with_child parent (as @ c' # bs))"
  using ok c' resource_ok_iff [of parent] cs
  by (auto simp: resource_ok_with_child siblings_ok_append siblings_ok_Cons inside_def)

lemma ok_insert_child:
  assumes ok: "resource_ok parent" and cs: "r_child parent = as @ bs" and new: "resource_ok new"
    "encloses (r_start new) (r_end new) parent" "\<forall>a \<in> set as. r_end a < r_start new" "\<forall>b \<in> set bs. r_end new < r_start b"
  shows "resource_ok (with_child parent (as @ new # bs))"
  using ok new resource_ok_iff [of parent] cs
  by (auto simp: resource_ok_with_child siblings_ok_append siblings_ok_Cons inside_def encloses_def)

lemma release_in_append:
  assumes "\<forall>a \<in> set as. r_end a < s" "s \<le> e"
  shows "release_in s e (as @ cs) = map_option ((@) as) (release_in s e cs)"
  using assms
proof (induction as)
  case (Cons a as)
  then have "\<not> e \<le> r_end a" by auto
  then show ?case using Cons by (cases "release_in s e cs") auto
qed (cases "release_in s e cs"; simp)

lemma release_in_hit: "encloses s e c \<Longrightarrow> \<not> is_busy c \<Longrightarrow>
    release_in s e (c # bs) = map_option (\<lambda>cs. with_child c cs # bs) (release_in s e (r_child c))"
  by (simp add: encloses_def)

lemma region_loop_result:
  assumes "resource_ok parent" "region_loop parent res = Some (q, t)" "r_child res = []"
  shows "resource_ok t \<and> header t = header parent \<and> headers t = add_mset (header res) (headers parent) \<and>
    q \<noteq> [] \<and> node_at t q = Some res \<and> raw_release_resource t q = Some (Inr (), parent) \<and>
    (is_busy res \<longrightarrow> release_in (r_start res) (r_end res) (r_child t) = Some (r_child parent))"
  using assms
proof (induction parent res arbitrary: q t rule: region_loop.induct)
  case (1 parent res)
  let ?s = "r_start res" and ?e = "r_end res"
  have okr: "resource_ok res" if "?s \<le> ?e" using that "1.prems"(3) by (cases res) simp
  show ?case
  proof (cases rule: request_cases [OF "1.prems"(1), of res, case_names bad conflict free])
    case bad
    then show ?thesis using "1.prems"(2) by (subst (asm) region_loop.simps) simp
  next
    case (free as bs)
    have t: "q = [length as]" "t = with_child parent (as @ res # bs)"
      using "1.prems"(2) free(2) by (subst (asm) region_loop.simps; simp)+
    have "resource_ok t" unfolding t using ok_insert_child [OF "1.prems"(1) free(1) okr free(4-6)] free(3) by blast
    moreover have "raw_release_resource t q = Some (Inr (), parent)"
      using unlink_inserted [of as res bs] free(1) by (simp add: t raw_release_resource_def) (metis with_child_simps(12))
    moreover have "is_busy res \<longrightarrow> release_in ?s ?e (r_child t) = Some (r_child parent)"
      using release_in_append [OF free(5,3), of "res # bs"] free(1) by (simp add: t)
    moreover have "headers t = add_mset (header res) (headers parent)"
      using "1.prems"(3) by (simp add: t headers_child [of "with_child _ _"] headers_child [of parent] free(1) headers_child [of res])
    ultimately show ?thesis by (simp add: t)
  next
    case (conflict as c bs)
    have c: "r_child parent ! length as = c" using conflict(1) by simp
    have okc: "resource_ok c" using ok_children [OF "1.prems"(1)] conflict(1) by auto
    obtain q' c' where b: "\<not> is_busy c" "region_loop c res = Some (q', c')" "q = length as # q'" "t = with_child parent (as @ c' # bs)"
      using "1.prems"(2) conflict(1,2) by (subst (asm) region_loop.simps) (auto split: if_splits)
    note IH = "1.IH" [OF conflict(2) refl c [symmetric] b(1) okc b(2) "1.prems"(3)]
    have hc: "r_start c' = r_start c" "r_end c' = r_end c" "is_busy c' = is_busy c"
      using IH by (auto simp: header_def is_busy_def)
    have enc: "encloses ?s ?e c" using region_loop_exact [OF okc, of res] b(2) by simp
    have up: "with_child parent (as @ x # bs) = with_child parent ((r_child parent)[length as := x])" for x
      by (simp add: conflict(1))
    have "resource_ok t" using ok_replace_child [OF "1.prems"(1) conflict(1) _ hc(1,2)] IH b(4) by blast
    moreover have "raw_release_resource t q = Some (Inr (), parent)"
    proof -
      have "raw_release_resource t q = Some (Inr (), with_child parent ((r_child parent)[length as := c]))"
        unfolding b(3,4) up using IH conflict(1) by (intro release_below) auto
      then show ?thesis using conflict(1) c by (metis list_update_id with_child_simps(12))
    qed
    moreover have "is_busy res \<longrightarrow> release_in ?s ?e (r_child t) = Some (r_child parent)"
    proof
      assume "is_busy res"
      then have "release_in ?s ?e (c' # bs) = Some (with_child c' (r_child c) # bs)"
        using IH hc enc b(1) by (simp add: encloses_def)
      moreover have "with_child c' (r_child c) = c" using IH by (cases c; cases c') (simp add: with_child_def header_def)
      ultimately show "release_in ?s ?e (r_child t) = Some (r_child parent)"
        using release_in_append [OF conflict(5,3), of "c' # bs"] by (simp add: b(4) conflict(1))
    qed
    moreover have "headers t = add_mset (header res) (headers parent)"
      using IH by (simp add: b(4) headers_child [of "with_child _ _"] headers_child [of parent] conflict(1))
    moreover have "node_at t q = Some res" using IH by (simp add: b(3,4) nth_append)
    ultimately show ?thesis by (simp add: b(3,4))
  qed
qed

section \<open>Insertion\<close>

text \<open>A resource clashes with a range it meets when neither contains the other.\<close>

definition clashes :: "u32 \<Rightarrow> u32 \<Rightarrow> resource \<Rightarrow> bool" where
  "clashes s e d \<longleftrightarrow> meets s e d \<and> \<not> encloses s e d \<and> \<not> inside s e d"

lemma adopt_scan_step:
  "\<not> inside (r_start new) (r_end new) c \<Longrightarrow> adopt_scan new (c # bs) = Inl 0"
  "inside (r_start new) (r_end new) c \<Longrightarrow> adopt_scan new [c] = Inr (Suc 0)"
  "inside (r_start new) (r_end new) c \<Longrightarrow> r_end new < r_start b \<Longrightarrow> adopt_scan new (c # b # bs) = Inr (Suc 0)"
  "inside (r_start new) (r_end new) c \<Longrightarrow> \<not> r_end new < r_start b \<Longrightarrow>
     adopt_scan new (c # b # bs) = map_sum Suc Suc (adopt_scan new (b # bs))"
  by (auto simp: inside_def not_le)

lemma adopt_scan_cases:
  assumes "siblings_ok (c # bs)" "\<forall>b \<in> set (c # bs). r_start b \<le> r_end b" "meets (r_start new) (r_end new) c"
  obtains (clash) xs d ys where "c # bs = xs @ d # ys" "adopt_scan new (c # bs) = Inl (length xs)"
      "meets (r_start new) (r_end new) d" "\<not> inside (r_start new) (r_end new) d"
      "xs \<noteq> [] \<Longrightarrow> r_start new < r_start d"
  | (covered) xs ys where "c # bs = xs @ ys" "adopt_scan new (c # bs) = Inr (length xs)" "xs \<noteq> []"
      "\<forall>x \<in> set xs. inside (r_start new) (r_end new) x" "\<forall>y \<in> set ys. r_end new < r_start y"
  using assms
proof (induction bs arbitrary: c thesis)
  case Nil
  show ?case
  proof (cases "inside (r_start new) (r_end new) c")
    case True
    then show ?thesis using Nil.prems(2) [of "[c]" "[]"] by (simp add: adopt_scan_step del: adopt_scan.simps)
  next
    case False
    then show ?thesis using Nil.prems(1) [of "[]" c "[]"] Nil.prems(5) by (simp add: adopt_scan_step del: adopt_scan.simps)
  qed
next
  case (Cons b bs)
  have ok: "siblings_ok (b # bs)" "\<forall>x \<in> set (b # bs). r_start x \<le> r_end x" "r_end c < r_start b" "r_start c \<le> r_end c"
    using Cons.prems(3,4) by (auto simp: siblings_ok_Cons)
  show ?case
  proof (cases "inside (r_start new) (r_end new) c")
    case False
    then show ?thesis using Cons.prems(1) [of "[]" c "b # bs"] Cons.prems(5) by (simp add: adopt_scan_step del: adopt_scan.simps)
  next
    case inside_c: True
    show ?thesis
    proof (cases "r_end new < r_start b")
      case True
      have "\<forall>y \<in> set (b # bs). r_end new < r_start y"
        using True ok(1,2) by (auto simp: siblings_ok_Cons intro: less_le_trans le_less_trans dest!: bspec)
      then show ?thesis using Cons.prems(2) [of "[c]" "b # bs"] inside_c True by (simp add: adopt_scan_step del: adopt_scan.simps)
    next
      case False
      have gt: "r_start new < r_start b" using ok(3,4) inside_c by (auto simp: inside_def)
      have m: "meets (r_start new) (r_end new) b" using False gt ok(2) by (auto simp: meets_def)
      have step: "adopt_scan new (c # b # bs) = map_sum Suc Suc (adopt_scan new (b # bs))"
        using inside_c False by (rule adopt_scan_step(4))
      show ?thesis
      proof (rule Cons.IH [OF _ _ ok(1,2) m])
        fix xs d ys assume a: "b # bs = xs @ d # ys" "adopt_scan new (b # bs) = Inl (length xs)"
          "meets (r_start new) (r_end new) d" "\<not> inside (r_start new) (r_end new) d" "xs \<noteq> [] \<Longrightarrow> r_start new < r_start d"
        have "r_start new < r_start d" using a(1,5) gt by (cases xs) auto
        then show thesis using Cons.prems(1) [of "c # xs" d ys] a step by (simp del: adopt_scan.simps)
      next
        fix xs ys assume a: "b # bs = xs @ ys" "adopt_scan new (b # bs) = Inr (length xs)" "xs \<noteq> []"
          "\<forall>x \<in> set xs. inside (r_start new) (r_end new) x" "\<forall>y \<in> set ys. r_end new < r_start y"
        then show thesis using Cons.prems(2) [of "c # xs" ys] step inside_c by (simp del: adopt_scan.simps)
      qed
    qed
  qed
qed

text \<open>What insertion does, one level of the tree at a time.\<close>

lemma insert_cases:
  assumes ok: "resource_ok parent"
  obtains (bad) "raw_insert_resource parent new = Inl []"
      "\<not> (r_start new \<le> r_end new \<and> encloses (r_start new) (r_end new) parent)"
  | (clash) as d bs where "r_child parent = as @ d # bs" "raw_insert_resource parent new = Inl [length as]"
      "r_start new \<le> r_end new" "encloses (r_start new) (r_end new) parent" "clashes (r_start new) (r_end new) d"
  | (here) as xs ys where "r_child parent = as @ xs @ ys"
      "raw_insert_resource parent new =
         Inr ([length as], with_child parent (as @ (if xs = [] then new else with_child new xs) # ys))"
      "r_start new \<le> r_end new" "encloses (r_start new) (r_end new) parent"
      "\<forall>a \<in> set as. r_end a < r_start new" "\<forall>x \<in> set xs. inside (r_start new) (r_end new) x" "\<forall>y \<in> set ys. r_end new < r_start y"
  | (below) as c bs where "r_child parent = as @ c # bs" "c = r_child parent ! length as"
      "raw_insert_resource parent new =
         (case raw_insert_resource c new of
            Inl q \<Rightarrow> Inl (length as # q)
          | Inr (q, c') \<Rightarrow> Inr (length as # q, with_child parent (as @ c' # bs)))"
      "r_start new \<le> r_end new" "encloses (r_start new) (r_end new) parent" "encloses (r_start new) (r_end new) c"
      "r_start c < r_start new \<or> r_end new < r_end c"
proof (cases rule: request_cases [OF ok, of new, case_names bad conflict free])
  case bad
  have "raw_insert_resource parent new = Inl []" by (subst raw_insert_resource.simps) (simp add: bad(1))
  then show thesis using that(1) bad(2) by blast
next
  case (free as bs)
  have "raw_insert_resource parent new = Inr ([length as], with_child parent (as @ new # bs))"
    by (subst raw_insert_resource.simps) (simp add: free(2))
  then show thesis using that(3) [of as "[]" bs] free by simp
next
  case (conflict as c bs)
  have c: "r_child parent ! length as = c" using conflict(1) by simp
  let ?strict = "encloses (r_start new) (r_end new) c \<and> (r_start c < r_start new \<or> r_end new < r_end c)"
  show thesis
  proof (cases ?strict)
    case True
    then have "raw_insert_resource parent new = (case raw_insert_resource c new of
        Inl q \<Rightarrow> Inl (length as # q) | Inr (q, c') \<Rightarrow> Inr (length as # q, with_child parent (as @ c' # bs)))"
      using conflict(1,2) c by (subst raw_insert_resource.simps) (auto simp: encloses_def split: sum.splits)
    then show thesis using that(4) [of as c bs] conflict c True by blast
  next
    case False
    then have ad: "raw_insert_resource parent new = adopt parent new (length as)"
      using conflict(2) c by (subst raw_insert_resource.simps) (auto simp: encloses_def)
    have "siblings_ok (c # bs)" "\<forall>b \<in> set (c # bs). r_start b \<le> r_end b"
      using ok_children [OF ok] conflict(1) by (auto simp: siblings_ok_append)
    from adopt_scan_cases [OF this conflict(6)] show thesis
    proof cases
      case (1 xs d ys)
      have "\<not> encloses (r_start new) (r_end new) d"
        using 1(1,4,5) False by (cases xs) (auto simp: encloses_def inside_def)
      then show thesis using that(2) [of "as @ xs" d ys] ad conflict 1
        by (auto simp: clashes_def adopt_def simp del: adopt_scan.simps)
    next
      case (2 xs ys)
      then show thesis using that(3) [of as xs ys] ad conflict by (simp add: adopt_def del: adopt_scan.simps)
    qed
  qed
qed

abbreviation no_clash :: "u32 \<Rightarrow> u32 \<Rightarrow> resource \<Rightarrow> bool" where
  "no_clash s e root \<equiv> \<forall>d \<in> set (descs root). \<not> clashes s e d"

lemma no_clash_here:
  assumes ok: "resource_ok parent" and cs: "r_child parent = as @ xs @ ys"
    and p: "\<forall>a \<in> set as. r_end a < s" "\<forall>x \<in> set xs. inside s e x" "\<forall>y \<in> set ys. e < r_start y"
  shows "no_clash s e parent"
proof
  fix d assume d: "d \<in> set (descs parent)"
  show "\<not> clashes s e d"
  proof
    assume "clashes s e d"
    then have m: "meets s e d" "\<not> inside s e d" by (auto simp: clashes_def)
    obtain c where c: "c \<in> set (r_child parent)" "meets s e c" "d = c \<or> d \<in> set (descs c)"
      using meets_below [OF ok d m(1)] .
    have "inside s e c" using c(1,2) p by (auto simp: cs before_not_meets after_not_meets)
    moreover have "resource_ok c" using ok_children(2) [OF ok] c(1) by blast
    ultimately have "inside s e d" using c(3) desc_ok [of c d] by (auto simp: inside_def)
    then show False using m by blast
  qed
qed

lemma no_clash_below:
  assumes "resource_ok parent" "r_child parent = as @ c # bs" "encloses s e c" "s \<le> e"
  shows "no_clash s e parent \<longleftrightarrow> no_clash s e c"
proof -
  have "d \<in> set (descs parent) \<and> clashes s e d \<longleftrightarrow> d \<in> set (descs c) \<and> clashes s e d" for d
    using enclosed_meets [OF assms, of d] assms(3) by (auto simp: clashes_def)
  then show ?thesis by blast
qed

lemma child_ok: "resource_ok parent \<Longrightarrow> r_child parent = as @ c # bs \<Longrightarrow> resource_ok c \<and> c \<in> set (descs parent)"
  using ok_children(2) [of parent] desc_cases [of c parent] by auto

lemma insert_exact:
  assumes "resource_ok parent"
  shows "(\<exists>q t. raw_insert_resource parent new = Inr (q, t)) \<longleftrightarrow>
    r_start new \<le> r_end new \<and> encloses (r_start new) (r_end new) parent \<and> no_clash (r_start new) (r_end new) parent"
  using assms
proof (induction parent rule: measure_induct_rule [of size])
  case (less parent)
  note ok = less.prems
  show ?case
  proof (cases rule: insert_cases [OF ok, of new, case_names bad clash here below])
    case (clash as d bs)
    then show ?thesis using child_ok [OF ok clash(1)] by auto
  next
    case (here as xs ys)
    then show ?thesis using no_clash_here [OF ok here(1,5-7)] by simp
  next
    case (below as c bs)
    have "size c < size parent" using child_size [of "length as" parent] below(1) by simp
    from less.IH [OF this] child_ok [OF ok below(1)]
    have "(\<exists>q t. raw_insert_resource c new = Inr (q, t)) \<longleftrightarrow> no_clash (r_start new) (r_end new) c"
      using below(4,6) by blast
    then show ?thesis unfolding below(3) using no_clash_below [OF ok below(1,6,4)] below(4,5)
      by (cases "raw_insert_resource c new") auto
  qed auto
qed

lemma insert_conflict_clashes:
  assumes "resource_ok parent" "raw_insert_resource parent new = Inl q" "r_start new \<le> r_end new"
    "encloses (r_start new) (r_end new) parent"
  obtains d where "q \<noteq> []" "node_at parent q = Some d" "d \<in> set (descs parent)" "clashes (r_start new) (r_end new) d"
  using assms
proof (induction parent arbitrary: q thesis rule: measure_induct_rule [of size])
  case (less parent)
  note ok = less.prems(2)
  show ?case
  proof (cases rule: insert_cases [OF ok, of new, case_names bad clash here below])
    case bad
    then show ?thesis using less.prems by blast
  next
    case (clash as d bs)
    then show ?thesis using less.prems(1) [of d] less.prems(3) child_ok [OF ok clash(1)] by simp
  next
    case (here as xs ys)
    then show ?thesis using less.prems(3) by simp
  next
    case (below as c bs)
    have sz: "size c < size parent" using child_size [of "length as" parent] below(1) by simp
    obtain q' where q': "raw_insert_resource c new = Inl q'" "q = length as # q'"
      using less.prems(3) unfolding below(3) by (auto split: sum.splits)
    show ?thesis
    proof (rule less.IH [OF sz _ _ q'(1) below(4,6)])
      fix d assume "node_at c q' = Some d" "d \<in> set (descs c)" "clashes (r_start new) (r_end new) d"
      then show thesis using less.prems(1) [of d] q'(2) below(1) desc_cases [of d parent] by auto
    qed (use child_ok [OF ok below(1)] in simp)
  qed
qed

lemma insert_result:
  assumes "resource_ok parent" "raw_insert_resource parent new = Inr (q, t)" "r_child new = []"
  shows "resource_ok t \<and> header t = header parent \<and> headers t = add_mset (header new) (headers parent) \<and>
    q \<noteq> [] \<and> (\<exists>xs. node_at t q = Some (with_child new xs))"
  using assms
proof (induction parent arbitrary: q t rule: measure_induct_rule [of size])
  case (less parent)
  note ok = less.prems(1)
  show ?case
  proof (cases rule: insert_cases [OF ok, of new, case_names bad clash here below])
    case (here as xs ys)
    have new: "(if xs = [] then new else with_child new xs) = with_child new xs"
      using less.prems(3) with_child_simps(12) [of new] by auto
    have t: "q = [length as]" "t = with_child parent (as @ with_child new xs # ys)"
      using less.prems(2) here(2) unfolding new by auto
    have kids: "siblings_ok (as @ xs @ ys)" "\<forall>c \<in> set (as @ xs @ ys). inside (r_start parent) (r_end parent) c \<and> resource_ok c"
      using ok_children [OF ok] here(1) by auto
    have "resource_ok (with_child new xs)"
      using here(3,6) kids by (auto simp: resource_ok_with_child siblings_ok_append)
    then have "resource_ok t"
      using ok_range [OF ok] kids here(4,5,7)
      by (auto simp: t resource_ok_with_child siblings_ok_append siblings_ok_Cons encloses_def inside_def)
    moreover have "headers t = add_mset (header new) (headers parent)"
      by (simp add: t headers_child [of "with_child _ _"] headers_child [of parent] here(1))
    ultimately show ?thesis by (auto simp: t)
  next
    case (below as c bs)
    have sz: "size c < size parent" using child_size [of "length as" parent] below(1) by simp
    obtain q' c' where q': "raw_insert_resource c new = Inr (q', c')" "q = length as # q'" "t = with_child parent (as @ c' # bs)"
      using less.prems(2) unfolding below(3) by (auto split: sum.splits)
    note IH = less.IH [OF sz _ q'(1) less.prems(3)]
    have IH: "resource_ok c'" "header c' = header c" "headers c' = add_mset (header new) (headers c)"
      "\<exists>xs. node_at c' q' = Some (with_child new xs)"
      using IH child_ok [OF ok below(1)] by auto
    have "resource_ok t" unfolding q'(3) using IH(2)
      by (intro ok_replace_child [OF ok below(1) IH(1)]) (simp_all add: header_def)
    moreover have "headers t = add_mset (header new) (headers parent)"
      by (simp add: q'(3) headers_child [of "with_child _ _"] headers_child [of parent] below(1) IH(2,3))
    ultimately show ?thesis using IH(4) by (auto simp: q'(2,3) nth_append)
  qed (use less.prems(2) in auto)
qed

section \<open>Regions\<close>

text \<open>
  C9. A driver gets the region it asks for exactly when the range is a non-empty part of the tree
  and every resource that the range meets encloses it and is not busy. The tree then has the new
  busy region besides everything it had, and no other region that meets it is busy.
\<close>

theorem request_region_exact:
  assumes ok: "resource_ok root"
  shows "(request_region True root start n name flags \<noteq> None \<longleftrightarrow>
           start \<le> start + n - 1 \<and> encloses start (start + n - 1) root \<and>
           (\<forall>d \<in> set (descs root). meets start (start + n - 1) d \<longrightarrow> \<not> is_busy d \<and> encloses start (start + n - 1) d)) \<and>
         (\<forall>alloc q t. request_region alloc root start n name flags = Some (q, t) \<longrightarrow>
           resource_ok t \<and> headers t = add_mset (start, start + n - 1, name, IORESOURCE_BUSY OR flags) (headers root))"
proof -
  let ?res = "Resource start (start + n - 1) name (IORESOURCE_BUSY OR flags) []"
  have "resource_ok t \<and> headers t = add_mset (header ?res) (headers root)" if "region_loop root ?res = Some (q, t)" for q t
    using region_loop_result [OF ok that] by simp
  then show ?thesis using region_loop_exact [OF ok, of ?res]
    by (auto simp: request_region_def header_def split: if_splits)
qed

lemma or_busy: "(IORESOURCE_BUSY OR flags) AND IORESOURCE_BUSY \<noteq> 0"
proof -
  have "bit ((IORESOURCE_BUSY OR flags) AND IORESOURCE_BUSY) 31" by (simp add: IORESOURCE_BUSY_def bit_simps)
  then show ?thesis by auto
qed


section \<open>Insertion\<close>

text \<open>
  C22. A resource can be inserted exactly when its range is a non-empty part of the tree and each
  resource of the tree is disjoint from it, inside it or around it. Insertion keeps every resource
  that was there and the order of the tree; what lies inside the new resource moves below it.
\<close>

theorem insert_resource_exact:
  assumes ok: "resource_ok root" and leaf: "r_child new = []"
  shows "(fst (insert_resource root new) = Inr () \<longleftrightarrow>
            r_start new \<le> r_end new \<and> encloses (r_start new) (r_end new) root \<and>
            (\<forall>d \<in> set (descs root). \<not> clashes (r_start new) (r_end new) d)) \<and>
         (case insert_resource root new of
            (Inl e, t) \<Rightarrow> e = EBUSY \<and> t = root
          | (Inr _, t) \<Rightarrow> resource_ok t \<and> headers t = add_mset (header new) (headers root))"
proof (cases "raw_insert_resource root new")
  case (Inl q)
  then have n: "\<not> (\<exists>q t. raw_insert_resource root new = Inr (q, t))" by simp
  show ?thesis using n [unfolded insert_exact [OF ok]] by (simp add: insert_resource_def Inl)
next
  case (Inr qt)
  obtain q t where qt: "qt = (q, t)" by (cases qt)
  have "\<exists>q t. raw_insert_resource root new = Inr (q, t)" using Inr qt by simp
  then show ?thesis using insert_result [OF ok Inr [unfolded qt] leaf]
    unfolding insert_exact [OF ok] by (simp add: insert_resource_def Inr qt)
qed

text \<open>Growing the range until it fits gives the least range that can be inserted.\<close>

lemma clash_hull:
  assumes "clashes s e d" "s' \<le> s" "e \<le> e'" "\<not> clashes s' e' d"
  shows "inside s' e' d"
  using assms by (auto simp: clashes_def meets_def encloses_def)

lemma expand_result:
  assumes "resource_ok root" "r_start new \<le> r_end new" "encloses (r_start new) (r_end new) root" "r_child new = []"
    "expand_to_fit root new = (t, new')"
  shows "resource_ok t \<and> headers t = add_mset (header new') (headers root) \<and>
    r_start new' \<le> r_start new \<and> r_end new \<le> r_end new' \<and> r_name new' = r_name new \<and> r_flags new' = r_flags new \<and>
    no_clash (r_start new') (r_end new') root \<and>
    (\<forall>s e. s \<le> r_start new \<longrightarrow> r_end new \<le> e \<longrightarrow> no_clash s e root \<longrightarrow> s \<le> r_start new' \<and> r_end new' \<le> e)"
  using assms
proof (induction root new rule: expand_to_fit.induct)
  case (1 root new)
  note ok = "1.prems"(1)
  show ?case
  proof (cases "raw_insert_resource root new")
    case (Inr qt)
    obtain q u where qt: "qt = (q, u)" by (cases qt)
    have nc: "no_clash (r_start new) (r_end new) root" using insert_exact [OF ok, of new] Inr qt by blast
    note r = insert_result [OF ok Inr [unfolded qt] "1.prems"(4)]
    obtain xs where xs: "node_at u q = Some (with_child new xs)" using r by blast
    have "t = u" "new' = with_child new xs"
      using "1.prems"(5) Inr qt xs by (subst (asm) expand_to_fit.simps; simp)+
    then show ?thesis using r nc by simp
  next
    case (Inl q)
    obtain d where d: "q \<noteq> []" "node_at root q = Some d" "d \<in> set (descs root)" "clashes (r_start new) (r_end new) d"
      using insert_conflict_clashes [OF ok Inl "1.prems"(2,3)] .
    define s where "s = (if r_start d < r_start new then r_start d else r_start new)"
    define e where "e = (if r_end d > r_end new then r_end d else r_end new)"
    have rng: "s \<le> r_start new" "r_end new \<le> e" "s \<le> r_start d" "r_end d \<le> e" by (auto simp: s_def e_def)
    have rec: "expand_to_fit root (with_range s e new) = (t, new')"
      using "1.prems"(5) Inl d(1,2) by (subst (asm) expand_to_fit.simps) (simp add: s_def e_def)
    have enc: "encloses s e root" "s \<le> e"
      using "1.prems"(2,3) desc_ok [OF ok d(3)] rng by (auto simp: encloses_def inside_def s_def e_def)
    have least: "s' \<le> s \<and> e \<le> e'" if "s' \<le> r_start new" "r_end new \<le> e'" "no_clash s' e' root" for s' e'
      using clash_hull [OF d(4) that(1,2)] that d(3) by (auto simp: s_def e_def inside_def)
    have "d = the (node_at root q)" using d(2) by simp
    note IH = "1.IH" [OF Inl d(1) this s_def e_def ok, simplified with_range_simps, OF enc(2,1) "1.prems"(4) rec]
    have "s' \<le> r_start new' \<and> r_end new' \<le> e'" if "s' \<le> r_start new" "r_end new \<le> e'" "no_clash s' e' root" for s' e'
      using IH least [OF that] that(3) by blast
    then show ?thesis using IH rng(1,2) by (meson order_trans)
  qed
qed

text \<open>
  C23. Insertion that expands the resource to fit always ends. For a non-empty range inside the tree
  it succeeds, and the range it gives the resource is the least one around the requested range that
  clashes with no resource of the tree.
\<close>

theorem expand_to_fit_least:
  assumes "resource_ok root" "r_start new \<le> r_end new" "encloses (r_start new) (r_end new) root" "r_child new = []"
  shows "\<exists>t new'. insert_resource_expand_to_fit root False new = (t, new') \<and> resource_ok t \<and>
    headers t = add_mset (header new') (headers root) \<and> r_start new' \<le> r_start new \<and> r_end new \<le> r_end new' \<and>
    (\<forall>d \<in> set (descs root). \<not> clashes (r_start new') (r_end new') d) \<and>
    (\<forall>s e. s \<le> r_start new \<and> r_end new \<le> e \<and> (\<forall>d \<in> set (descs root). \<not> clashes s e d) \<longrightarrow>
       s \<le> r_start new' \<and> r_end new' \<le> e)"
proof -
  obtain t new' where e: "expand_to_fit root new = (t, new')" by (cases "expand_to_fit root new")
  show ?thesis using expand_result [OF assms e] e by (auto simp: insert_resource_expand_to_fit_def)
qed

end
