(* ===== verification/Resource_Space.thy ===== *)
theory Resource_Space
  imports Resource_Claims
begin

text \<open>
  Finding, reserving and moving ranges: allocation by first fit, reservation of a range around the
  resources that are in it, adjustment of a resource, and what all calls together keep. The lemmas
  compare the 32-bit computations of the code with addresses that are natural numbers.
\<close>

section \<open>Allocation\<close>

text \<open>
  The places for a resource of \<open>sz\<close> bytes: aligned, inside the limits and the root, and clear of the
  children \<open>cs\<close>. Addresses are natural numbers here, so nothing wraps around.
\<close>

definition placement :: "resource \<Rightarrow> resource list \<Rightarrow> nat \<Rightarrow> u32 \<Rightarrow> u32 \<Rightarrow> nat \<Rightarrow> nat \<Rightarrow> bool" where
  "placement root cs sz mn mx m a \<longleftrightarrow>
     m dvd a \<and> unat mn \<le> a \<and> unat (r_start root) \<le> a \<and> a + sz - 1 \<le> unat mx \<and> a + sz - 1 \<le> unat (r_end root) \<and>
     (\<forall>c \<in> set cs. a + sz - 1 < unat (r_start c) \<or> unat (r_end c) < a)"

lemma fits_iff:
  fixes s e :: u32
  assumes "2 \<le> unat sz"
  shows "s < e \<and> e - s \<ge> sz - 1 \<longleftrightarrow> unat s + unat sz - 1 \<le> unat e"
proof -
  have one: "unat (sz - 1) = unat sz - 1" using assms by (simp add: unat_sub word_le_nat_alt)
  show ?thesis
  proof (cases "s < e")
    case True
    then have "unat (e - s) = unat e - unat s" by (simp add: unat_sub less_imp_le)
    then show ?thesis using True one assms by (auto simp: word_le_nat_alt word_less_nat_alt)
  next
    case False
    then show ?thesis using assms by (auto simp: word_less_nat_alt)
  qed
qed

lemma chosen_end:
  fixes s e :: u32
  assumes "2 \<le> unat sz" "unat s + unat sz - 1 \<le> unat e"
  shows "unat (s + sz - 1) = unat s + unat sz - 1"
proof -
  have one: "unat (sz - 1) = unat sz - 1" using assms by (simp add: unat_sub word_le_nat_alt)
  have "unat s + unat (sz - 1) < 2 ^ 32"
    using assms one unat_lt_2_32 [of e] by simp
  then have "unat (s + (sz - 1)) = unat s + unat (sz - 1)" by (subst unat_add_lem [THEN iffD1]) simp_all
  then show ?thesis using one assms(1) by (simp add: algebra_simps)
qed

text \<open>One gap, from \<open>g\<close> to \<open>lim\<close>: the first aligned address in it is the first place, or there is none.\<close>

definition in_gap :: "u32 \<Rightarrow> u32 \<Rightarrow> nat \<Rightarrow> u32 \<Rightarrow> u32 \<Rightarrow> nat \<Rightarrow> nat \<Rightarrow> bool" where
  "in_gap g lim sz mn mx m a \<longleftrightarrow>
     m dvd a \<and> unat mn \<le> a \<and> unat g \<le> a \<and> a + sz - 1 \<le> unat mx \<and> a + sz - 1 \<le> unat lim"

lemma gap_first:
  fixes g lim :: u32
  assumes "k < 32" "2 \<le> unat sz" "unat mn + 2 ^ k \<le> 2 ^ 32" "unat g + 2 ^ k \<le> 2 ^ 32"
    and s: "s = ALIGN (if g < mn then mn else g) (2 ^ k)" and f: "f = (if lim > mx then mx else lim)"
  shows "if s < f \<and> f - s \<ge> sz - 1
    then unat (s + sz - 1) = unat s + unat sz - 1 \<and> in_gap g lim (unat sz) mn mx (2 ^ k) (unat s) \<and>
         (\<forall>a. in_gap g lim (unat sz) mn mx (2 ^ k) a \<longrightarrow> unat s \<le> a)
    else \<forall>a. \<not> in_gap g lim (unat sz) mn mx (2 ^ k) a"
proof -
  define x where "x = (if g < mn then mn else g)"
  have x: "unat x = max (unat mn) (unat g)" "unat f = min (unat lim) (unat mx)"
    by (auto simp: x_def f word_less_nat_alt)
  have "unat s = (unat x + 2 ^ k - 1) div 2 ^ k * 2 ^ k"
    unfolding s x_def [symmetric] using assms(1,3,4) x(1) by (intro ALIGN_nat) auto
  note up = round_up_least [where m = "2 ^ k" and x = "unat x", folded this, simplified]
  have e: "in_gap g lim (unat sz) mn mx (2 ^ k) a \<longleftrightarrow> 2 ^ k dvd a \<and> unat x \<le> a \<and> a + unat sz - 1 \<le> unat f" for a
    using x by (auto simp: in_gap_def)
  show ?thesis
  proof (cases "unat s + unat sz - 1 \<le> unat f")
    case True
    then show ?thesis using fits_iff [OF assms(2), of s f] chosen_end [OF assms(2) True] e up by auto
  next
    case False
    have "\<not> in_gap g lim (unat sz) mn mx (2 ^ k) a" for a using e [of a] up(3) [of a] False by auto
    then show ?thesis using fits_iff [OF assms(2), of s f] False by auto
  qed
qed

text \<open>The outcome of the search from the address \<open>g\<close> on.\<close>

definition first_fit ::
  "resource \<Rightarrow> resource list \<Rightarrow> u32 \<Rightarrow> u32 \<Rightarrow> u32 \<Rightarrow> nat \<Rightarrow> resource \<Rightarrow> unit ret \<times> resource \<Rightarrow> bool" where
  "first_fit root ts sz mn mx m new r \<longleftrightarrow>
     (case r of
        (Inr _, new') \<Rightarrow> let s = r_start new' in
          new' = with_range s (s + sz - 1) new \<and> unat (s + sz - 1) = unat s + unat sz - 1 \<and> r_start new \<le> s \<and> placement root ts (unat sz) mn mx m (unat s) \<and>
          (\<forall>a \<ge> unat (r_start new). placement root ts (unat sz) mn mx m a \<longrightarrow> unat s \<le> a)
      | (Inl e, _) \<Rightarrow> e = EBUSY \<and> (\<forall>a \<ge> unat (r_start new). \<not> placement root ts (unat sz) mn mx m a))"

lemma first_fit_step:
  assumes "\<And>a. unat (r_start new) \<le> a \<and> placement root ts (unat sz) mn mx m a \<longleftrightarrow>
             unat (r_start new') \<le> a \<and> placement root ts' (unat sz) mn mx m a"
    and "r_start new \<le> r_start new'" "\<And>s e. with_range s e new' = with_range s e new"
  shows "first_fit root ts' sz mn mx m new' r \<Longrightarrow> first_fit root ts sz mn mx m new r"
  using assms by (cases r; cases "fst r") (auto simp: first_fit_def Let_def word_le_nat_alt)

lemma find_gap_first_fit:
  assumes al: "k < 32" "2 \<le> unat sz" "unat mn + 2 ^ k \<le> 2 ^ 32"
    and "unat (r_start root) \<le> unat (r_start new)"
    and "unat (r_start new) + 2 ^ k \<le> 2 ^ 32" "\<forall>t \<in> set ts. unat (r_end t) + 2 ^ k < 2 ^ 32"
    and "siblings_ok ts" "\<forall>t \<in> set ts. r_start t \<le> r_end t \<and> 0 < r_start t \<and> r_start new \<le> r_start t \<and> r_end t \<le> r_end root"
  shows "first_fit root ts sz mn mx (2 ^ k) new (find_gap root sz mn mx (2 ^ k) None new ts)"
  using assms(4-)
proof (induction ts arbitrary: new)
  case Nil
  define s f where "s = ALIGN (if r_start new < mn then mn else r_start new) (2 ^ k)"
    and "f = (if r_end root > mx then mx else r_end root)"
  have "find_gap root sz mn mx (2 ^ k) None new [] =
    (if s < f \<and> f - s \<ge> sz - 1 then (Inr (), with_range s (s + sz - 1) new) else (Inl EBUSY, with_range s f new))"
    by (subst find_gap.simps) (simp add: gap_before_def Let_def s_def f_def)
  moreover have "placement root [] (unat sz) mn mx (2 ^ k) a \<longleftrightarrow> in_gap (r_start new) (r_end root) (unat sz) mn mx (2 ^ k) a"
    if "unat (r_start new) \<le> a" for a
    using that Nil.prems(1) by (auto simp: placement_def in_gap_def)
  ultimately show ?case
    using gap_first [OF al Nil.prems(2) s_def f_def] by (auto simp: first_fit_def in_gap_def word_le_nat_alt split: if_splits)
next
  case (Cons t ts)
  define s f where "s = ALIGN (if r_start new < mn then mn else r_start new) (2 ^ k)"
    and "f = (if r_start t - 1 > mx then mx else r_start t - 1)"
  define new1 where "new1 = with_range (r_end t + 1) f new"
  have u: "find_gap root sz mn mx (2 ^ k) None new (t # ts) =
    (if s < f \<and> f - s \<ge> sz - 1 then (Inr (), with_range s (s + sz - 1) new)
     else find_gap root sz mn mx (2 ^ k) None new1 ts)"
    by (subst find_gap.simps) (simp add: gap_before_def Let_def s_def f_def new1_def)
  have t: "0 < unat (r_start t)" "unat (r_start t) \<le> unat (r_end t)" "unat (r_start new) \<le> unat (r_start t)"
    "unat (r_end t) + 2 ^ k < 2 ^ 32" "unat (r_end t) \<le> unat (r_end root)"
    using Cons.prems by (auto simp: word_le_nat_alt word_less_nat_alt)
  have t1: "unat (r_start t - 1) = unat (r_start t) - 1" "unat (r_start new1) = unat (r_end t) + 1"
    using t(1) unat_Suc_32 [OF t(4)] by (auto simp: new1_def unat_sub word_le_nat_alt)
  have later: "\<forall>c \<in> set ts. unat (r_end t) < unat (r_start c)"
    using Cons.prems(4) by (auto simp: siblings_ok_Cons word_less_nat_alt)
  note gap = gap_first [OF al Cons.prems(2) s_def f_def]
  have here: "in_gap (r_start new) (r_start t - 1) (unat sz) mn mx (2 ^ k) a \<longleftrightarrow>
      unat (r_start new) \<le> a \<and> placement root (t # ts) (unat sz) mn mx (2 ^ k) a \<and> a \<le> unat (r_end t)" for a
    using Cons.prems(1) t t1(1) later al(2) by (fastforce simp: placement_def in_gap_def)
  show ?case
  proof (cases "s < f \<and> f - s \<ge> sz - 1")
    case True
    then show ?thesis using u gap here [of "unat s"] here by (force simp: first_fit_def word_le_nat_alt)
  next
    case False
    have "first_fit root ts sz mn mx (2 ^ k) new1 (find_gap root sz mn mx (2 ^ k) None new1 ts)"
    proof (rule Cons.IH)
      show "unat (r_start root) \<le> unat (r_start new1)" using Cons.prems(1) t t1(2) by simp
    qed (use Cons.prems(3-5) t(4) t1(2) later in \<open>auto simp: siblings_ok_Cons word_le_nat_alt\<close>)
    moreover have "unat (r_start new) \<le> a \<and> placement root (t # ts) (unat sz) mn mx (2 ^ k) a \<longleftrightarrow>
        unat (r_start new1) \<le> a \<and> placement root ts (unat sz) mn mx (2 ^ k) a" for a
      using gap False here [of a] t t1(2) by (auto simp: placement_def)
    ultimately have "first_fit root (t # ts) sz mn mx (2 ^ k) new (find_gap root sz mn mx (2 ^ k) None new1 ts)"
      using t t1(2) by (elim first_fit_step [rotated -1]) (auto simp: new1_def word_le_nat_alt)
    then show ?thesis using u False by (simp only: if_False)
  qed
qed

lemma find_resource_first_fit:
  assumes ok: "resource_ok root" and al: "k < 32" "2 \<le> unat sz" "unat mn + 2 ^ k \<le> 2 ^ 32"
    and nowrap: "unat (r_start root) + 2 ^ k \<le> 2 ^ 32" "\<forall>c \<in> set (r_child root). unat (r_end c) + 2 ^ k < 2 ^ 32"
  shows "first_fit root (r_child root) sz mn mx (2 ^ k) (with_range (r_start root) (r_end new) new)
    (find_resource root new sz mn mx (2 ^ k) None)"
proof -
  define new0 where "new0 = with_range (r_start root) (r_end new) new"
  note kids = ok_children [OF ok]
  have gap: "first_fit root ts sz mn mx (2 ^ k) n0 (find_gap root sz mn mx (2 ^ k) None n0 ts)"
    if "set ts \<subseteq> set (r_child root)" "siblings_ok ts" "r_start root \<le> r_start n0" "unat (r_start n0) + 2 ^ k \<le> 2 ^ 32"
      "\<forall>t \<in> set ts. 0 < r_start t \<and> r_start n0 \<le> r_start t" for ts n0
    using find_gap_first_fit [OF al, of root n0 ts mx] that kids nowrap(2)
    by (auto simp: inside_def word_le_nat_alt [of "r_start root"] subset_iff)
  show ?thesis
  proof (cases "r_child root")
    case Nil
    then show ?thesis using gap [of "[]" new0] nowrap(1) by (simp add: find_resource_def new0_def)
  next
    case (Cons t rest)
    have t: "r_start t \<le> r_end t" "inside (r_start root) (r_end root) t" "unat (r_end t) + 2 ^ k < 2 ^ 32"
      using kids nowrap(2) Cons by auto
    have rest: "siblings_ok rest" "\<forall>c \<in> set rest. r_end t < r_start c" using kids(1) Cons by (auto simp: siblings_ok_Cons)
    show ?thesis
    proof (cases "r_start t = 0")
      case False
      have "0 < r_start t" using False word_neq_0_conv by blast
      then have "first_fit root (t # rest) sz mn mx (2 ^ k) new0 (find_gap root sz mn mx (2 ^ k) None new0 (t # rest))"
        using kids Cons nowrap(1) rest(2) t(1) by (intro gap) (auto simp: new0_def inside_def)
      then show ?thesis using False Cons by (simp add: find_resource_def new0_def)
    next
      case True
      define new1 where "new1 = with_range (r_end t + 1) (r_end new) new"
      have n1: "unat (r_start new1) = unat (r_end t) + 1" using unat_Suc_32 [OF t(3)] by (simp add: new1_def)
      have root0: "r_start root = 0" using t(2) True by (simp add: inside_def)
      have "first_fit root rest sz mn mx (2 ^ k) new1 (find_gap root sz mn mx (2 ^ k) None new1 rest)"
        using Cons rest n1 t(3) root0 by (intro gap) (auto simp: word_le_nat_alt word_less_nat_alt)
      then have "first_fit root (t # rest) sz mn mx (2 ^ k) new0 (find_gap root sz mn mx (2 ^ k) None new1 rest)"
      proof (rule first_fit_step [rotated -1])
        show "unat (r_start new0) \<le> a \<and> placement root (t # rest) (unat sz) mn mx (2 ^ k) a \<longleftrightarrow>
          unat (r_start new1) \<le> a \<and> placement root rest (unat sz) mn mx (2 ^ k) a" for a
          using n1 True root0 by (auto simp: placement_def new0_def)
      qed (simp_all add: new0_def new1_def root0)
      then show ?thesis using True Cons by (simp add: find_resource_def new0_def new1_def)
    qed
  qed
qed

lemma request_placed:
  assumes ok: "resource_ok root" and leaf: "r_child new = []" and sz: "2 \<le> sz"
    and e: "unat (r_end new) = unat (r_start new) + sz - 1" and p: "placement root (r_child root) sz mn mx m (unat (r_start new))"
  obtains q t where "raw_request_resource root new = Inr (q, t)" "resource_ok t" "headers t = add_mset (header new) (headers root)"
proof (cases rule: request_cases [OF ok, of new, case_names bad conflict free])
  case bad
  then show thesis using p e sz by (auto simp: placement_def encloses_def word_le_nat_alt)
next
  case (conflict as c bs)
  then show thesis using p e by (auto simp: placement_def meets_def word_le_nat_alt)
next
  case (free as bs)
  have "resource_ok new" using free(3) leaf by (cases new) simp
  then show thesis using that [OF free(2)] ok_insert_child [OF ok free(1) _ free(4-6)] leaf
    by (simp add: headers_child [of "with_child _ _"] headers_child [of root] headers_child [of new] free(1))
qed


section \<open>Reserving around what is there\<close>

definition covered :: "resource list \<Rightarrow> u32 \<Rightarrow> bool" where
  "covered cs x \<longleftrightarrow> (\<exists>c \<in> set cs. r_start c \<le> x \<and> x \<le> r_end c)"

text \<open>What a reservation of a range may do to a tree; it covers the range when no allocation fails.\<close>

definition reserved :: "bool \<Rightarrow> resource \<Rightarrow> u32 \<Rightarrow> u32 \<Rightarrow> resource \<Rightarrow> bool" where
  "reserved full root s e root' \<longleftrightarrow>
     resource_ok root' \<and> header root' = header root \<and> set (r_child root) \<subseteq> set (r_child root') \<and>
     (\<forall>x. covered (r_child root') x \<longrightarrow> covered (r_child root) x \<or> s \<le> x \<and> x \<le> e) \<and>
     (full \<longrightarrow> (\<forall>x. s \<le> x \<and> x \<le> e \<longrightarrow> covered (r_child root') x))"

lemma reserved_same: "resource_ok root \<Longrightarrow> (full \<longrightarrow> (\<forall>x. s \<le> x \<and> x \<le> e \<longrightarrow> covered (r_child root) x)) \<Longrightarrow> reserved full root s e root"
  by (simp add: reserved_def)

lemma reserved_added:
  assumes "resource_ok root" "r_child root = as @ bs" "s \<le> e" "encloses s e root"
    "\<forall>a \<in> set as. r_end a < s" "\<forall>b \<in> set bs. e < r_start b"
  shows "reserved full root s e (with_child root (as @ Resource s e name f [] # bs))"
  using ok_insert_child [OF assms(1,2), of "Resource s e name f []"] assms
  by (auto simp: reserved_def covered_def)

text \<open>Reserving the parts of a range on both sides of a resource.\<close>

lemma reserved_split:
  assumes c: "c \<in> set (r_child root)" "r_start c \<le> e" "s \<le> r_end c"
    and l: "if r_start c > s then reserved full root s (r_start c - 1) root1 else root1 = root \<and> resource_ok root"
    and r: "if r_end c < e then reserved full root1 (r_end c + 1) e root2 else root2 = root1"
  shows "reserved full root s e root2"
proof -
  have l': "resource_ok root1 \<and> header root1 = header root \<and> set (r_child root) \<subseteq> set (r_child root1) \<and>
     (\<forall>x. covered (r_child root1) x \<longrightarrow> covered (r_child root) x \<or> s \<le> x \<and> x < r_start c) \<and>
     (full \<longrightarrow> (\<forall>x. s \<le> x \<and> x < r_start c \<longrightarrow> covered (r_child root1) x))"
    using l le_pred_iff [of s "r_start c"] by (auto simp: reserved_def split: if_splits)
  then have r': "resource_ok root2 \<and> header root2 = header root1 \<and> set (r_child root1) \<subseteq> set (r_child root2) \<and>
     (\<forall>x. covered (r_child root2) x \<longrightarrow> covered (r_child root1) x \<or> r_end c < x \<and> x \<le> e) \<and>
     (full \<longrightarrow> (\<forall>x. r_end c < x \<and> x \<le> e \<longrightarrow> covered (r_child root2) x))"
    using r succ_le_iff [of "r_end c" e] by (auto simp: reserved_def split: if_splits)
  have mono: "covered (r_child root1) x \<Longrightarrow> covered (r_child root2) x" for x
    using r' by (auto simp: covered_def)
  have "covered (r_child root2) x" if "r_start c \<le> x" "x \<le> r_end c" for x
    using that c(1) l' r' by (auto simp: covered_def)
  then have "covered (r_child root2) x" if full "s \<le> x" "x \<le> e" for x
    using that l' r' mono by (meson not_le)
  moreover have "covered (r_child root) x \<or> s \<le> x \<and> x \<le> e" if "covered (r_child root2) x" for x
  proof -
    have "covered (r_child root) x \<or> s \<le> x \<and> x < r_start c \<or> r_end c < x \<and> x \<le> e" using that l' r' by blast
    then show ?thesis using c(2,3) by auto
  qed
  ultimately show ?thesis unfolding reserved_def using l' r' by auto
qed

lemma reserve_returns:
  assumes "resource_ok root" "encloses start fin root"
  shows "\<exists>root' n'. raw_reserve_region_with_split alloc root start fin name n = Some (root', n') \<and>
    reserved (\<forall>i. alloc i) root start fin root'"
  using assms
proof (induction "Suc (unat fin) - unat start" arbitrary: root start fin n rule: less_induct)
  case less
  note ok = less.prems(1) and enc = less.prems(2)
  let ?new = "Resource start fin name IORESOURCE_BUSY []"
  show ?case
  proof (cases "alloc n")
    case False
    then have "reserved (\<forall>i. alloc i) root start fin root" by (intro reserved_same [OF ok]) blast
    then show ?thesis using False by (subst raw_reserve_region_with_split.simps) simp
  next
    case al: True
    show ?thesis
    proof (cases rule: request_cases [OF ok, of ?new, case_names bad conflict free])
      case bad
      then have "reserved (\<forall>i. alloc i) root start fin root" using enc by (intro reserved_same [OF ok]) auto
      then show ?thesis using bad(1) al enc by (subst raw_reserve_region_with_split.simps) (simp add: encloses_def)
    next
      case (free as bs)
      then show ?thesis using al reserved_added [OF ok free(1)] enc
        by (subst raw_reserve_region_with_split.simps) simp
    next
      case (conflict as c bs)
      have c: "c \<in> set (r_child root)" "r_start c \<le> fin" "start \<le> r_end c" "node_at root [length as] = Some c"
        using conflict(1,6) by (auto simp: meets_def)
      have inside: "inside (r_start root) (r_end root) c" "r_start c \<le> r_end c" using ok_children [OF ok] c(1) by auto
      let ?full = "\<forall>i. alloc i"
      obtain root1 n1 where l: "(if r_start c > start
            then raw_reserve_region_with_split alloc root start (r_start c - 1) name (Suc n) else Some (root, Suc n)) = Some (root1, n1)"
          "if r_start c > start then reserved ?full root start (r_start c - 1) root1 else root1 = root \<and> resource_ok root"
      proof (cases "r_start c > start")
        case True
        have "unat (r_start c - 1) < unat fin"
          using le_pred_iff [OF True, of "r_start c - 1"] c(2) by (simp add: word_less_nat_alt word_le_nat_alt)
        moreover have "unat start \<le> unat fin" using conflict(3) by (simp add: word_le_nat_alt)
        ultimately have m: "Suc (unat (r_start c - 1)) - unat start < Suc (unat fin) - unat start" by simp
        have "encloses start (r_start c - 1) root"
          using enc inside le_pred_iff [OF True, of "r_start c - 1"] by (auto simp: encloses_def inside_def)
        from less.hyps [OF m ok this, of "Suc n"] show thesis using that True by fastforce
      qed (use that ok in auto)
      have ok1: "resource_ok root1" "header root1 = header root" using l(2) by (auto simp: reserved_def split: if_splits)
      obtain root2 n2 where r: "(if r_end c < fin
            then raw_reserve_region_with_split alloc root1 (r_end c + 1) fin name n1 else Some (root1, n1)) = Some (root2, n2)"
          "if r_end c < fin then reserved ?full root1 (r_end c + 1) fin root2 else root2 = root1"
      proof (cases "r_end c < fin")
        case True
        have lt: "r_end c < r_end c + 1" using succ_le_iff [OF True, of "r_end c + 1"] by simp
        then have m: "Suc (unat fin) - unat (r_end c + 1) < Suc (unat fin) - unat start"
          using c(3) True succ_le_iff [OF True, of fin] by (simp add: word_less_nat_alt word_le_nat_alt)
        have "encloses (r_end c + 1) fin root1"
          using enc inside lt ok1(2) by (auto simp: encloses_def inside_def header_def)
        from less.hyps [OF m ok1(1) this, of n1] show thesis using that True by fastforce
      qed (use that in auto)
      have "reserved ?full root start fin root2" using reserved_split [OF c(1-3) l(2) r(2)] .
      moreover have "reserved ?full root start fin root" if "r_start c \<le> start" "fin \<le> r_end c"
        using that c(1) by (intro reserved_same [OF ok]) (auto simp: covered_def intro!: bexI [of _ c])
      ultimately show ?thesis
        using al conflict(2) c(4) l(1) r(1) by (subst raw_reserve_region_with_split.simps) (simp del: node_at.simps)
    qed
  qed
qed

lemma reserve_only_inside:
  assumes "raw_reserve_region_with_split alloc root start fin name n = Some r" "\<forall>i. alloc i"
  shows "encloses start fin root"
proof -
  have "(\<forall>i. alloc i) \<longrightarrow> encloses start fin root"
  proof (rule raw_reserve_region_with_split.raw_induct [OF _ assms(1), where P = "\<lambda>alloc root start fin name n r. (\<forall>i. alloc i) \<longrightarrow> encloses start fin root"], intro impI, goal_cases)
    case (1 rsv alloc root start fin name n r)
    let ?new = "Resource start fin name IORESOURCE_BUSY []"
    note rec = 1(1) [rule_format, OF _ 1(3) [rule_format]]
    show ?case
    proof (cases "raw_request_resource root ?new = Inl []")
      case False
      then show ?thesis by (auto simp: no_root_conflict encloses_def)
    next
      case True
      show ?thesis
      proof (rule ccontr)
        assume n: "\<not> encloses start fin root"
        show False
        proof (cases "r_start root > start")
          case gt: True
          then obtain v where "rsv alloc root start (r_start root - 1) name (Suc n) = Some v"
            using 1(2,3) True n by (auto simp: encloses_def split: if_splits bind_splits)
          then show False using rec gt by (fastforce simp: encloses_def)
        next
          case False
          then obtain v where "rsv alloc root (r_end root + 1) fin name (Suc n) = Some v"
            using 1(2,3) True n by (auto simp: encloses_def split: if_splits bind_splits)
          then show False using rec False n by (fastforce simp: encloses_def)
        qed
      qed
    qed
  qed
  then show ?thesis using assms(2) by blast
qed

text \<open>
  C17. Reserving a region around the resources that are in it ends for every range inside the root,
  whatever allocations fail, and keeps every resource. When no allocation fails it makes the whole
  range covered and nothing else, and then it ends for no range that reaches outside the root.
\<close>

theorem reserve_region_terminates:
  assumes "resource_ok root"
  shows "(reserve_region_with_split (\<lambda>_. True) root start fin name \<noteq> None \<longleftrightarrow> encloses start fin root) \<and>
    (encloses start fin root \<longrightarrow>
       (\<exists>root'. reserve_region_with_split alloc root start fin name = Some root' \<and> resource_ok root' \<and>
          set (r_child root) \<subseteq> set (r_child root') \<and>
          (\<forall>x. covered (r_child root') x \<longrightarrow> covered (r_child root) x \<or> start \<le> x \<and> x \<le> fin) \<and>
          ((\<forall>i. alloc i) \<longrightarrow> (\<forall>x. start \<le> x \<and> x \<le> fin \<longrightarrow> covered (r_child root') x))))"
proof (rule conjI)
  have "encloses start fin root" if "raw_reserve_region_with_split (\<lambda>_. True) root start fin name 0 = Some r" for r
    using reserve_only_inside [OF that] by simp
  then show "reserve_region_with_split (\<lambda>_. True) root start fin name \<noteq> None \<longleftrightarrow> encloses start fin root"
    using reserve_returns [OF assms, of start fin "\<lambda>_. True" name 0] by (auto simp: reserve_region_with_split_def)
  show "encloses start fin root \<longrightarrow> (\<exists>root'. reserve_region_with_split alloc root start fin name = Some root' \<and> resource_ok root' \<and>
      set (r_child root) \<subseteq> set (r_child root') \<and>
      (\<forall>x. covered (r_child root') x \<longrightarrow> covered (r_child root) x \<or> start \<le> x \<and> x \<le> fin) \<and>
      ((\<forall>i. alloc i) \<longrightarrow> (\<forall>x. start \<le> x \<and> x \<le> fin \<longrightarrow> covered (r_child root') x)))"
  proof
    assume "encloses start fin root"
    from reserve_returns [OF assms this, of alloc name 0] obtain root' n'
      where "raw_reserve_region_with_split alloc root start fin name 0 = Some (root', n')" "reserved (\<forall>i. alloc i) root start fin root'"
      by blast
    then show "\<exists>root'. reserve_region_with_split alloc root start fin name = Some root' \<and> resource_ok root' \<and>
      set (r_child root) \<subseteq> set (r_child root') \<and>
      (\<forall>x. covered (r_child root') x \<longrightarrow> covered (r_child root) x \<or> start \<le> x \<and> x \<le> fin) \<and>
      ((\<forall>i. alloc i) \<longrightarrow> (\<forall>x. start \<le> x \<and> x \<le> fin \<longrightarrow> covered (r_child root') x))"
      by (intro exI [of _ root']) (simp add: reserve_region_with_split_def reserved_def)
  qed
qed

section \<open>Adjusting\<close>

lemma update_at_header: "header (f r) = header r \<Longrightarrow> node_at root p = Some r \<Longrightarrow> header (update_at p f root) = header root"
  by (cases p) auto

lemma update_at_ok:
  assumes "resource_ok root" "node_at root p = Some r" "resource_ok (f r)" "header (f r) = header r"
  shows "resource_ok (update_at p f root)"
  using assms
proof (induction p arbitrary: root)
  case (Cons i p)
  have i: "i < length (r_child root)" "node_at (r_child root ! i) p = Some r" using Cons.prems(2) by (auto split: if_splits)
  define as bs where "as = take i (r_child root)" and "bs = drop (Suc i) (r_child root)"
  have cs: "r_child root = as @ r_child root ! i # bs" using i(1) by (simp add: as_def bs_def id_take_nth_drop)
  have up: "(r_child root)[i := x] = as @ x # bs" for x using i(1) by (simp add: as_def bs_def upd_conv_take_nth_drop)
  have "resource_ok (r_child root ! i)" using Cons.prems(1) i(1) ok_children(2) nth_mem by blast
  then have "resource_ok (update_at p f (r_child root ! i))" using Cons.IH i(2) Cons.prems(3,4) by blast
  moreover have "header (update_at p f (r_child root ! i)) = header (r_child root ! i)"
    using update_at_header [of f r] Cons.prems(4) i(2) by blast
  ultimately show ?case using ok_replace_child [OF Cons.prems(1) cs] i(1) by (simp add: up header_def)
qed simp

lemma update_at_child:
  assumes "node_at root p = Some parent" "i < length (r_child parent)"
  shows "update_at (p @ [i]) f root = update_at p (\<lambda>r. with_child r ((r_child parent)[i := f (r_child parent ! i)])) root"
  using assms by (induction p arbitrary: root) (auto split: if_splits)

lemma node_at_update: "node_at root p = Some r \<Longrightarrow> node_at (update_at p f root) p = Some (f r)"
  by (induction p arbitrary: root) (auto split: if_splits)

lemma node_at_snoc:
  "node_at t (p @ [i]) = Option.bind (node_at t p) (\<lambda>r. if i < length (r_child r) then Some (r_child r ! i) else None)"
  by (induction p arbitrary: t) auto

lemma node_at_ok: "resource_ok root \<Longrightarrow> node_at root p = Some r \<Longrightarrow> resource_ok r"
proof (induction p arbitrary: root)
  case (Cons i p)
  then have "i < length (r_child root)" "node_at (r_child root ! i) p = Some r" by (auto split: if_splits)
  moreover have "resource_ok (r_child root ! i)" using calculation(1) ok_children(2) [OF Cons.prems(1)] by simp
  ultimately show ?case using Cons.IH by blast
qed simp

lemma all_before_last:
  assumes "siblings_ok as" "\<forall>a \<in> set as. r_start a \<le> r_end a"
  shows "(\<forall>a \<in> set as. r_end a < s) \<longleftrightarrow> as = [] \<or> r_end (last as) < s"
proof (cases as rule: rev_cases)
  case (snoc xs x)
  then have "r_end a < r_end x" if "a \<in> set xs" for a
    using that assms by (auto simp: siblings_ok_append intro: less_le_trans)
  then show ?thesis by (auto simp: snoc intro: less_trans)
qed simp

lemma all_after_hd:
  assumes "siblings_ok bs" "\<forall>b \<in> set bs. r_start b \<le> r_end b"
  shows "(\<forall>b \<in> set bs. e < r_start b) \<longleftrightarrow> bs = [] \<or> e < r_start (hd bs)"
proof (cases bs)
  case (Cons x xs)
  then have "r_start x < r_start b" if "b \<in> set xs" for b
    using that assms by (auto simp: siblings_ok_Cons intro: le_less_trans)
  then show ?thesis by (auto simp: Cons intro: less_trans)
qed simp

lemma adjust_outcome:
  assumes ok: "resource_ok root" and at: "node_at root p = Some parent" "r_child parent = as @ c # bs"
    and rng: "start \<le> start + sz - 1"
  shows "(\<exists>r t. adjust_resource root (p @ [length as]) start sz = Some (r, t) \<and> resource_ok t \<and> header t = header root \<and>
      (if encloses start (start + sz - 1) parent \<and> (\<forall>d \<in> set (r_child c). inside start (start + sz - 1) d) \<and>
          (\<forall>a \<in> set as. r_end a < start) \<and> (\<forall>b \<in> set bs. start + sz - 1 < r_start b)
       then r = Inr () \<and> node_at t (p @ [length as]) = Some (with_range start (start + sz - 1) c)
       else r = Inl EBUSY \<and> t = root))"
proof -
  let ?e = "start + sz - 1"
  have okp: "resource_ok parent" using node_at_ok [OF ok at(1)] .
  note kids = ok_children [OF okp, unfolded at(2)]
  let ?fit = "encloses start ?e parent \<and> (\<forall>d \<in> set (r_child c). inside start ?e d) \<and>
          (\<forall>a \<in> set as. r_end a < start) \<and> (\<forall>b \<in> set bs. ?e < r_start b)"
  have sib: "siblings_ok as" "siblings_ok bs" "\<forall>a \<in> set as. r_start a \<le> r_end a" "\<forall>b \<in> set bs. r_start b \<le> r_end b"
    using kids by (auto simp: siblings_ok_append siblings_ok_Cons)
  have prev: "(\<not> (length as \<noteq> 0 \<and> start \<le> r_end ((as @ c # bs) ! (length as - 1)))) = (\<forall>a \<in> set as. r_end a < start)"
    unfolding all_before_last [OF sib(1,3)] by (cases as rule: rev_cases) (auto simp: nth_append)
  have nxt: "(\<not> (Suc (length as) < length (as @ c # bs) \<and> r_start ((as @ c # bs) ! Suc (length as)) \<le> ?e)) = (\<forall>b \<in> set bs. ?e < r_start b)"
    unfolding all_after_hd [OF sib(2,4)] by (cases bs) (auto simp: nth_append)
  have fits: "adjust_fits parent (length as) start ?e \<longleftrightarrow> ?fit"
    unfolding adjust_fits_def Let_def at(2) prev nxt by (auto simp: encloses_def inside_def list_all_iff)
  have lookup: "node_at root (p @ [length as]) = Some c"
    using at by (simp add: node_at_snoc)
  define t where "t = update_at (p @ [length as]) (with_range start ?e) root"
  have t: "t = update_at p (\<lambda>r. with_child r (as @ with_range start ?e c # bs)) root"
    unfolding t_def using update_at_child [OF at(1), of "length as" "with_range start ?e"] at(2) by simp
  have call: "adjust_resource root (p @ [length as]) start sz = Some (if ?fit then (Inr (), t) else (Inl EBUSY, root))"
    unfolding fits [symmetric] using at(1) lookup by (simp add: adjust_resource_def t_def Let_def)
  show ?thesis
  proof (cases ?fit)
    case True
    have "resource_ok (with_child parent (as @ with_range start ?e c # bs))"
      using True rng kids ok_range [OF okp] resource_ok_iff [of c] resource_ok_iff [of "with_range start ?e c"]
      by (auto simp: resource_ok_with_child siblings_ok_append siblings_ok_Cons encloses_def inside_def)
    then have "resource_ok t" unfolding t using ok at(1) by (intro update_at_ok) auto
    moreover have "header t = header root" unfolding t using update_at_header [OF _ at(1)] by simp
    moreover have "node_at t (p @ [length as]) = Some (with_range start ?e c)"
      unfolding t_def using lookup by (rule node_at_update)
    ultimately show ?thesis using call True by auto
  qed (use call ok in auto)
qed

text \<open>
  Adjusting a resource to a non-empty range succeeds exactly when the range stays inside the parent,
  around every child, behind all earlier siblings and before all later ones; it keeps the tree
  well-formed, and changes nothing otherwise.
\<close>

theorem adjust_resource_exact:
  assumes ok: "resource_ok root" and at: "node_at root p = Some parent" "r_child parent = as @ c # bs"
    and rng: "start \<le> start + sz - 1"
  shows "(\<exists>r t. adjust_resource root (p @ [length as]) start sz = Some (r, t) \<and> resource_ok t \<and>
      (if encloses start (start + sz - 1) parent \<and> (\<forall>d \<in> set (r_child c). inside start (start + sz - 1) d) \<and>
          (\<forall>a \<in> set as. r_end a < start) \<and> (\<forall>b \<in> set bs. start + sz - 1 < r_start b)
       then r = Inr () \<and> node_at t (p @ [length as]) = Some (with_range start (start + sz - 1) c)
       else r = Inl EBUSY \<and> t = root))"
  using adjust_outcome [OF assms] by blast

section \<open>Sequences of calls\<close>

text \<open>Calls one after the other; \<open>None\<close> is a call that does not return.\<close>

primrec run_tree_calls :: "('c \<Rightarrow> resource \<Rightarrow> resource option) \<Rightarrow> 'c list \<Rightarrow> resource \<Rightarrow> resource option" where
  "run_tree_calls exec [] t = Some t"
| "run_tree_calls exec (c # cs) t = Option.bind (exec c t) (run_tree_calls exec cs)"

definition same_tree :: "resource \<Rightarrow> resource \<Rightarrow> bool" where
  "same_tree t t' \<longleftrightarrow> resource_ok t' \<and> header t' = header t"

text \<open>
  The contract of an operation on a tree: whatever it returns is well-formed and has the same root.
\<close>

locale tree_call =
  fixes exec :: "'c \<Rightarrow> resource \<Rightarrow> resource option" and allowed :: "'c \<Rightarrow> bool"
  assumes keeps: "allowed c \<Longrightarrow> resource_ok t \<Longrightarrow> exec c t = Some t' \<Longrightarrow> same_tree t t'"
begin

lemma run_keeps:
  "list_all allowed cs \<Longrightarrow> resource_ok t \<Longrightarrow> run_tree_calls exec cs t = Some t' \<Longrightarrow> same_tree t t'"
proof (induction cs arbitrary: t)
  case (Cons c cs)
  then obtain u where u: "exec c t = Some u" "run_tree_calls exec cs u = Some t'" by (auto split: bind_splits)
  have "same_tree t u" using keeps [OF _ Cons.prems(2) u(1)] Cons.prems(1) by simp
  then show ?case using Cons.IH [OF _ _ u(2)] Cons.prems(1) by (simp add: same_tree_def)
qed (simp add: same_tree_def)

end

datatype resource_call =
    Call_Request resource
  | Call_Release rpath
  | Call_Allocate resource u32 u32 u32 u32 "align_fun option"
  | Call_Insert resource
  | Call_Expand resource
  | Call_Adjust rpath u32 u32
  | Call_Reserve "nat \<Rightarrow> bool" u32 u32 string
  | Call_Request_Region bool u32 u32 string u32
  | Call_Check_Region bool u32 u32
  | Call_Release_Region u32 u32

fun exec_resource_call :: "resource_call \<Rightarrow> resource \<Rightarrow> resource option" where
  "exec_resource_call (Call_Request new) t = Some (snd (request_resource t new))"
| "exec_resource_call (Call_Release p) t = map_option snd (release_resource t p)"
| "exec_resource_call (Call_Allocate new sz mn mx align alignf) t =
     Some (fst (snd (allocate_resource t new sz mn mx align alignf)))"
| "exec_resource_call (Call_Insert new) t = Some (snd (insert_resource t new))"
| "exec_resource_call (Call_Expand new) t = Some (fst (insert_resource_expand_to_fit t False new))"
| "exec_resource_call (Call_Adjust p start sz) t = map_option snd (adjust_resource t p start sz)"
| "exec_resource_call (Call_Reserve alloc start fin name) t = reserve_region_with_split alloc t start fin name"
| "exec_resource_call (Call_Request_Region alloc start n name flags) t =
     (case request_region alloc t start n name flags of Some (_, t') \<Rightarrow> Some t' | None \<Rightarrow> Some t)"
| "exec_resource_call (Call_Check_Region alloc start n) t = map_option snd (check_region alloc t start n)"
| "exec_resource_call (Call_Release_Region start n) t = Some (release_region t start n)"

text \<open>
  New descriptors have no children, an alignment function only moves the range, and a resource is not
  adjusted to an empty range.
\<close>

fun call_allowed :: "resource_call \<Rightarrow> bool" where
  "call_allowed (Call_Request new) \<longleftrightarrow> r_child new = []"
| "call_allowed (Call_Allocate new _ _ _ _ alignf) \<longleftrightarrow>
     r_child new = [] \<and> (\<forall>f r a b. alignf = Some f \<longrightarrow> r_child (f r a b) = r_child r)"
| "call_allowed (Call_Insert new) \<longleftrightarrow> r_child new = []"
| "call_allowed (Call_Expand new) \<longleftrightarrow> r_child new = []"
| "call_allowed (Call_Adjust _ start sz) \<longleftrightarrow> start \<le> start + sz - 1"
| "call_allowed _ \<longleftrightarrow> True"

lemma request_keeps:
  assumes ok: "resource_ok t" and leaf: "r_child new = []" and r: "raw_request_resource t new = Inr (q, t')"
  shows "same_tree t t'"
proof (cases rule: request_cases [OF ok, of new, case_names bad conflict free])
  case (free as bs)
  have "resource_ok new" using free(3) leaf by (cases new) simp
  then show ?thesis using ok_insert_child [OF ok free(1) _ free(4-6)] free(2) r by (auto simp: same_tree_def)
qed (use r in auto)

lemma find_gap_child:
  assumes "\<forall>f r a b. alignf = Some f \<longrightarrow> r_child (f r a b) = r_child r"
  shows "r_child (snd (find_gap root sz mn mx align alignf new ts)) = r_child new"
proof (induction ts arbitrary: new)
  case Nil
  then show ?case using assms
    by (subst find_gap.simps) (simp add: gap_before_def Let_def split: option.splits)
next
  case (Cons t ts)
  then show ?case using assms
    by (subst find_gap.simps) (simp add: gap_before_def Let_def split: option.splits)
qed

lemma find_resource_child:
  assumes "\<forall>f r a b. alignf = Some f \<longrightarrow> r_child (f r a b) = r_child r"
  shows "r_child (snd (find_resource root new sz mn mx align alignf)) = r_child new"
  using find_gap_child [OF assms] by (simp add: find_resource_def Let_def split: list.splits)

lemma allocate_keeps:
  assumes "resource_ok t" "r_child new = []" "\<forall>f r a b. alignf = Some f \<longrightarrow> r_child (f r a b) = r_child r"
  shows "same_tree t (fst (snd (allocate_resource t new sz mn mx align alignf)))"
proof -
  obtain r new' where f: "find_resource t new sz mn mx align alignf = (r, new')"
    by (cases "find_resource t new sz mn mx align alignf")
  have "r_child new' = []" using find_resource_child [OF assms(3), of t new sz mn mx align] f assms(2) by simp
  then show ?thesis using request_keeps [OF assms(1), of new'] assms(1)
    by (auto simp: allocate_resource_def f same_tree_def split: sum.splits)
qed

lemma release_keeps:
  assumes ok: "resource_ok t" and r: "release_resource t p = Some (r, t')"
  shows "same_tree t t'"
proof -
  obtain parent where p: "node_at t (butlast p) = Some parent"
    using r by (auto simp: release_resource_def raw_release_resource_def split: if_splits bind_splits)
  have okp: "resource_ok parent" using node_at_ok [OF ok p] .
  show ?thesis
  proof (cases "last p < length (r_child parent)")
    case False
    then have "t' = t" using r p by (auto simp: release_resource_def raw_release_resource_def unlink_child_eq split: if_splits)
    then show ?thesis using ok by (simp add: same_tree_def)
  next
    case True
    define cs where "cs = take (last p) (r_child parent) @ drop (Suc (last p)) (r_child parent)"
    have t': "t' = update_at (butlast p) (\<lambda>r. with_child r cs) t"
      using r p True by (auto simp: release_resource_def raw_release_resource_def unlink_child_eq cs_def split: if_splits)
    have split: "r_child parent = take (last p) (r_child parent) @ r_child parent ! last p # drop (Suc (last p)) (r_child parent)"
      using True by (rule id_take_nth_drop)
    have "siblings_ok cs"
      using ok_children(1) [OF okp] by (subst (asm) split) (simp add: cs_def siblings_ok_append siblings_ok_Cons)
    moreover have "set cs \<subseteq> set (r_child parent)" by (auto simp: cs_def dest: in_set_takeD in_set_dropD)
    ultimately have "resource_ok (with_child parent cs)"
      using ok_children [OF okp] ok_range [OF okp] by (auto simp: resource_ok_with_child)
    then show ?thesis unfolding t' same_tree_def using update_at_ok [OF ok p] update_at_header [OF _ p] by simp
  qed
qed

lemma release_in_ok:
  "siblings_ok cs \<Longrightarrow> \<forall>c \<in> set cs. resource_ok c \<Longrightarrow> release_in s e cs = Some cs' \<Longrightarrow>
     siblings_ok cs' \<and> (\<forall>c \<in> set cs'. resource_ok c \<and> (\<exists>d \<in> set cs. r_start d = r_start c \<and> r_end d = r_end c))"
proof (induction s e cs arbitrary: cs' rule: release_in.induct)
  case (2 s e c cs)
  note prems = "2.prems"
  have oc: "resource_ok c" "siblings_ok cs" "\<forall>d \<in> set cs. resource_ok d" "\<forall>d \<in> set cs. r_end c < r_start d"
    using prems(1,2) by (auto simp: siblings_ok_Cons)
  show ?case
  proof (cases "r_start c \<le> s \<and> e \<le> r_end c")
    case enc: True
    show ?thesis
    proof (cases "is_busy c")
      case True
      then have "cs' = cs" using prems(3) enc by (auto split: if_splits)
      then show ?thesis using oc by auto
    next
      case False
      then obtain ds where ds: "release_in s e (r_child c) = Some ds" "cs' = with_child c ds # cs"
        using prems(3) enc by auto
      have "siblings_ok ds \<and> (\<forall>x \<in> set ds. resource_ok x \<and> (\<exists>d \<in> set (r_child c). r_start d = r_start x \<and> r_end d = r_end x))"
        using "2.IH"(1) [OF enc False] ok_children [OF oc(1)] ds(1) by blast
      then have "resource_ok (with_child c ds)"
        using ok_children(2) [OF oc(1)] ok_range [OF oc(1)] by (fastforce simp: resource_ok_with_child inside_def)
      then show ?thesis using oc by (auto simp: ds(2) siblings_ok_Cons)
    qed
  next
    case False
    then obtain ds where ds: "release_in s e cs = Some ds" "cs' = c # ds" using prems(3) by auto
    then have "siblings_ok ds \<and> (\<forall>x \<in> set ds. resource_ok x \<and> (\<exists>d \<in> set cs. r_start d = r_start x \<and> r_end d = r_end x))"
      using "2.IH"(2) [OF False] oc by blast
    then show ?thesis using oc by (fastforce simp: ds(2) siblings_ok_Cons)
  qed
qed simp

lemma release_region_keeps: "resource_ok t \<Longrightarrow> same_tree t (release_region t start n)"
proof -
  assume ok: "resource_ok t"
  show ?thesis
  proof (cases "release_in start (start + n - 1) (r_child t)")
    case (Some cs)
    have "siblings_ok cs \<and> (\<forall>c \<in> set cs. resource_ok c \<and> (\<exists>d \<in> set (r_child t). r_start d = r_start c \<and> r_end d = r_end c))"
      using release_in_ok [OF _ _ Some] ok_children [OF ok] by blast
    then have "resource_ok (with_child t cs)"
      using ok_children(2) [OF ok] ok_range [OF ok] by (fastforce simp: resource_ok_with_child inside_def)
    then show ?thesis by (simp add: release_region_def Some same_tree_def)
  qed (use ok in \<open>simp add: release_region_def same_tree_def\<close>)
qed

lemma insert_keeps:
  assumes "resource_ok t" "r_child new = []"
  shows "same_tree t (snd (insert_resource t new))"
  using insert_result [OF assms(1) _ assms(2)] assms(1)
  by (auto simp: insert_resource_def same_tree_def split: sum.splits)

lemma expand_keeps:
  assumes "resource_ok t" "r_child new = []"
  shows "same_tree t (fst (expand_to_fit t new))"
  using assms
proof (induction t new rule: expand_to_fit.induct)
  case (1 root new)
  show ?case
  proof (cases "raw_insert_resource root new")
    case (Inl q)
    show ?thesis
    proof (cases "q = []")
      case True
      then show ?thesis using Inl "1.prems"(1) by (subst expand_to_fit.simps) (simp add: same_tree_def)
    next
      case False
      show ?thesis using "1.IH" [OF Inl False refl refl refl "1.prems"(1)] Inl False "1.prems"(2)
        by (subst expand_to_fit.simps) (simp add: Let_def)
    qed
  next
    case (Inr qt)
    obtain q u where qt: "qt = (q, u)" by (cases qt)
    show ?thesis using insert_result [OF "1.prems"(1) Inr [unfolded qt] "1.prems"(2)] Inr qt
      by (subst expand_to_fit.simps) (simp add: same_tree_def)
  qed
qed

lemma adjust_keeps:
  assumes ok: "resource_ok t" and rng: "start \<le> start + sz - 1" and a: "adjust_resource t p start sz = Some (r, t')"
  shows "same_tree t t'"
proof -
  obtain parent c where p: "p \<noteq> []" "node_at t (butlast p) = Some parent" "node_at t p = Some c"
    using a by (auto simp: adjust_resource_def split: if_splits bind_splits)
  have pp: "p = butlast p @ [last p]" using p(1) by simp
  have "last p < length (r_child parent)"
    using p(2,3) by (subst (asm) pp) (auto simp: node_at_snoc split: if_splits)
  then obtain as bs where "r_child parent = as @ r_child parent ! last p # bs" "length as = last p"
    by (metis id_take_nth_drop length_take min.absorb4)
  then show ?thesis using adjust_outcome [OF ok p(2) _ rng] a pp by (fastforce simp: same_tree_def)
qed

lemma reserve_keeps:
  assumes "resource_ok t" "raw_reserve_region_with_split alloc t start fin name n = Some (t', n')"
  shows "same_tree t t'"
proof -
  have "resource_ok t \<longrightarrow> same_tree t (fst (t', n'))"
  proof (rule raw_reserve_region_with_split.raw_induct [OF _ assms(2),
        where P = "\<lambda>alloc t start fin name n r. resource_ok t \<longrightarrow> same_tree t (fst r)"], intro impI, goal_cases)
    case (1 rsv alloc root start fin name n r)
    note rec = 1(1) [rule_format]
    let ?new = "Resource start fin name IORESOURCE_BUSY []"
    show ?case
    proof (cases "raw_request_resource root ?new")
      case (Inl q)
      have same: "same_tree root root" using 1(3) by (simp add: same_tree_def)
      show ?thesis
      proof (cases "fst r = root")
        case False
        have al: "alloc n" using 1(2) False by (auto split: if_splits)
        obtain conflict where conflict: "node_at root q = Some conflict" using 1(2) Inl al by (cases "node_at root q") auto
        obtain root1 n1 where
            l: "(if r_start conflict > start then rsv alloc root start (r_start conflict - 1) name (Suc n)
                 else Some (root, Suc n)) = Some (root1, n1)"
          and r: "(if r_end conflict < fin then rsv alloc root1 (r_end conflict + 1) fin name n1 else Some (root1, n1)) = Some r"
          using 1(2) Inl al conflict False by (simp del: not_less split: if_split_asm) (auto simp: bind_eq_Some_conv)
        have l': "same_tree root root1" using l rec [OF _ 1(3), of _ _ _ _ _ "(root1, n1)"] same by (auto split: if_splits)
        then have "same_tree root1 (fst r)" using r rec [of _ root1] by (auto simp: same_tree_def split: if_splits)
        then show ?thesis using l' by (simp add: same_tree_def)
      qed (use same in simp)
    next
      case (Inr qt)
      obtain q u where qt: "qt = (q, u)" by (cases qt)
      then show ?thesis using request_keeps [OF 1(3) _ Inr [unfolded qt]] 1(2,3) Inr
        by (auto simp: same_tree_def split: if_splits)
    qed
  qed
  then show ?thesis using assms(1) by simp
qed

lemma region_keeps: "resource_ok t \<Longrightarrow> request_region alloc t start n name flags = Some (q, t') \<Longrightarrow> same_tree t t'"
  using region_loop_result [of t _ q t'] by (auto simp: request_region_def same_tree_def split: if_splits)

interpretation rcall: tree_call exec_resource_call call_allowed
proof
  fix c t t' assume a: "call_allowed c" "resource_ok t" "exec_resource_call c t = Some t'"
  show "same_tree t t'"
  proof (cases c)
    case (Call_Request new)
    then show ?thesis using a request_keeps [of t new]
      by (auto simp: request_resource_def same_tree_def split: sum.splits)
  next
    case (Call_Release p)
    then show ?thesis using a release_keeps by auto
  next
    case (Call_Allocate new sz mn mx align alignf)
    then show ?thesis using a allocate_keeps [of t new alignf] by auto
  next
    case (Call_Insert new)
    then show ?thesis using a insert_keeps by auto
  next
    case (Call_Expand new)
    then show ?thesis using a expand_keeps by (auto simp: insert_resource_expand_to_fit_def)
  next
    case (Call_Adjust p start sz)
    then show ?thesis using a adjust_keeps by auto
  next
    case (Call_Reserve alloc start fin name)
    then show ?thesis using a reserve_keeps by (auto simp: reserve_region_with_split_def)
  next
    case (Call_Request_Region alloc start n name flags)
    then show ?thesis using a region_keeps [of t alloc start n name flags] by (auto simp: same_tree_def split: option.splits)
  next
    case (Call_Check_Region alloc start n)
    then show ?thesis using a region_keeps [of t alloc start n] release_keeps
      by (fastforce simp: check_region_def same_tree_def split: option.splits bind_splits)
  next
    case (Call_Release_Region start n)
    then show ?thesis using a release_region_keeps by auto
  qed
qed


section \<open>Limits of the code\<close>

definition adjust_sample :: resource where
  "adjust_sample = Resource 0 0xFF ''bus'' 0 [Resource 0x10 0x1F ''dev'' 0 [], Resource 0x40 0x4F ''dev'' 0 []]"

text \<open>
  Adjusting does not look at the new size: a size of zero, or one that wraps around, is accepted and
  leaves a resource that ends before it starts.
\<close>

theorem adjust_accepts_empty:
  "resource_ok adjust_sample \<and>
   (\<exists>t. adjust_resource adjust_sample [0] 5 0 = Some (Inr (), t) \<and> \<not> resource_ok t) \<and>
   (\<exists>t. adjust_resource adjust_sample [0] 0x20 0xFFFFFFF0 = Some (Inr (), t) \<and> \<not> resource_ok t)"
  by (simp add: adjust_sample_def adjust_resource_def adjust_fits_def with_child_def with_range_def
      siblings_ok_Cons Let_def)

definition wrap_sample :: resource where
  "wrap_sample = Resource 0 (- 1) ''PCI mem'' IORESOURCE_MEM [Resource 0x1000 0xFFFFEFFF ''bus'' 0 []]"

text \<open>
  Near the end of the address space the alignment wraps around to address zero, and allocation
  returns a range below the minimum it was given.
\<close>

theorem allocate_wraps_below_min:
  "\<exists>t new. allocate_resource wrap_sample (Resource 0 0 ''dev'' 0 []) 0x1000 0x10 (- 1) 0x2000 None = (Inr (), t, new) \<and>
     r_start new = 0 \<and> r_end new = 0xFFF"
  by (simp add: wrap_sample_def allocate_resource_def find_resource_def find_gap.simps gap_before_def ALIGN_def
      with_range_def raw_request_resource_def Let_def)

end
