(* ===== verification/Resource_Walk.thy ===== *)
theory Resource_Walk
  imports Resource_Claims
begin

text \<open>
  The loops that only read a tree of resources: the walk by \<open>r_next\<close>, the checks of mappings built on
  it, and the walk over the ranges of system memory.
\<close>

section \<open>Walking the tree\<close>

text \<open>Following \<open>r_next\<close> from a pointer visits the listed resources and arrives at another pointer.\<close>

fun visits :: "resource \<Rightarrow> rpath option \<Rightarrow> resource list \<Rightarrow> rpath option \<Rightarrow> bool" where
  "visits root p [] p' \<longleftrightarrow> p' = p"
| "visits root p (r # rs) p' \<longleftrightarrow>
     (case p of None \<Rightarrow> False | Some q \<Rightarrow> node_at root q = Some r \<and> visits root (r_next root q) rs p')"

lemma visits_append: "visits root p xs p' \<Longrightarrow> visits root p' ys p'' \<Longrightarrow> visits root p (xs @ ys) p''"
  by (induction xs arbitrary: p) (auto split: option.splits)

lemma next_up_snoc:
  assumes "node_at root p = Some r"
  shows "next_up root (p @ [i]) = (if Suc i < length (r_child r) then Some (p @ [Suc i]) else next_up root p)"
  using assms by (subst next_up.simps) simp

lemma node_at_child: "node_at root p = Some r \<Longrightarrow> i < length (r_child r) \<Longrightarrow> node_at root (p @ [i]) = Some (r_child r ! i)"
  by (induction p arbitrary: root) (auto split: if_splits)

lemma visits_children:
  assumes r: "node_at root p = Some r" and i: "i < length (r_child r)"
    and sub: "\<And>j. j < length (r_child r) \<Longrightarrow>
       visits root (Some (p @ [j])) (r_child r ! j # descs (r_child r ! j)) (next_up root (p @ [j]))"
  shows "visits root (Some (p @ [i])) (concat (map (\<lambda>c. c # descs c) (drop i (r_child r)))) (next_up root p)"
  using i
proof (induction "length (r_child r) - i" arbitrary: i rule: less_induct)
  case less
  have d: "concat (map (\<lambda>c. c # descs c) (drop i (r_child r))) =
      (r_child r ! i # descs (r_child r ! i)) @ concat (map (\<lambda>c. c # descs c) (drop (Suc i) (r_child r)))"
    using less.prems by (simp add: Cons_nth_drop_Suc [symmetric])
  show ?case
  proof (cases "Suc i < length (r_child r)")
    case True
    have "visits root (next_up root (p @ [i])) (concat (map (\<lambda>c. c # descs c) (drop (Suc i) (r_child r)))) (next_up root p)"
      using less.hyps [of "Suc i"] True by (simp add: next_up_snoc [OF r])
    then show ?thesis unfolding d by (rule visits_append [OF sub [OF less.prems]])
  next
    case False
    then have "drop (Suc i) (r_child r) = []" "next_up root (p @ [i]) = next_up root p" by (simp_all add: next_up_snoc [OF r])
    then show ?thesis unfolding d using sub [OF less.prems] by simp
  qed
qed

lemma visits_subtree:
  "node_at root p = Some r \<Longrightarrow> visits root (Some p) (r # descs r) (next_up root p)"
proof (induction r arbitrary: p rule: measure_induct_rule [of size])
  case (less r)
  show ?case
  proof (cases "r_child r = []")
    case True
    then show ?thesis using less.prems by (simp add: r_next_def descs_child [of r])
  next
    case False
    have "visits root (Some (p @ [0])) (concat (map (\<lambda>c. c # descs c) (drop 0 (r_child r)))) (next_up root p)"
      using less.IH child_size node_at_child [OF less.prems] False by (intro visits_children [OF less.prems]) auto
    then show ?thesis using less.prems False by (simp add: r_next_def descs_child [of r])
  qed
qed

lemma visits_all: "visits root (first_child root) (descs root) None"
proof -
  have "visits root (Some []) (root # descs root) (next_up root [])" by (rule visits_subtree) simp
  then have "visits root (r_next root []) (descs root) None" by (simp add: next_up.simps [of root "[]"])
  moreover have "r_next root [] = first_child root"
    by (simp add: r_next_def first_child_def next_up.simps [of root "[]"])
  ultimately show ?thesis by simp
qed

lemma visits_seq:
  "visits root p rs None \<Longrightarrow>
     (case r_start_loop root p pos of
        None \<Rightarrow> length rs \<le> pos
      | Some q \<Rightarrow> pos < length rs \<and> node_at root q = Some (rs ! pos))"
proof (induction rs arbitrary: p pos)
  case (Cons r rs)
  obtain q where q: "p = Some q" "node_at root q = Some r" "visits root (r_next root q) rs None"
    using Cons.prems by (auto split: option.splits)
  show ?case
  proof (cases pos)
    case (Suc k)
    then show ?thesis using Cons.IH [OF q(3), of k] q(1) by (simp split: option.splits)
  qed (use q in simp)
qed (cases pos; simp)

text \<open>
  The walk by \<open>r_next\<close>, which \<open>/proc/iomem\<close> and the checks of mappings use, ends on every tree; its
  positions are exactly the resources below the root, each once, in the order of the tree.
\<close>

theorem r_next_lists_tree:
  "case r_seq_start root pos of
     None \<Rightarrow> length (descs root) \<le> pos
   | Some q \<Rightarrow> pos < length (descs root) \<and> node_at root q = Some (descs root ! pos)"
  unfolding r_seq_start_def by (rule visits_seq [OF visits_all])

fun first_some :: "('a \<Rightarrow> 'v option) \<Rightarrow> 'a list \<Rightarrow> 'v option" where
  "first_some f [] = None"
| "first_some f (x # xs) = (case f x of Some v \<Rightarrow> Some v | None \<Rightarrow> first_some f xs)"

lemma scan_visits: "visits root p rs None \<Longrightarrow> resource_scan root body p = Some (first_some body rs)"
proof (induction rs arbitrary: p)
  case Nil
  then show ?case by (subst resource_scan.simps) simp
next
  case (Cons r rs)
  then show ?case by (subst resource_scan.simps) (auto split: option.splits)
qed

lemma scan_all: "resource_scan root body (first_child root) = Some (first_some body (descs root))"
  by (rule scan_visits [OF visits_all])

lemma first_some_const:
  "(\<And>x v. f x = Some v \<Longrightarrow> v = c) \<Longrightarrow> first_some f xs = (if \<exists>x \<in> set xs. f x \<noteq> None then Some c else None)"
  by (induction xs) (auto split: option.splits)

text \<open>
  The sanity check of a mapping ends and reports a conflict exactly when some resource of the tree
  that is not busy meets the mapping without containing all of its pages.
\<close>

theorem iomem_map_sanity_check_exact:
  "iomem_map_sanity_check iomem addr sz =
     Some (if \<exists>d \<in> set (descs iomem). \<not> is_busy d \<and> r_start d < addr + sz \<and> addr \<le> r_end d \<and>
               \<not> (PFN_DOWN (r_start d) \<le> PFN_DOWN addr \<and> PFN_DOWN (addr + sz - 1) \<le> PFN_DOWN (r_end d))
           then - 1 else 0)"
proof -
  define P where "P d \<longleftrightarrow> \<not> is_busy d \<and> r_start d < addr + sz \<and> addr \<le> r_end d \<and>
      \<not> (PFN_DOWN (r_start d) \<le> PFN_DOWN addr \<and> PFN_DOWN (addr + sz - 1) \<le> PFN_DOWN (r_end d))" for d
  have c: "map_check addr sz d \<noteq> None \<longleftrightarrow> P d" for d by (auto simp: map_check_def P_def)
  have "first_some (map_check addr sz) (descs iomem) = (if \<exists>d \<in> set (descs iomem). map_check addr sz d \<noteq> None then Some (- 1) else None)"
    by (rule first_some_const) (auto simp: map_check_def split: if_splits)
  then show ?thesis unfolding iomem_map_sanity_check_def scan_all c P_def [symmetric] by simp
qed

lemma starts_sorted: "resource_ok r \<Longrightarrow> sorted (map r_start (descs r))"
proof (induction r rule: resource_ok.induct)
  case (1 s e n f cs)
  have "sorted (map r_start (concat (map (\<lambda>c. c # descs c) ds)))" if "set ds \<subseteq> set cs" "siblings_ok ds" for ds
    using that
  proof (induction ds)
    case (Cons d ds)
    have d: "resource_ok d" "d \<in> set cs" using "1.prems" Cons.prems(1) by auto
    have "sorted (map r_start (d # descs d))"
      using "1.IH" [OF d(2,1)] desc_ok [OF d(1)] by (auto simp: inside_def)
    moreover have "r_start x \<le> r_start y" if x: "x \<in> set (d # descs d)" and y: "y \<in> set (concat (map (\<lambda>c. c # descs c) ds))" for x y
    proof -
      obtain c where c: "c \<in> set ds" "y = c \<or> y \<in> set (descs c)" using y by auto
      have okc: "resource_ok c" "r_end d < r_start c" using "1.prems" Cons.prems c(1) by (auto simp: siblings_ok_Cons)
      have "r_start x \<le> r_end x" "r_end x \<le> r_end d" using x d(1) desc_ok [OF d(1), of x] ok_range by (auto simp: inside_def)
      moreover have "r_start c \<le> r_start y" using c(2) desc_ok [OF okc(1), of y] by (auto simp: inside_def)
      ultimately show ?thesis using okc(2) by (meson less_imp_le order_trans)
    qed
    ultimately show ?case using Cons.IH Cons.prems by (auto simp: sorted_append siblings_ok_Cons)
  qed simp
  then show ?case using "1.prems" by simp
qed

lemma ucast_mono_64: "(ucast (a :: u32) :: 64 word) \<le> ucast b \<longleftrightarrow> a \<le> b"
proof -
  have "unat (ucast w :: 64 word) = unat w" for w :: u32
    using unat_lt_2_32 [of w] by (simp add: unsigned_ucast_eq take_bit_nat_eq_self_iff)
  then show ?thesis by (simp add: word_le_nat_alt)
qed

text \<open>
  With strict checking, an address is reported as exclusive exactly when a busy exclusive resource
  meets its page: the walk that stops at the first resource behind the page misses none.
\<close>

theorem iomem_is_exclusive_exact:
  assumes "resource_ok iomem"
  shows "iomem_is_exclusive strict iomem addr =
     Some (if strict \<and> (\<exists>d \<in> set (descs iomem). is_busy d \<and> r_flags d AND IORESOURCE_EXCLUSIVE \<noteq> 0 \<and>
                          ucast (r_start d) < (addr AND 0xFFFFF000) + 0x1000 \<and> (addr AND 0xFFFFF000) \<le> ucast (r_end d))
           then 1 else 0)"
proof -
  define page where "page = addr AND 0xFFFFF000"
  let ?hit = "\<lambda>d. is_busy d \<and> r_flags d AND IORESOURCE_EXCLUSIVE \<noteq> 0 \<and> ucast (r_start d) < page + 0x1000 \<and> page \<le> ucast (r_end d)"
  have "(case first_some (exclusive_check page) ds of Some v \<Rightarrow> v | None \<Rightarrow> 0) = (if \<exists>d \<in> set ds. ?hit d then 1 else 0)"
    if "sorted (map r_start ds)" for ds
    using that
  proof (induction ds)
    case (Cons d ds)
    show ?case
    proof (cases "ucast (r_start d) \<ge> page + 0x1000")
      case True
      have "\<not> ?hit x" if "x \<in> set (d # ds)" for x
      proof -
        have "r_start d \<le> r_start x" using that Cons.prems by auto
        then have "(ucast (r_start d) :: 64 word) \<le> ucast (r_start x)" by (simp add: ucast_mono_64)
        then show ?thesis using True by (meson not_le order_trans)
      qed
      moreover have "first_some (exclusive_check page) (d # ds) = Some 0" using True by (simp add: exclusive_check_def)
      ultimately show ?thesis by auto
    next
      case False
      then show ?thesis using Cons by (auto simp: exclusive_check_def)
    qed
  qed simp
  from this [OF starts_sorted [OF assms]] show ?thesis
    by (simp add: iomem_is_exclusive_def scan_all page_def)
qed

section \<open>System memory\<close>

definition is_ram :: "resource \<Rightarrow> bool" where
  "is_ram p \<longleftrightarrow> r_flags p = IORESOURCE_MEM OR IORESOURCE_BUSY \<and> r_name p = ''System RAM''"

abbreviation next_system_ram :: "u32 \<Rightarrow> u32 \<Rightarrow> resource list \<Rightarrow> resource option" where
  "next_system_ram a fin \<equiv> next_ram (IORESOURCE_MEM OR IORESOURCE_BUSY) a fin ''System RAM''"

text \<open>The parts of a range that are system memory, and the calls for them up to the first error.\<close>

definition clip :: "u32 \<Rightarrow> u32 \<Rightarrow> resource \<Rightarrow> u32 \<times> u32" where
  "clip a fin p = (max a (r_start p), min fin (r_end p))"

definition ram_hit :: "u32 \<Rightarrow> u32 \<Rightarrow> resource \<Rightarrow> bool" where
  "ram_hit a fin p \<longleftrightarrow> is_ram p \<and> a \<le> r_end p \<and> r_start p < fin"

definition ram_pieces :: "u32 \<Rightarrow> u32 \<Rightarrow> resource list \<Rightarrow> (u32 \<times> u32) list" where
  "ram_pieces a fin cs = map (clip a fin) (filter (ram_hit a fin) cs)"

fun ram_calls :: "(u32 \<Rightarrow> u32 \<Rightarrow> 's \<Rightarrow> int \<times> 's) \<Rightarrow> (u32 \<times> u32) list \<Rightarrow> int \<Rightarrow> 's \<Rightarrow> int \<times> 's" where
  "ram_calls func [] ret s = (ret, s)"
| "ram_calls func ((a, b) # rest) ret s =
     (case func (drop_bit 12 a) (drop_bit 12 (b + 1 - a)) s of
        (ret', s') \<Rightarrow> if ret' \<noteq> 0 then (ret', s') else ram_calls func rest ret' s')"

lemma next_ram_cases:
  assumes "siblings_ok cs" "\<forall>c \<in> set cs. r_start c \<le> r_end c"
  obtains (none) "next_system_ram a fin cs = None" "filter (ram_hit a fin) cs = []"
  | (some) xs p ys where "next_system_ram a fin cs = Some p" "cs = xs @ p # ys" "filter (ram_hit a fin) xs = []" "ram_hit a fin p"
  using assms
proof (induction cs arbitrary: thesis)
  case (Cons c cs)
  have ok: "siblings_ok cs" "\<forall>c \<in> set cs. r_start c \<le> r_end c" "r_start c \<le> r_end c" "\<forall>d \<in> set cs. r_end c < r_start d"
    using Cons.prems by (auto simp: siblings_ok_Cons)
  consider (hit) "ram_hit a fin c" | (late) "is_ram c" "fin < r_start c"
    | (skip) "\<not> ram_hit a fin c" "\<not> (is_ram c \<and> fin < r_start c)" by blast
  then show ?case
  proof cases
    case hit
    then have "next_system_ram a fin (c # cs) = Some c" by (auto simp: ram_hit_def is_ram_def)
    then show ?thesis using Cons.prems(2) [of c "[]" cs] hit by simp
  next
    case late
    have "\<not> ram_hit a fin d" if "d \<in> set (c # cs)" for d
      using that late(2) ok(3,4) by (fastforce simp: ram_hit_def)
    moreover have "next_system_ram a fin (c # cs) = None" using late by (auto simp: is_ram_def)
    ultimately show ?thesis using Cons.prems(1) by (simp add: filter_empty_conv)
  next
    case skip
    have nx: "next_system_ram a fin (c # cs) = next_system_ram a fin cs" using skip by (auto simp: ram_hit_def is_ram_def)
    show ?thesis
    proof (rule Cons.IH [OF _ _ ok(1,2)])
      assume "next_system_ram a fin cs = None" "filter (ram_hit a fin) cs = []"
      then show thesis using Cons.prems(1) nx skip(1) by simp
    next
      fix p xs ys assume "next_system_ram a fin cs = Some p" "cs = xs @ p # ys" "filter (ram_hit a fin) xs = []" "ram_hit a fin p"
      then show thesis using Cons.prems(2) [of p "c # xs" ys] nx skip(1) by simp
    qed
  qed
qed simp

text \<open>The pieces after the first one are the pieces of the range behind it.\<close>

lemma ram_pieces_step:
  assumes sib: "siblings_ok (xs @ p # ys)" "\<forall>c \<in> set (xs @ p # ys). r_start c \<le> r_end c"
    and xs: "filter (ram_hit a fin) xs = []" and p: "ram_hit a fin p" and lt: "min fin (r_end p) < u" "a < fin"
  shows "ram_pieces a fin (xs @ p # ys) = clip a fin p #
      (if min fin (r_end p) + 1 < fin then ram_pieces (min fin (r_end p) + 1) fin (xs @ p # ys) else [])"
    and "a < min fin (r_end p) + 1"
proof -
  let ?a = "min fin (r_end p) + 1"
  have succ: "?a \<le> x \<longleftrightarrow> min fin (r_end p) < x" for x using succ_le_iff [OF lt(1)] .
  show a: "a < ?a"
  proof -
    have "a \<le> min fin (r_end p)" using p lt(2) by (auto simp: ram_hit_def)
    also have "\<dots> < ?a" using succ [of ?a] by simp
    finally show ?thesis .
  qed
  have behind: "r_end p < r_start y" "r_start y \<le> r_end y" if "y \<in> set ys" for y
    using that sib by (auto simp: siblings_ok_append siblings_ok_Cons)
  have y: "ram_hit ?a fin y \<longleftrightarrow> ram_hit a fin y" "ram_hit a fin y \<Longrightarrow> clip ?a fin y = clip a fin y" if "y \<in> set ys" for y
  proof -
    have lo: "a \<le> r_end y" "?a \<le> r_start y \<or> \<not> r_start y < fin"
      using behind [OF that] p succ [of "r_start y"] by (auto simp: ram_hit_def min_def)
    then show "ram_hit ?a fin y \<longleftrightarrow> ram_hit a fin y" using behind [OF that] by (auto simp: ram_hit_def)
    show "clip ?a fin y = clip a fin y" if "ram_hit a fin y"
      using that lo a by (auto simp: clip_def ram_hit_def max_def)
  qed
  have tail: "ram_pieces a fin ys = ram_pieces ?a fin ys"
    using y by (auto simp: ram_pieces_def cong: filter_cong)
  have whole: "ram_pieces a fin (xs @ p # ys) = clip a fin p # ram_pieces a fin ys"
    using xs p by (simp add: ram_pieces_def)
  have px: "\<not> ram_hit ?a fin x" if "x \<in> set xs" for x
    using xs that a by (auto simp: filter_empty_conv ram_hit_def)
  have "ram_pieces ?a fin (xs @ p # ys) = ram_pieces ?a fin ys" if "?a < fin"
  proof -
    have "\<not> ram_hit ?a fin p" using succ [of "r_end p"] succ [of fin] that by (auto simp: ram_hit_def min_def split: if_splits)
    then show ?thesis using px by (simp add: ram_pieces_def filter_empty_conv)
  qed
  moreover have "ram_pieces a fin ys = []" if n: "\<not> ?a < fin"
  proof -
    have "\<not> ram_hit a fin y" if "y \<in> set ys" for y
      using behind [OF that] n succ [of "r_start y"] by (auto simp: ram_hit_def min_def split: if_splits)
    then show ?thesis by (simp add: ram_pieces_def filter_empty_conv)
  qed
  ultimately show "ram_pieces a fin (xs @ p # ys) = clip a fin p #
      (if ?a < fin then ram_pieces ?a fin (xs @ p # ys) else [])"
    using whole tail by (cases "?a < fin") simp_all
qed

lemma find_ram:
  assumes "a < fin"
  shows "find_next_system_ram iomem (IORESOURCE_MEM OR IORESOURCE_BUSY) (a, fin) ''System RAM'' =
    Some (case next_system_ram a fin (r_child iomem) of None \<Rightarrow> Inl EPERM | Some p \<Rightarrow> Inr (clip a fin p))"
  using assms by (auto simp: find_next_system_ram_def clip_def max_def min_def split: option.splits)

lemma ram_loop_calls:
  assumes ok: "resource_ok iomem" and nowrap: "\<forall>c \<in> set (r_child iomem). is_ram c \<longrightarrow> r_start c < fin \<longrightarrow> min fin (r_end c) < - 1"
  shows "a < fin \<Longrightarrow> ram_loop iomem func fin (a, fin) ret s = Some (ram_calls func (ram_pieces a fin (r_child iomem)) ret s)"
proof (induction "2 ^ 32 - unat a" arbitrary: a ret s rule: less_induct)
  case less
  note kids = ok_children [OF ok]
  show ?case
  proof (cases rule: next_ram_cases [OF kids(1,3), of a fin, case_names none some])
    case none
    then show ?thesis using less.prems by (subst ram_loop.simps) (simp add: find_ram ram_pieces_def)
  next
    case (some xs p ys)
    have top: "min fin (r_end p) < - 1" using nowrap some(2,4) by (auto simp: ram_hit_def)
    let ?a = "min fin (r_end p) + 1"
    note step = ram_pieces_step [OF kids(1,3) [unfolded some(2)] some(3,4) top less.prems]
    obtain r' s' where f: "func (drop_bit 12 (max a (r_start p))) (drop_bit 12 (min fin (r_end p) + 1 - max a (r_start p))) s = (r', s')"
      by (cases "func (drop_bit 12 (max a (r_start p))) (drop_bit 12 (min fin (r_end p) + 1 - max a (r_start p))) s")
    have loop: "ram_loop iomem func fin (a, fin) ret s = (if r' \<noteq> 0 then Some (r', s') else ram_loop iomem func fin (?a, fin) r' s')"
      using less.prems some(1) f by (subst ram_loop.simps) (simp add: find_ram clip_def)
    have calls: "ram_calls func (ram_pieces a fin (r_child iomem)) ret s =
        (if r' \<noteq> 0 then (r', s') else ram_calls func (if ?a < fin then ram_pieces ?a fin (r_child iomem) else []) r' s')"
      unfolding some(2) step(1) using f by (simp add: clip_def)
    have "ram_loop iomem func fin (?a, fin) r' s' =
        Some (ram_calls func (if ?a < fin then ram_pieces ?a fin (r_child iomem) else []) r' s')"
    proof (cases "?a < fin")
      case True
      have "2 ^ 32 - unat ?a < 2 ^ 32 - unat a"
        using step(2) unat_lt_2_32 [of ?a] by (simp add: word_less_nat_alt)
      from less.hyps [OF this True] True show ?thesis by simp
    next
      case False
      then show ?thesis by (subst ram_loop.simps) simp
    qed
    then show ?thesis unfolding loop calls by (cases "r' = 0") (simp_all only: if_True if_False simp_thms)
  qed
qed

lemma ram_loop_stuck:
  assumes ok: "resource_ok iomem" and c: "c \<in> set (r_child iomem)" "is_ram c" "r_end c = - 1" "r_start c < - 1"
    and f: "\<forall>a n s. fst (func a n s) = 0" and loop: "ram_loop iomem func (- 1) (a, - 1) ret s = Some y"
  shows "\<not> a < - 1"
proof -
  have "(\<forall>a n s. fst (func' a n s) = 0) \<longrightarrow> io = iomem \<longrightarrow> fin = - 1 \<longrightarrow> snd res = - 1 \<longrightarrow> \<not> fst res < - 1"
    if "ram_loop io func' fin res ret s = Some y" for io func' fin res ret s
  proof (rule ram_loop.raw_induct [OF _ that, where P = "\<lambda>io func fin res ret s y.
        (\<forall>a n s. fst (func a n s) = 0) \<longrightarrow> io = iomem \<longrightarrow> fin = - 1 \<longrightarrow> snd res = - 1 \<longrightarrow> \<not> fst res < - 1"],
      intro impI notI, goal_cases)
    case (1 rec io func fin res ret s y)
    note kids = ok_children [OF ok]
    obtain a where a: "res = (a, - 1)" using 1(6) by (cases res) auto
    have io: "io = iomem" "fin = - 1" "a < - 1" using 1 a by auto
    have "ram_hit a (- 1) c" using c(2-4) by (simp add: ram_hit_def)
    then obtain xs p ys where p: "next_system_ram a (- 1) (r_child iomem) = Some p" "r_child iomem = xs @ p # ys" "ram_hit a (- 1) p"
      using c(1) by (cases rule: next_ram_cases [OF kids(1,3), of a "- 1"]) (auto simp: filter_empty_conv)
    have "fst (func (drop_bit 12 (max a (r_start p))) (drop_bit 12 (r_end p + 1 - max a (r_start p))) s) = 0" using 1(3) by blast
    then obtain s' where "func (drop_bit 12 (max a (r_start p))) (drop_bit 12 (r_end p + 1 - max a (r_start p))) s = (0, s')"
      by (metis prod.collapse)
    then have "rec iomem func (- 1) (r_end p + 1, - 1) 0 s' = Some y"
      using 1(2) a io p(1) by (simp add: find_ram clip_def)
    from 1(1) [rule_format, OF this 1(3) [rule_format] refl refl] have "\<not> r_end p + 1 < - 1" by simp
    moreover have "r_end p + 1 < - 1"
    proof (cases "r_end p = - 1")
      case False
      then have "p \<noteq> c" using c(3) by auto
      then have "r_end p < r_start c" using c(1) kids(1) False c(3) kids(3)
        by (auto simp: p(2) siblings_ok_append siblings_ok_Cons)
      then have "r_end p + 1 \<le> r_start c" using succ_le_iff by blast
      then show ?thesis using c(4) by simp
    qed (use le_less_trans [OF word_zero_le c(4)] in simp)
    ultimately show False by blast
  qed
  from this [OF loop] f show ?thesis by auto
qed

text \<open>
  C29. The walk over system memory returns, for a callback that never fails, exactly when no memory
  that it reaches ends at the last address; then, for every callback, it calls it for each piece of
  system memory in the range, in order and up to the first error.
\<close>

theorem walk_system_ram_range_exact:
  assumes ok: "resource_ok iomem"
    and s: "start = ucast (push_bit 12 (ucast start_pfn :: 64 word))"
    and e: "fin = ucast (push_bit 12 (ucast (start_pfn + nr_pages) :: 64 word) - 1)" and lt: "start < fin"
  shows "((\<exists>y. walk_system_ram_range iomem start_pfn nr_pages (\<lambda>_ _ s. (0, s)) st = Some y) \<longleftrightarrow>
           \<not> (fin = - 1 \<and> (\<exists>c \<in> set (r_child iomem). is_ram c \<and> r_start c < - 1 \<and> r_end c = - 1))) \<and>
         (\<not> (fin = - 1 \<and> (\<exists>c \<in> set (r_child iomem). is_ram c \<and> r_start c < - 1 \<and> r_end c = - 1)) \<longrightarrow>
           walk_system_ram_range iomem start_pfn nr_pages func st =
             Some (ram_calls func (ram_pieces start fin (r_child iomem)) (- 1) st))"
proof -
  let ?wraps = "fin = - 1 \<and> (\<exists>c \<in> set (r_child iomem). is_ram c \<and> r_start c < - 1 \<and> r_end c = - 1)"
  have w: "walk_system_ram_range iomem start_pfn nr_pages f x = ram_loop iomem f fin (start, fin) (- 1) x" for f x
    by (simp add: walk_system_ram_range_def s e Let_def)
  have max: "x < - 1 \<longleftrightarrow> x \<noteq> - 1" for x :: u32
    using word_order.not_eq_extremum by blast
  have "min fin (r_end c) < - 1" if "\<not> ?wraps" "c \<in> set (r_child iomem)" "is_ram c" "r_start c < fin" for c
  proof -
    have "fin \<noteq> - 1 \<or> r_end c \<noteq> - 1" using that by blast
    then show ?thesis unfolding max [symmetric] by (simp add: min_less_iff_disj)
  qed
  then have runs: "walk_system_ram_range iomem start_pfn nr_pages f x = Some (ram_calls f (ram_pieces start fin (r_child iomem)) (- 1) x)"
    if "\<not> ?wraps" for f x
    unfolding w using that by (intro ram_loop_calls [OF ok _ lt]) blast
  have stuck: "\<nexists>y. walk_system_ram_range iomem start_pfn nr_pages (\<lambda>_ _ s. (0, s)) st = Some y" if "?wraps"
    unfolding w using that ram_loop_stuck [OF ok, of _ "\<lambda>_ _ s. (0, s)" start "- 1" st] lt by auto
  show ?thesis
  proof (cases ?wraps)
    case True
    show ?thesis using stuck [OF True] True by blast
  next
    case False
    show ?thesis unfolding runs [OF False] using False by blast
  qed
qed

end
