(* ===== verification/Resource_Samples.thy ===== *)
theory Resource_Samples
  imports Resource_Space Resource_Walk
begin

text \<open>A small tree of resources, on which the properties of the resource theories apply.\<close>

definition sample_io :: resource where
  "sample_io = Resource 0 0xFFFF ''PCI mem'' IORESOURCE_MEM
     [Resource 0x100 0x1FF ''bus'' IORESOURCE_MEM [Resource 0x120 0x12F ''uart'' IORESOURCE_BUSY []],
      Resource 0x400 0x4FF ''rtc'' IORESOURCE_BUSY []]"

lemma sample_io_ok: "resource_ok sample_io"
  by (simp add: sample_io_def siblings_ok_Cons)

lemma sample_descs:
  "descs sample_io =
     [Resource 0x100 0x1FF ''bus'' IORESOURCE_MEM [Resource 0x120 0x12F ''uart'' IORESOURCE_BUSY []],
      Resource 0x120 0x12F ''uart'' IORESOURCE_BUSY [], Resource 0x400 0x4FF ''rtc'' IORESOURCE_BUSY []]"
  by (simp add: sample_io_def)

lemma sample_fields: "r_start sample_io = 0" "r_end sample_io = 0xFFFF"
  by (simp_all add: sample_io_def)

lemmas sample_eval = sample_descs sample_fields encloses_def inside_def meets_def clashes_def is_busy_def
  IORESOURCE_BUSY_def IORESOURCE_MEM_def

theorem request_region_exact_witness:
  "request_region True sample_io 0x140 0x10 ''dev'' 0 \<noteq> None \<and> request_region True sample_io 0x128 0x10 ''dev'' 0 = None"
  using request_region_exact [OF sample_io_ok, of "0x140" "0x10" "''dev''" 0, THEN conjunct1]
    request_region_exact [OF sample_io_ok, of "0x128" "0x10" "''dev''" 0, THEN conjunct1]
  by (simp add: sample_eval del: not_None_eq)

lemma sample_request: "request_region True sample_io 0x140 0x10 ''dev'' 0 \<noteq> None"
  using region_loop_exact [OF sample_io_ok, of "Resource 0x140 0x14F ''dev'' IORESOURCE_BUSY []"]
  by (simp add: request_region_def) (simp add: sample_eval)


theorem insert_resource_exact_witness:
  "fst (insert_resource sample_io (Resource 0x80 0x2FF ''bridge'' 0 [])) = Inr () \<and>
   insert_resource sample_io (Resource 0x180 0x2FF ''bridge'' 0 []) = (Inl EBUSY, sample_io)"
  using insert_resource_exact [OF sample_io_ok, of "Resource 0x80 0x2FF ''bridge'' 0 []"]
    insert_resource_exact [OF sample_io_ok, of "Resource 0x180 0x2FF ''bridge'' 0 []"]
  by (cases "insert_resource sample_io (Resource 0x180 0x2FF ''bridge'' 0 [])") (auto simp: sample_eval split: sum.splits)

theorem expand_to_fit_least_witness:
  "\<exists>t new'. insert_resource_expand_to_fit sample_io False (Resource 0x180 0x2FF ''bridge'' 0 []) = (t, new') \<and>
     r_start new' = 0x100 \<and> r_end new' = 0x2FF"
proof -
  obtain t new' where e: "insert_resource_expand_to_fit sample_io False (Resource 0x180 0x2FF ''bridge'' 0 []) = (t, new')"
      "r_start new' \<le> 0x180" "0x2FF \<le> r_end new'" "\<forall>d \<in> set (descs sample_io). \<not> clashes (r_start new') (r_end new') d"
      "\<forall>s e. s \<le> 0x180 \<and> 0x2FF \<le> e \<and> (\<forall>d \<in> set (descs sample_io). \<not> clashes s e d) \<longrightarrow> s \<le> r_start new' \<and> r_end new' \<le> e"
    using expand_to_fit_least [OF sample_io_ok, of "Resource 0x180 0x2FF ''bridge'' 0 []"] by (auto simp: sample_fields encloses_def)
  have "\<not> clashes 0x100 0x2FF d" if "d \<in> set (descs sample_io)" for d
    using that by (auto simp: sample_descs clashes_def meets_def encloses_def inside_def)
  then have "0x100 \<le> r_start new'" "r_end new' \<le> 0x2FF" using e(5) [rule_format, of "0x100" "0x2FF"] by auto
  moreover have "r_start new' \<le> 0x100"
  proof (rule ccontr)
    assume "\<not> r_start new' \<le> 0x100"
    moreover have "0x100 \<le> r_end new'" by (rule order_trans [OF _ e(3)]) simp
    moreover have "r_start new' \<le> 0x1FF" by (rule order_trans [OF e(2)]) simp
    moreover have "\<not> r_end new' \<le> 0x1FF" using order_trans [OF e(3), of "0x1FF"] by auto
    ultimately have "clashes (r_start new') (r_end new') (hd (descs sample_io))"
      by (auto simp: sample_descs clashes_def meets_def encloses_def inside_def)
    then show False using e(4) by (simp add: sample_descs)
  qed
  ultimately show ?thesis using e(1,3) by (intro exI [of _ t] exI [of _ new']) simp
qed


theorem reserve_region_terminates_witness:
  "\<exists>t. reserve_region_with_split (\<lambda>_. True) sample_io 0x80 0x2FF ''reserved'' = Some t \<and> covered (r_child t) 0x90"
  using reserve_region_terminates [OF sample_io_ok, of "0x80" "0x2FF" "''reserved''" "\<lambda>_. True"]
  by (auto simp: sample_eval)

theorem adjust_resource_exact_witness:
  "\<exists>t. adjust_resource sample_io [1] 0x300 0x200 = Some (Inr (), t) \<and> resource_ok t"
  using adjust_resource_exact [OF sample_io_ok, of "[]" sample_io
      "[Resource 0x100 0x1FF ''bus'' IORESOURCE_MEM [Resource 0x120 0x12F ''uart'' IORESOURCE_BUSY []]]"
      "Resource 0x400 0x4FF ''rtc'' IORESOURCE_BUSY []" "[]" "0x300" "0x200"]
  by (auto simp: sample_fields encloses_def) (auto simp: sample_io_def)


theorem iomem_is_exclusive_exact_witness:
  "iomem_is_exclusive True sample_io 0x410 = Some 0"
  using iomem_is_exclusive_exact [OF sample_io_ok, of True "0x410"]
  by (simp add: sample_eval IORESOURCE_EXCLUSIVE_def)

definition sample_ram :: resource where
  "sample_ram = Resource 0 (- 1) ''PCI mem'' IORESOURCE_MEM
     [Resource 0x30000000 0x3FFFFFFF ''System RAM'' (IORESOURCE_MEM OR IORESOURCE_BUSY) []]"

theorem walk_system_ram_range_exact_witness:
  "walk_system_ram_range sample_ram 0 0x38000 (\<lambda>pfn n s. (0, s @ [(pfn, n)])) [] = Some (0, [(0x30000, 0x8000)])"
proof -
  have ok: "resource_ok sample_ram" by (simp add: sample_ram_def siblings_ok_Cons)
  have "(0 :: u32) = ucast (push_bit 12 (ucast (0 :: u32) :: 64 word))"
       "0x37FFFFFF = (ucast (push_bit 12 (ucast (0 + 0x38000 :: u32) :: 64 word) - 1) :: u32)" by simp_all
  from walk_system_ram_range_exact [OF ok this, of "[]" "\<lambda>pfn n s. (0, s @ [(pfn, n)])"] show ?thesis
    by (simp add: sample_ram_def ram_pieces_def ram_hit_def is_ram_def clip_def)
qed

end
