(* ===== verification/Ashmem.thy ===== *)
theory Ashmem
  imports Credentials "HOL-Library.Monad_Syntax"
begin

text \<open>
  Anonymous shared memory of Android, mm/ashmem.c. Each open file has an area; the pages that its user
  has unpinned are kept as ranges in a list of the area, sorted from the end of the area to its start.
  The kernel may purge the ranges on a common LRU list when memory is short.

  An area is known by its address, a range by its address and its area: the LRU list holds such pairs
  where the source links the structures. The backing file is the number of an open file; the
  truncations of its pages that the shrinker asks for are recorded. An operation gives \<open>None\<close> where
  the code would follow a pointer to an area, range or file that is not there.
\<close>

section \<open>Data\<close>

record ashmem_range =
  ar_addr :: nat
  pgstart :: u32
  pgend :: u32
  purged :: u32

record ashmem_area =
  as_name :: "u8 list"
  unpinned_list :: "ashmem_range list"
  as_file :: "nat option"
  as_size :: u32
  prot_mask :: u32

record ashmem_lru =
  lru_list :: "(nat \<times> nat) list"
  lru_count :: u32

record ashmem =
  as_areas :: "nat \<Rightarrow> ashmem_area option"
  as_lru :: ashmem_lru
  as_truncated :: "(nat \<times> int \<times> int) list"

definition ASHMEM_NOT_PURGED :: u32 where "ASHMEM_NOT_PURGED = 0"
definition ASHMEM_WAS_PURGED :: u32 where "ASHMEM_WAS_PURGED = 1"
definition ASHMEM_IS_UNPINNED :: u32 where "ASHMEM_IS_UNPINNED = 0"
definition ASHMEM_IS_PINNED :: u32 where "ASHMEM_IS_PINNED = 1"
definition ASHMEM_NAME_LEN :: nat where "ASHMEM_NAME_LEN = 256"

text \<open>The characters of \<open>"dev/ashmem/"\<close> and of \<open>"dev/ashmem"\<close>.\<close>

definition ASHMEM_NAME_PREFIX :: "u8 list" where
  "ASHMEM_NAME_PREFIX = [0x64, 0x65, 0x76, 0x2F, 0x61, 0x73, 0x68, 0x6D, 0x65, 0x6D, 0x2F]"

definition ASHMEM_NAME_DEF :: "u8 list" where
  "ASHMEM_NAME_DEF = [0x64, 0x65, 0x76, 0x2F, 0x61, 0x73, 0x68, 0x6D, 0x65, 0x6D]"

definition ASHMEM_NAME_PREFIX_LEN :: nat where "ASHMEM_NAME_PREFIX_LEN = length ASHMEM_NAME_PREFIX"
definition ASHMEM_FULL_NAME_LEN :: nat where "ASHMEM_FULL_NAME_LEN = ASHMEM_NAME_LEN + ASHMEM_NAME_PREFIX_LEN"

definition PROT_READ :: u32 where "PROT_READ = 1"
definition PROT_WRITE :: u32 where "PROT_WRITE = 2"
definition PROT_EXEC :: u32 where "PROT_EXEC = 4"
definition PROT_MASK :: u32 where "PROT_MASK = PROT_EXEC OR PROT_READ OR PROT_WRITE"
definition READ_IMPLIES_EXEC :: u32 where "READ_IMPLIES_EXEC = 0x400000"
definition GFP_FS :: u32 where "GFP_FS = 0x80"
definition GFP_KERNEL :: u32 where "GFP_KERNEL = 0xD0"

definition PAGE_SIZE :: u32 where "PAGE_SIZE = 0x1000"
definition PAGE_MASK :: u32 where "PAGE_MASK = NOT (PAGE_SIZE - 1)"
definition PAGE_ALIGN :: "u32 \<Rightarrow> u32" where "PAGE_ALIGN x = ALIGN x PAGE_SIZE"

section \<open>Ranges\<close>

definition range_size :: "ashmem_range \<Rightarrow> u32" where
  "range_size r = pgend r - pgstart r + 1"

definition range_on_lru :: "ashmem_range \<Rightarrow> bool" where
  "range_on_lru r \<longleftrightarrow> purged r = ASHMEM_NOT_PURGED"

definition page_range_subsumes_range :: "ashmem_range \<Rightarrow> u32 \<Rightarrow> u32 \<Rightarrow> bool" where
  "page_range_subsumes_range r s e \<longleftrightarrow> pgstart r \<ge> s \<and> pgend r \<le> e"

definition page_range_subsumed_by_range :: "ashmem_range \<Rightarrow> u32 \<Rightarrow> u32 \<Rightarrow> bool" where
  "page_range_subsumed_by_range r s e \<longleftrightarrow> pgstart r \<le> s \<and> pgend r \<ge> e"

definition page_in_range :: "ashmem_range \<Rightarrow> u32 \<Rightarrow> bool" where
  "page_in_range r page \<longleftrightarrow> pgstart r \<le> page \<and> pgend r \<ge> page"

definition page_range_in_range :: "ashmem_range \<Rightarrow> u32 \<Rightarrow> u32 \<Rightarrow> bool" where
  "page_range_in_range r s e \<longleftrightarrow> page_in_range r s \<or> page_in_range r e \<or> page_range_subsumes_range r s e"

definition range_before_page :: "ashmem_range \<Rightarrow> u32 \<Rightarrow> bool" where
  "range_before_page r page \<longleftrightarrow> pgend r < page"

definition lru_add :: "nat \<Rightarrow> ashmem_range \<Rightarrow> ashmem_lru \<Rightarrow> ashmem_lru" where
  "lru_add asma r l = l\<lparr>lru_list := lru_list l @ [(asma, ar_addr r)], lru_count := lru_count l + range_size r\<rparr>"

definition lru_del :: "nat \<Rightarrow> ashmem_range \<Rightarrow> ashmem_lru \<Rightarrow> ashmem_lru" where
  "lru_del asma r l = l\<lparr>lru_list := remove1 (asma, ar_addr r) (lru_list l), lru_count := lru_count l - range_size r\<rparr>"

text \<open>
  The new range, which the caller puts into the list, or \<open>None\<close> for \<open>-ENOMEM\<close>; \<open>alloc\<close> is the address
  of the new structure.
\<close>

definition range_alloc ::
  "nat \<Rightarrow> nat option \<Rightarrow> u32 \<Rightarrow> u32 \<Rightarrow> u32 \<Rightarrow> ashmem_lru \<Rightarrow> (ashmem_range \<times> ashmem_lru) option" where
  "range_alloc asma alloc p s e l =
     (case alloc of
        None \<Rightarrow> None
      | Some a \<Rightarrow>
          let r = \<lparr>ar_addr = a, pgstart = s, pgend = e, purged = p\<rparr>
          in Some (r, if range_on_lru r then lru_add asma r l else l))"

definition range_del :: "nat \<Rightarrow> ashmem_range \<Rightarrow> ashmem_lru \<Rightarrow> ashmem_lru" where
  "range_del asma r l = (if range_on_lru r then lru_del asma r l else l)"

definition range_shrink :: "ashmem_range \<Rightarrow> u32 \<Rightarrow> u32 \<Rightarrow> ashmem_lru \<Rightarrow> ashmem_range \<times> ashmem_lru" where
  "range_shrink r s e l =
     (let r' = r\<lparr>pgstart := s, pgend := e\<rparr>
      in (r', if range_on_lru r' then l\<lparr>lru_count := lru_count l - (range_size r - range_size r')\<rparr> else l))"

section \<open>Pinning\<close>

fun pin_loop ::
  "nat \<Rightarrow> nat option \<Rightarrow> u32 \<Rightarrow> u32 \<Rightarrow> ashmem_range list \<Rightarrow> u32 \<Rightarrow> ashmem_lru \<Rightarrow> ashmem_range list \<times> u32 \<times> ashmem_lru" where
  "pin_loop asma alloc s e [] ret l = ([], ret, l)"
| "pin_loop asma alloc s e (r # rest) ret l =
     (if range_before_page r s then (r # rest, ret, l)
      else if page_range_in_range r s e then
        let ret = ret OR purged r in
        if page_range_subsumes_range r s e then pin_loop asma alloc s e rest ret (range_del asma r l)
        else if pgstart r \<ge> s then
          (case range_shrink r (e + 1) (pgend r) l of
             (r', l') \<Rightarrow> (case pin_loop asma alloc s e rest ret l' of (ls, ret, l) \<Rightarrow> (r' # ls, ret, l)))
        else if pgend r \<le> e then
          (case range_shrink r (pgstart r) (s - 1) l of
             (r', l') \<Rightarrow> (case pin_loop asma alloc s e rest ret l' of (ls, ret, l) \<Rightarrow> (r' # ls, ret, l)))
        else
          (case range_alloc asma alloc (purged r) (e + 1) (pgend r) l of
             Some (new, l') \<Rightarrow> (case range_shrink r (pgstart r) (s - 1) l' of (r', l'') \<Rightarrow> (new # r' # rest, ret, l''))
           | None \<Rightarrow> (case range_shrink r (pgstart r) (s - 1) l of (r', l') \<Rightarrow> (r' # rest, ret, l')))
      else (case pin_loop asma alloc s e rest ret l of (ls, ret, l) \<Rightarrow> (r # ls, ret, l)))"

definition ashmem_pin ::
  "nat \<Rightarrow> nat option \<Rightarrow> u32 \<Rightarrow> u32 \<Rightarrow> ashmem_range list \<Rightarrow> ashmem_lru \<Rightarrow> ashmem_range list \<times> u32 \<times> ashmem_lru" where
  "ashmem_pin asma alloc s e ls l = pin_loop asma alloc s e ls ASHMEM_NOT_PURGED l"

section \<open>Unpinning\<close>

datatype unpin_stop = Stop_Subsumed | Stop_Overlap nat | Stop_Insert nat

primrec stop_later :: "unpin_stop \<Rightarrow> unpin_stop" where
  "stop_later Stop_Subsumed = Stop_Subsumed"
| "stop_later (Stop_Overlap i) = Stop_Overlap (Suc i)"
| "stop_later (Stop_Insert i) = Stop_Insert (Suc i)"

text \<open>Where one pass over the list ends: at a range around the pages, at one that overlaps, or at the place for the new range.\<close>

fun unpin_pass :: "u32 \<Rightarrow> u32 \<Rightarrow> ashmem_range list \<Rightarrow> unpin_stop" where
  "unpin_pass s e [] = Stop_Insert 0"
| "unpin_pass s e (r # rest) =
     (if range_before_page r s then Stop_Insert 0
      else if page_range_subsumed_by_range r s e then Stop_Subsumed
      else if page_range_in_range r s e then Stop_Overlap 0
      else stop_later (unpin_pass s e rest))"

lemma unpin_pass_bound: "unpin_pass s e ls = Stop_Overlap i \<Longrightarrow> i < length ls"
proof (induction ls arbitrary: i)
  case (Cons r ls)
  then show ?case by (cases "unpin_pass s e ls") (auto split: if_splits)
qed simp

function unpin_restart ::
  "nat \<Rightarrow> nat option \<Rightarrow> u32 \<Rightarrow> u32 \<Rightarrow> u32 \<Rightarrow> ashmem_range list \<Rightarrow> ashmem_lru \<Rightarrow> unit ret \<times> ashmem_range list \<times> ashmem_lru" where
  "unpin_restart asma alloc s e p ls l =
     (case unpin_pass s e ls of
        Stop_Subsumed \<Rightarrow> (Inr (), ls, l)
      | Stop_Overlap i \<Rightarrow>
          (let r = ls ! i in
           unpin_restart asma alloc (min (pgstart r) s) (max (pgend r) e) (p OR purged r)
             (take i ls @ drop (Suc i) ls) (range_del asma r l))
      | Stop_Insert i \<Rightarrow>
          (case range_alloc asma alloc p s e l of
             None \<Rightarrow> (Inl ENOMEM, ls, l)
           | Some (new, l') \<Rightarrow> (Inr (), take i ls @ new # drop i ls, l')))"
  by pat_completeness auto
termination
  by (relation "measure (\<lambda>(_, _, _, _, _, ls, _). length ls)") (auto dest!: unpin_pass_bound)

declare unpin_restart.simps [simp del]

definition ashmem_unpin ::
  "nat \<Rightarrow> nat option \<Rightarrow> u32 \<Rightarrow> u32 \<Rightarrow> ashmem_range list \<Rightarrow> ashmem_lru \<Rightarrow> unit ret \<times> ashmem_range list \<times> ashmem_lru" where
  "ashmem_unpin asma alloc s e ls l = unpin_restart asma alloc s e ASHMEM_NOT_PURGED ls l"

fun ashmem_get_pin_status :: "u32 \<Rightarrow> u32 \<Rightarrow> ashmem_range list \<Rightarrow> u32" where
  "ashmem_get_pin_status s e [] = ASHMEM_IS_PINNED"
| "ashmem_get_pin_status s e (r # rest) =
     (if range_before_page r s then ASHMEM_IS_PINNED
      else if page_range_in_range r s e then ASHMEM_IS_UNPINNED
      else ashmem_get_pin_status s e rest)"

datatype ashmem_pin_cmd = ASHMEM_PIN | ASHMEM_UNPIN | ASHMEM_GET_PIN_STATUS

text \<open>The pages of a request, or the error of the checks; \<open>None\<close> is a fault while the request is read.\<close>

definition pin_pages :: "ashmem_area \<Rightarrow> (u32 \<times> u32) option \<Rightarrow> (u32 \<times> u32) ret" where
  "pin_pages area pin =
     (if as_file area = None then Inl EINVAL
      else case pin of
        None \<Rightarrow> Inl EFAULT
      | Some (offset, len) \<Rightarrow>
          let len = (if len = 0 then PAGE_ALIGN (as_size area) - offset else len) in
          if (offset OR len) AND NOT PAGE_MASK \<noteq> 0 then Inl EINVAL
          else if - 1 - offset < len then Inl EINVAL
          else if PAGE_ALIGN (as_size area) < offset + len then Inl EINVAL
          else let s = offset div PAGE_SIZE in Inr (s, s + len div PAGE_SIZE - 1))"

definition ashmem_pin_unpin ::
  "nat option \<Rightarrow> ashmem_pin_cmd \<Rightarrow> (u32 \<times> u32) option \<Rightarrow> nat \<Rightarrow> ashmem \<Rightarrow> (int ret \<times> ashmem) option" where
  "ashmem_pin_unpin alloc cmd pin asma st = do {
     area \<leftarrow> as_areas st asma;
     let store = (\<lambda>ls l. st\<lparr>as_areas := (as_areas st)(asma \<mapsto> area\<lparr>unpinned_list := ls\<rparr>), as_lru := l\<rparr>);
     Some (case pin_pages area pin of
             Inl e \<Rightarrow> (Inl e, st)
           | Inr (s, e) \<Rightarrow>
               (case cmd of
                  ASHMEM_PIN \<Rightarrow>
                    (case ashmem_pin asma alloc s e (unpinned_list area) (as_lru st) of
                       (ls, ret, l) \<Rightarrow> (Inr (uint ret), store ls l))
                | ASHMEM_UNPIN \<Rightarrow>
                    (case ashmem_unpin asma alloc s e (unpinned_list area) (as_lru st) of
                       (Inl err, ls, l) \<Rightarrow> (Inl err, store ls l)
                     | (Inr _, ls, l) \<Rightarrow> (Inr 0, store ls l))
                | ASHMEM_GET_PIN_STATUS \<Rightarrow>
                    (Inr (uint (ashmem_get_pin_status s e (unpinned_list area))), st)))
   }"

section \<open>The shrinker\<close>

text \<open>The loop over the LRU list; each range leaves the list as it is purged.\<close>

fun shrink_loop :: "int \<Rightarrow> (nat \<times> nat) list \<Rightarrow> ashmem \<Rightarrow> ashmem option" where
  "shrink_loop nr [] st = Some st"
| "shrink_loop nr ((asma, addr) # rest) st = do {
     area \<leftarrow> as_areas st asma;
     _ \<leftarrow> as_file area;
     r \<leftarrow> find (\<lambda>r. ar_addr r = addr) (unpinned_list area);
     let start = uint (pgstart r * PAGE_SIZE);
     let fin = uint ((pgend r + 1) * PAGE_SIZE - 1);
     let ls = map (\<lambda>r. if ar_addr r = addr then r\<lparr>purged := ASHMEM_WAS_PURGED\<rparr> else r) (unpinned_list area);
     let st = st\<lparr>as_areas := (as_areas st)(asma \<mapsto> area\<lparr>unpinned_list := ls\<rparr>), as_lru := lru_del asma r (as_lru st),
                 as_truncated := as_truncated st @ [(asma, start, fin)]\<rparr>;
     let nr = wrap_s 32 (nr - uint (range_size r));
     if nr \<le> 0 then Some st else shrink_loop nr rest st
   }"

definition ashmem_shrink :: "int \<Rightarrow> u32 \<Rightarrow> ashmem \<Rightarrow> (int \<times> ashmem) option" where
  "ashmem_shrink nr gfp_mask st =
     (if nr \<noteq> 0 \<and> gfp_mask AND GFP_FS = 0 then Some (- 1, st)
      else if nr = 0 then Some (wrap_s 32 (uint (lru_count (as_lru st))), st)
      else do {
        st' \<leftarrow> shrink_loop nr (lru_list (as_lru st)) st;
        Some (wrap_s 32 (uint (lru_count (as_lru st'))), st')
      })"

section \<open>Files and control calls\<close>

text \<open>\<open>alloc\<close> is the address of the new area.\<close>

definition ashmem_open :: "nat option \<Rightarrow> ashmem \<Rightarrow> unit ret \<times> ashmem" where
  "ashmem_open alloc st =
     (case alloc of
        None \<Rightarrow> (Inl ENOMEM, st)
      | Some asma \<Rightarrow>
          (Inr (), st\<lparr>as_areas := (as_areas st)(asma \<mapsto>
             \<lparr>as_name = ASHMEM_NAME_PREFIX @ replicate ASHMEM_NAME_LEN 0, unpinned_list = [], as_file = None,
              as_size = 0, prot_mask = PROT_MASK\<rparr>)\<rparr>))"

definition ashmem_release :: "nat \<Rightarrow> ashmem \<Rightarrow> ashmem option" where
  "ashmem_release asma st = do {
     area \<leftarrow> as_areas st asma;
     Some (st\<lparr>as_areas := (as_areas st)(asma := None),
              as_lru := fold (range_del asma) (unpinned_list area) (as_lru st)\<rparr>)
   }"

text \<open>The argument \<open>read\<close> is the outcome of reading the backing file.\<close>

definition ashmem_read :: "(nat \<Rightarrow> int ret) \<Rightarrow> nat \<Rightarrow> ashmem \<Rightarrow> int ret option" where
  "ashmem_read read asma st = do {
     area \<leftarrow> as_areas st asma;
     Some (if as_size area = 0 then Inr 0
           else case as_file area of None \<Rightarrow> Inl EBADF | Some f \<Rightarrow> read f)
   }"

text \<open>
  The argument \<open>file_setup\<close> is the outcome of \<open>shmem_file_setup\<close> for the name, size and flags of the new
  backing file; the result of a success is the file that the mapping gets.
\<close>

definition ashmem_mmap ::
  "(u8 list \<Rightarrow> u32 \<Rightarrow> u32 \<Rightarrow> nat ret) \<Rightarrow> u32 \<Rightarrow> nat \<Rightarrow> ashmem \<Rightarrow> (nat ret \<times> ashmem) option" where
  "ashmem_mmap file_setup vm_flags asma st = do {
     area \<leftarrow> as_areas st asma;
     Some (if as_size area = 0 then (Inl EINVAL, st)
           else if (vm_flags AND NOT (prot_mask area)) AND PROT_MASK \<noteq> 0 then (Inl EPERM, st)
           else case as_file area of
                  Some f \<Rightarrow> (Inr f, st)
                | None \<Rightarrow>
                    (let name = (if as_name area ! ASHMEM_NAME_PREFIX_LEN \<noteq> 0 then as_name area else ASHMEM_NAME_DEF) in
                     case file_setup name (as_size area) vm_flags of
                       Inl e \<Rightarrow> (Inl e, st)
                     | Inr f \<Rightarrow> (Inr f, st\<lparr>as_areas := (as_areas st)(asma \<mapsto> area\<lparr>as_file := Some f\<rparr>)\<rparr>)))
   }"

text \<open>\<open>personality\<close> is that of the calling process.\<close>

definition set_prot_mask :: "u32 \<Rightarrow> u32 \<Rightarrow> ashmem_area \<Rightarrow> int ret \<times> ashmem_area" where
  "set_prot_mask personality prot area =
     (if prot_mask area AND prot \<noteq> prot then (Inl EINVAL, area)
      else let prot = (if prot AND PROT_READ \<noteq> 0 \<and> personality AND READ_IMPLIES_EXEC \<noteq> 0 then prot OR PROT_EXEC else prot)
           in (Inr 0, area\<lparr>prot_mask := prot\<rparr>))"

text \<open>
  The bytes are the \<open>ASHMEM_NAME_LEN\<close> bytes that arrive from the user, zeros after a fault; the flag says
  that there was a fault.
\<close>

definition set_name :: "u8 list \<Rightarrow> bool \<Rightarrow> ashmem_area \<Rightarrow> int ret \<times> ashmem_area" where
  "set_name bytes fault area =
     (if as_file area \<noteq> None then (Inl EINVAL, area)
      else (if fault then Inl EFAULT else Inr 0,
            area\<lparr>as_name := (take ASHMEM_NAME_PREFIX_LEN (as_name area) @ bytes)[ASHMEM_FULL_NAME_LEN - 1 := 0]\<rparr>))"

text \<open>The bytes that are copied to the user, and the result for a copy that succeeds or faults.\<close>

definition get_name :: "bool \<Rightarrow> ashmem_area \<Rightarrow> int ret \<times> u8 list" where
  "get_name fault area =
     (if fault then Inl EFAULT else Inr 0,
      let name = drop ASHMEM_NAME_PREFIX_LEN (as_name area) in
      if as_name area ! ASHMEM_NAME_PREFIX_LEN \<noteq> 0 then takeWhile (\<lambda>b. b \<noteq> 0) name @ [0] else ASHMEM_NAME_DEF @ [0])"

datatype ashmem_cmd =
    ASHMEM_SET_NAME "u8 list" bool
  | ASHMEM_GET_NAME bool
  | ASHMEM_SET_SIZE u32
  | ASHMEM_GET_SIZE
  | ASHMEM_SET_PROT_MASK u32
  | ASHMEM_GET_PROT_MASK
  | ASHMEM_PIN_UNPIN ashmem_pin_cmd "(u32 \<times> u32) option"
  | ASHMEM_PURGE_ALL_CACHES
  | ASHMEM_OTHER

definition ashmem_ioctl ::
  "kconfig \<Rightarrow> u32 \<Rightarrow> nat option \<Rightarrow> ashmem_cmd \<Rightarrow> nat \<Rightarrow> ashmem \<Rightarrow> kernel \<Rightarrow> (int ret \<times> ashmem \<times> kernel) option" where
  "ashmem_ioctl kc personality alloc cmd asma st k = do {
     area \<leftarrow> as_areas st asma;
     let store = (\<lambda>(r, a). (r, st\<lparr>as_areas := (as_areas st)(asma \<mapsto> a)\<rparr>, k));
     (case cmd of
        ASHMEM_SET_NAME bytes fault \<Rightarrow> Some (store (set_name bytes fault area))
      | ASHMEM_GET_NAME fault \<Rightarrow> Some (fst (get_name fault area), st, k)
      | ASHMEM_SET_SIZE n \<Rightarrow>
          Some (if as_file area = None then store (Inr 0, area\<lparr>as_size := n\<rparr>) else (Inl EINVAL, st, k))
      | ASHMEM_GET_SIZE \<Rightarrow> Some (Inr (wrap_s 32 (uint (as_size area))), st, k)
      | ASHMEM_SET_PROT_MASK prot \<Rightarrow> Some (store (set_prot_mask personality prot area))
      | ASHMEM_GET_PROT_MASK \<Rightarrow> Some (Inr (wrap_s 32 (uint (prot_mask area))), st, k)
      | ASHMEM_PIN_UNPIN c pin \<Rightarrow> do {
          (r, st') \<leftarrow> ashmem_pin_unpin alloc c pin asma st;
          Some (r, st', k)
        }
      | ASHMEM_PURGE_ALL_CACHES \<Rightarrow>
          (case capable kc CAP_SYS_ADMIN k of
             (False, k) \<Rightarrow> Some (Inl EPERM, st, k)
           | (True, k) \<Rightarrow> do {
               (ret, st) \<leftarrow> ashmem_shrink 0 GFP_KERNEL st;
               (_, st') \<leftarrow> ashmem_shrink ret GFP_KERNEL st;
               Some (Inr ret, st', k)
             })
      | ASHMEM_OTHER \<Rightarrow> Some (Inl ENOTTY, st, k))
   }"

section \<open>The entry points\<close>

text \<open>The operations of the device file, and the shrinker.\<close>

datatype ashmem_call =
    Ash_open "nat option"
  | Ash_release nat
  | Ash_read "nat \<Rightarrow> int ret" nat
  | Ash_mmap "u8 list \<Rightarrow> u32 \<Rightarrow> u32 \<Rightarrow> nat ret" u32 nat
  | Ash_ioctl u32 "nat option" ashmem_cmd nat
  | Ash_shrink int u32

fun exec_ashmem_call :: "kconfig \<Rightarrow> ashmem_call \<Rightarrow> ashmem \<times> kernel \<Rightarrow> (int ret \<times> ashmem \<times> kernel) option" where
  "exec_ashmem_call kc (Ash_open alloc) (st, k) =
     (case ashmem_open alloc st of (r, st') \<Rightarrow> Some (map_sum id (\<lambda>_. 0) r, st', k))"
| "exec_ashmem_call kc (Ash_release asma) (st, k) = map_option (\<lambda>st'. (Inr 0, st', k)) (ashmem_release asma st)"
| "exec_ashmem_call kc (Ash_read read asma) (st, k) = map_option (\<lambda>r. (r, st, k)) (ashmem_read read asma st)"
| "exec_ashmem_call kc (Ash_mmap file_setup vm_flags asma) (st, k) =
     map_option (\<lambda>(r, st'). (map_sum id (\<lambda>_. 0) r, st', k)) (ashmem_mmap file_setup vm_flags asma st)"
| "exec_ashmem_call kc (Ash_ioctl personality alloc cmd asma) (st, k) = ashmem_ioctl kc personality alloc cmd asma st k"
| "exec_ashmem_call kc (Ash_shrink nr gfp_mask) (st, k) =
     map_option (\<lambda>(n, st'). (Inr n, st', k)) (ashmem_shrink nr gfp_mask st)"

end
