(* ===== verification/Ashmem_Ranges.thy ===== *)
theory Ashmem_Ranges
  imports Ashmem
begin

text \<open>
  What the pin and unpin operations of mm/ashmem.c do to the ranges of one area. The unpinned pages of
  an area are a set, those that were purged a subset of it: pinning takes the pages of the request out
  of both, unpinning adds them and merges the ranges that overlap. Every change of the ranges comes with
  the change of the LRU list that keeps it in step.
\<close>

section \<open>Pages and bookkeeping\<close>

definition pages :: "ashmem_range \<Rightarrow> u32 set" where
  "pages r = {pgstart r..pgend r}"

text \<open>The unpinned pages of an area, and those that count as purged.\<close>

definition unpinned :: "ashmem_range list \<Rightarrow> u32 set" where
  "unpinned ls = (\<Union>r \<in> set ls. pages r)"

definition flagged :: "ashmem_range list \<Rightarrow> u32 set" where
  "flagged ls = (\<Union>r \<in> {r \<in> set ls. \<not> range_on_lru r}. pages r)"

definition range_ok :: "ashmem_range \<Rightarrow> bool" where
  "range_ok r \<longleftrightarrow> pgstart r \<le> pgend r \<and> pgend r < - 1 \<and> purged r \<in> {0, 1}"

definition ranges_sorted :: "ashmem_range list \<Rightarrow> bool" where
  "ranges_sorted ls \<longleftrightarrow>
     sorted_wrt (\<lambda>x y. pgend y < pgstart x) ls \<and> (\<forall>r \<in> set ls. range_ok r) \<and> distinct (map ar_addr ls)"

definition on_addrs :: "ashmem_range list \<Rightarrow> nat set" where
  "on_addrs ls = ar_addr ` {r \<in> set ls. range_on_lru r}"

definition lru_set :: "nat \<Rightarrow> ashmem_lru \<Rightarrow> nat set" where
  "lru_set asma l = {x. (asma, x) \<in> set (lru_list l)}"

definition lru_sum :: "ashmem_range list \<Rightarrow> u32" where
  "lru_sum ls = (\<Sum>r \<leftarrow> ls. if range_on_lru r then range_size r else 0)"

text \<open>
  What replacing the ranges \<open>ls\<close> by \<open>ls'\<close> does to the LRU list when it is kept up to date: the entries of
  other areas stay, those of the area follow its ranges, and so does the count of pages.
\<close>

definition lru_change :: "nat \<Rightarrow> ashmem_range list \<Rightarrow> ashmem_lru \<Rightarrow> ashmem_range list \<Rightarrow> ashmem_lru \<Rightarrow> bool" where
  "lru_change asma ls l ls' l' \<longleftrightarrow>
     distinct (lru_list l') \<and>
     filter (\<lambda>p. fst p \<noteq> asma) (lru_list l') = filter (\<lambda>p. fst p \<noteq> asma) (lru_list l) \<and>
     lru_set asma l' = lru_set asma l - on_addrs ls \<union> on_addrs ls' \<and>
     lru_count l' - lru_sum ls' = lru_count l - lru_sum ls"

lemma unpinned_simps [simp]:
  "unpinned [] = {}" "unpinned (r # ls) = pages r \<union> unpinned ls" "unpinned (ls @ ms) = unpinned ls \<union> unpinned ms"
  by (auto simp: unpinned_def)

lemma flagged_simps [simp]:
  "flagged [] = {}" "flagged (r # ls) = (if range_on_lru r then {} else pages r) \<union> flagged ls"
  "flagged (ls @ ms) = flagged ls \<union> flagged ms"
  by (auto simp: flagged_def)

lemma on_addrs_simps [simp]:
  "on_addrs [] = {}" "on_addrs (r # ls) = (if range_on_lru r then {ar_addr r} else {}) \<union> on_addrs ls"
  "on_addrs (ls @ ms) = on_addrs ls \<union> on_addrs ms"
  by (auto simp: on_addrs_def)

lemma lru_sum_simps [simp]:
  "lru_sum [] = 0" "lru_sum (r # ls) = (if range_on_lru r then range_size r else 0) + lru_sum ls"
  "lru_sum (ls @ ms) = lru_sum ls + lru_sum ms"
  by (simp_all add: lru_sum_def)

lemma on_addrs_subset: "on_addrs ls \<subseteq> ar_addr ` set ls"
  by (auto simp: on_addrs_def)

lemma apart_single: "A \<subseteq> {a} \<Longrightarrow> B \<subseteq> C \<Longrightarrow> a \<notin> C \<Longrightarrow> A \<inter> B = {}"
  by blast

lemma flagged_unpinned: "flagged ls \<subseteq> unpinned ls"
  by (auto simp: flagged_def unpinned_def)

lemma range_on_lru_upd [simp]:
  "range_on_lru (r\<lparr>pgstart := s\<rparr>) = range_on_lru r" "range_on_lru (r\<lparr>pgend := e\<rparr>) = range_on_lru r"
  "range_on_lru \<lparr>ar_addr = a, pgstart = s, pgend = e, purged = p\<rparr> \<longleftrightarrow> p = 0"
  by (simp_all add: range_on_lru_def ASHMEM_NOT_PURGED_def)

lemma ranges_sorted_Cons:
  "ranges_sorted (r # ls) \<longleftrightarrow> range_ok r \<and> (\<forall>q \<in> set ls. pgend q < pgstart r) \<and> ar_addr r \<notin> ar_addr ` set ls \<and> ranges_sorted ls"
  by (auto simp: ranges_sorted_def)

lemma ranges_sorted_append:
  "ranges_sorted (ls @ ms) \<longleftrightarrow> ranges_sorted ls \<and> ranges_sorted ms \<and> (\<forall>r \<in> set ls. \<forall>q \<in> set ms. pgend q < pgstart r) \<and>
     ar_addr ` set ls \<inter> ar_addr ` set ms = {}"
  by (auto simp: ranges_sorted_def sorted_wrt_append)

lemma ranges_sorted_Nil [simp]: "ranges_sorted []" by (simp add: ranges_sorted_def)

section \<open>Effects on the LRU list\<close>

lemma change_same: "distinct (lru_list l) \<Longrightarrow> on_addrs ls \<subseteq> lru_set asma l \<Longrightarrow> lru_change asma ls l ls l"
  by (auto simp: lru_change_def)

lemma change_append:
  assumes "lru_change asma xs l xs' l1" "lru_change asma ys l1 ys' l2" "on_addrs xs' \<inter> on_addrs ys = {}"
  shows "lru_change asma (xs @ ys) l (xs' @ ys') l2"
proof -
  have "lru_count l1 = lru_count l - lru_sum xs + lru_sum xs'" "lru_count l2 = lru_count l1 - lru_sum ys + lru_sum ys'"
    using assms(1,2) by (auto simp: lru_change_def diff_eq_eq)
  then have "lru_count l2 - lru_sum (xs' @ ys') = lru_count l - lru_sum (xs @ ys)" by simp
  then show ?thesis using assms unfolding lru_change_def by auto
qed

lemma change_del:
  assumes "distinct (lru_list l)" "on_addrs [r] \<subseteq> lru_set asma l"
  shows "lru_change asma [r] l [] (range_del asma r l)"
  using assms
  by (auto simp: lru_change_def range_del_def lru_del_def lru_set_def set_remove1_eq distinct_remove1
      filter_remove1 remove1_idem split: if_splits)

lemma change_shrink:
  assumes "distinct (lru_list l)" "on_addrs [r] \<subseteq> lru_set asma l" "range_shrink r s e l = (r', l')"
  shows "lru_change asma [r] l [r'] l' \<and> r' = r\<lparr>pgstart := s, pgend := e\<rparr>"
  using assms by (auto simp: lru_change_def range_shrink_def Let_def lru_set_def split: if_splits)

lemma change_alloc:
  assumes "distinct (lru_list l)" "alloc = Some a" "a \<notin> lru_set asma l" "range_alloc asma alloc p s e l = Some (r, l')"
  shows "lru_change asma [] l [r] l' \<and> r = \<lparr>ar_addr = a, pgstart = s, pgend = e, purged = p\<rparr>"
  using assms by (auto simp: lru_change_def range_alloc_def lru_add_def lru_set_def Let_def split: if_splits)

lemma change_distinct: "lru_change asma ls l ls' l' \<Longrightarrow> distinct (lru_list l')"
  and change_set: "lru_change asma ls l ls' l' \<Longrightarrow> lru_set asma l' = lru_set asma l - on_addrs ls \<union> on_addrs ls'"
  by (auto simp: lru_change_def)

section \<open>Pinning\<close>

text \<open>The ranges that are left of \<open>ls\<close> when the pages from \<open>s\<close> to \<open>e\<close> are taken out.\<close>

definition cut_out :: "bool \<Rightarrow> u32 \<Rightarrow> u32 \<Rightarrow> ashmem_range list \<Rightarrow> ashmem_range list \<Rightarrow> bool" where
  "cut_out full s e ls ls' \<longleftrightarrow>
     ranges_sorted ls' \<and> (\<forall>r' \<in> set ls'. \<exists>r \<in> set ls. pgstart r \<le> pgstart r' \<and> pgend r' \<le> pgend r) \<and>
     unpinned ls' \<subseteq> unpinned ls - {s..e} \<and> flagged ls' \<subseteq> flagged ls - {s..e} \<and>
     (full \<longrightarrow> unpinned ls - {s..e} \<subseteq> unpinned ls' \<and> flagged ls - {s..e} \<subseteq> flagged ls')"

lemma cut_out_append:
  assumes "cut_out full s e xs xs'" "cut_out full s e ys ys'" "ranges_sorted (xs @ ys)" "ar_addr ` set xs' \<inter> ar_addr ` set ys' = {}"
  shows "cut_out full s e (xs @ ys) (xs' @ ys')"
proof -
  have "pgend q < pgstart r" if r: "r \<in> set xs'" and q: "q \<in> set ys'" for r q
  proof -
    obtain r0 q0 where "r0 \<in> set xs" "q0 \<in> set ys" "pgstart r0 \<le> pgstart r" "pgend q \<le> pgend q0"
      using r q assms(1,2) unfolding cut_out_def by meson
    moreover have "pgend q0 < pgstart r0" using calculation(1,2) assms(3) by (auto simp: ranges_sorted_append)
    ultimately show ?thesis by (meson le_less_trans less_le_trans)
  qed
  then have "ranges_sorted (xs' @ ys')" using assms(1,2,4) by (auto simp: cut_out_def ranges_sorted_append)
  then show ?thesis using assms(1,2) unfolding cut_out_def by (auto 0 3)
qed

lemma cut_out_apart:
  assumes "ranges_sorted ls" "\<forall>r \<in> set ls. pgend r < s \<or> e < pgstart r"
  shows "cut_out full s e ls ls"
proof -
  have "unpinned ls \<inter> {s..e} = {}" using assms(2) by (fastforce simp: unpinned_def pages_def)
  then show ?thesis using assms(1) flagged_unpinned [of ls] by (auto simp: cut_out_def)
qed

lemma in_range_iff:
  assumes "s \<le> e" "range_ok r"
  shows "page_range_in_range r s e \<longleftrightarrow> pgstart r \<le> e \<and> s \<le> pgend r"
  using assms by (auto simp: page_range_in_range_def page_in_range_def page_range_subsumes_range_def range_ok_def)

lemma pages_apart: "pgend r < s \<or> e < pgstart r \<Longrightarrow> pages r \<inter> {s..e} = {}"
  by (auto simp: pages_def)

text \<open>What pinning does to a single range, by the cases of the source.\<close>

lemma cut_subsumed: "s \<le> pgstart r \<Longrightarrow> pgend r \<le> e \<Longrightarrow> cut_out full s e [r] []"
  by (auto simp: cut_out_def pages_def)

lemma cut_piece:
  assumes "range_ok r'" "pgstart r \<le> pgstart r'" "pgend r' \<le> pgend r" "range_on_lru r' = range_on_lru r"
    and "pages r' \<subseteq> pages r - {s..e}" "full \<Longrightarrow> pages r - {s..e} \<subseteq> pages r'"
  shows "cut_out full s e [r] [r']"
  using assms by (simp add: cut_out_def ranges_sorted_Cons)

lemma cut_front:
  assumes "range_ok r" "s \<le> pgstart r" "pgstart r \<le> e" "e < pgend r"
  shows "cut_out full s e [r] [r\<lparr>pgstart := e + 1, pgend := pgend r\<rparr>]"
proof -
  note ge = succ_le_iff [OF assms(4)]
  have "pages (r\<lparr>pgstart := e + 1, pgend := pgend r\<rparr>) = pages r - {s..e}"
    using assms(2,3) unfolding pages_def by (simp add: set_eq_iff ge) (meson le_less_trans less_imp_le not_le order_trans)
  then show ?thesis using assms(1,3) ge [of "pgend r"] assms(4) ge [of "e + 1"]
    by (intro cut_piece) (simp_all add: range_ok_def less_imp_le)
qed

text \<open>The lower part of a range that starts before \<open>s\<close>.\<close>

lemma lower_part:
  assumes "range_ok r" "pgstart r < s" "s \<le> pgend r"
  shows "range_ok (r\<lparr>pgstart := pgstart r, pgend := s - 1\<rparr>)" "s - 1 < s"
    "pages (r\<lparr>pgstart := pgstart r, pgend := s - 1\<rparr>) = {x. pgstart r \<le> x \<and> x < s}"
proof -
  have le: "x \<le> s - 1 \<longleftrightarrow> x < s" for x using le_pred_iff [OF assms(2)] .
  show lt: "s - 1 < s" using le [of "s - 1"] by simp
  show "pages (r\<lparr>pgstart := pgstart r, pgend := s - 1\<rparr>) = {x. pgstart r \<le> x \<and> x < s}" by (auto simp: pages_def le)
  have "s - 1 < - 1" using less_le_trans [OF lt assms(3)] assms(1) less_trans unfolding range_ok_def by blast
  then show "range_ok (r\<lparr>pgstart := pgstart r, pgend := s - 1\<rparr>)" using assms(1,2) le [of "pgstart r"] by (simp add: range_ok_def)
qed

lemma cut_rear:
  assumes "range_ok r" "pgstart r < s" "s \<le> pgend r" "full \<Longrightarrow> pgend r \<le> e"
  shows "cut_out full s e [r] [r\<lparr>pgstart := pgstart r, pgend := s - 1\<rparr>]"
proof (rule cut_piece)
  note l = lower_part [OF assms(1-3)]
  show "range_ok (r\<lparr>pgstart := pgstart r, pgend := s - 1\<rparr>)" by (rule l(1))
  show "pages (r\<lparr>pgstart := pgstart r, pgend := s - 1\<rparr>) \<subseteq> pages r - {s..e}"
    unfolding l(3) using assms(3) by (auto simp: pages_def)
  show "pages r - {s..e} \<subseteq> pages (r\<lparr>pgstart := pgstart r, pgend := s - 1\<rparr>)" if full
    unfolding l(3) using assms(4) [OF that] by (auto simp: pages_def)
  show "pgend (r\<lparr>pgstart := pgstart r, pgend := s - 1\<rparr>) \<le> pgend r" using l(2) assms(3) by simp
qed simp_all

lemma cut_middle:
  assumes "range_ok r" "pgstart r < s" "s \<le> e" "e < pgend r" "a \<noteq> ar_addr r"
  shows "cut_out full s e [r] [\<lparr>ar_addr = a, pgstart = e + 1, pgend = pgend r, purged = purged r\<rparr>, r\<lparr>pgstart := pgstart r, pgend := s - 1\<rparr>]"
proof -
  let ?hi = "\<lparr>ar_addr = a, pgstart = e + 1, pgend = pgend r, purged = purged r\<rparr>" and ?lo = "r\<lparr>pgstart := pgstart r, pgend := s - 1\<rparr>"
  note ge = succ_le_iff [OF assms(4)]
  have se: "s \<le> pgend r" using assms(3,4) by simp
  note l = lower_part [OF assms(1,2) se]
  have hi: "range_ok ?hi" "pages ?hi = {x. e < x \<and> x \<le> pgend r}"
    using assms(1,4) by (simp_all add: range_ok_def pages_def set_eq_iff ge)
  have on: "range_on_lru ?hi = range_on_lru r" "range_on_lru ?lo = range_on_lru r"
    by (simp_all add: range_on_lru_def ASHMEM_NOT_PURGED_def)
  have lt: "e < e + 1" using ge [of "e + 1"] by simp
  have ok: "ranges_sorted [?hi, ?lo]"
    using hi(1) l(1) assms(5) le_less_trans [OF less_imp_le [OF less_le_trans [OF l(2) assms(3)]] lt] by (simp add: ranges_sorted_Cons)
  have pg: "pages ?hi \<union> pages ?lo = pages r - {s..e}"
    unfolding hi(2) l(3) using assms(2,3,4) by (auto simp: pages_def)
  have "pgstart r \<le> e + 1" "s - 1 \<le> pgend r" using lt assms(2,3) l(2) se by simp_all
  then show ?thesis using ok pg on unfolding cut_out_def by auto
qed

definition purge_hit :: "u32 \<Rightarrow> u32 \<Rightarrow> ashmem_range list \<Rightarrow> u32" where
  "purge_hit s e ls = (if flagged ls \<inter> {s..e} = {} then ASHMEM_NOT_PURGED else ASHMEM_WAS_PURGED)"

lemma purge_hit_Cons:
  assumes "range_ok r"
  shows "purge_hit s e (r # ls) = (if pages r \<inter> {s..e} = {} then 0 else purged r) OR purge_hit s e ls"
proof -
  have "purged r = 0 \<or> purged r = 1" using assms by (simp add: range_ok_def)
  then show ?thesis
    by (auto simp: purge_hit_def range_on_lru_def ASHMEM_NOT_PURGED_def ASHMEM_WAS_PURGED_def Int_Un_distrib2)
qed

lemma purge_hit_apart:
  assumes "\<forall>r \<in> set ls. pgend r < s \<or> e < pgstart r"
  shows "purge_hit s e ls = 0"
proof -
  have "unpinned ls \<inter> {s..e} = {}" using assms by (fastforce simp: unpinned_def pages_def)
  then show ?thesis using flagged_unpinned [of ls] by (auto simp: purge_hit_def ASHMEM_NOT_PURGED_def)
qed

text \<open>The outcome of pinning for a list of ranges and a LRU list that agree.\<close>

definition pin_outcome where
  "pin_outcome asma alloc s e ls l ret = (\<lambda>(ls', ret', l').
     lru_change asma ls l ls' l' \<and> cut_out (alloc \<noteq> None) s e ls ls' \<and>
     ar_addr ` set ls' \<subseteq> ar_addr ` set ls \<union> set_option alloc \<and> ret' = ret OR purge_hit s e ls)"

lemma pin_outcome_Cons:
  assumes one: "lru_change asma [r] l xs l1" "cut_out (alloc \<noteq> None) s e [r] xs" "ar_addr ` set xs \<subseteq> {ar_addr r}"
    and rest: "pin_outcome asma alloc s e rest l1 (ret OR (if pages r \<inter> {s..e} = {} then 0 else purged r)) (ls', ret', l2)"
    and ok: "ranges_sorted (r # rest)" and fresh: "alloc \<noteq> Some (ar_addr r)"
  shows "pin_outcome asma alloc s e (r # rest) l ret (xs @ ls', ret', l2)"
proof -
  have rc: "lru_change asma rest l1 ls' l2" "cut_out (alloc \<noteq> None) s e rest ls'"
      "ar_addr ` set ls' \<subseteq> ar_addr ` set rest \<union> set_option alloc"
      "ret' = (ret OR (if pages r \<inter> {s..e} = {} then 0 else purged r)) OR purge_hit s e rest"
    using rest by (simp_all add: pin_outcome_def)
  have notin: "ar_addr r \<notin> ar_addr ` set rest \<union> set_option alloc" using ok fresh by (auto simp: ranges_sorted_Cons)
  have apart: "ar_addr ` set xs \<inter> ar_addr ` set ls' = {}" using notin by (rule apart_single [OF one(3) rc(3)])
  have "on_addrs xs \<subseteq> {ar_addr r}" using on_addrs_subset one(3) by (rule order_trans)
  then have "on_addrs xs \<inter> on_addrs rest = {}" using notin by (intro apart_single [OF _ on_addrs_subset]) auto
  with one(1) rc(1) have "lru_change asma ([r] @ rest) l (xs @ ls') l2" by (rule change_append)
  moreover have "cut_out (alloc \<noteq> None) s e ([r] @ rest) (xs @ ls')"
    using cut_out_append [OF one(2) rc(2) _ apart] ok by simp
  moreover have "ret' = ret OR purge_hit s e (r # rest)"
    using ok by (simp add: rc(4) purge_hit_Cons ranges_sorted_Cons or.assoc)
  moreover have "ar_addr ` set (xs @ ls') \<subseteq> ar_addr ` set (r # rest) \<union> set_option alloc"
    using one(3) rc(3) by auto
  ultimately show ?thesis by (simp add: pin_outcome_def)
qed

lemma pin_middle:
  assumes ok: "ranges_sorted (r # rest)" and dist: "distinct (lru_list l)" and lru: "on_addrs (r # rest) \<subseteq> lru_set asma l" and se: "s \<le> e"
    and fresh: "\<forall>a. alloc = Some a \<longrightarrow> a \<notin> ar_addr ` set (r # rest) \<and> a \<notin> lru_set asma l"
    and mid: "pgstart r < s" "e < pgend r"
  shows "pin_outcome asma alloc s e (r # rest) l ret (pin_loop asma alloc s e (r # rest) ret l)"
proof -
  have r: "range_ok r" "\<forall>q \<in> set rest. pgend q < pgstart r" "pgstart r \<le> pgend r" "ranges_sorted rest" "ar_addr r \<notin> ar_addr ` set rest"
    using ok by (auto simp: ranges_sorted_Cons range_ok_def)
  have sr: "s \<le> pgend r" "pgstart r \<le> e" using mid se by simp_all
  have yes: "pages r \<inter> {s..e} \<noteq> {}" using mid sr se by (auto simp: pages_def)
  have below: "\<forall>q \<in> set rest. pgend q < s \<or> e < pgstart q" using r(2) mid(1) by (auto intro: less_trans)
  note apart = cut_out_apart [OF r(4) below] purge_hit_apart [OF below]
  have hit: "ret OR purged r = ret OR purge_hit s e (r # rest)" using yes apart(2) by (simp add: purge_hit_Cons [OF r(1)])
  have neg: "\<not> pgend r < s" "\<not> s \<le> pgstart r" "\<not> pgend r \<le> e" using mid sr by auto
  have head: "pin_loop asma alloc s e (r # rest) ret l =
      (case range_alloc asma alloc (purged r) (e + 1) (pgend r) l of
         Some (new, l') \<Rightarrow> (case range_shrink r (pgstart r) (s - 1) l' of (r', l'') \<Rightarrow> (new # r' # rest, ret OR purged r, l''))
       | None \<Rightarrow> (case range_shrink r (pgstart r) (s - 1) l of (r', l') \<Rightarrow> (r' # rest, ret OR purged r, l')))"
    using neg sr by (simp add: in_range_iff [OF se r(1)] range_before_page_def page_range_subsumes_range_def Let_def)
  have lr: "on_addrs [r] \<subseteq> lru_set asma l" "on_addrs rest \<subseteq> lru_set asma l" using lru by auto
  show ?thesis
  proof (cases alloc)
    case None
    obtain r' l' where sh: "range_shrink r (pgstart r) (s - 1) l = (r', l')" by (cases "range_shrink r (pgstart r) (s - 1) l")
    note ch = change_shrink [OF dist lr(1) sh]
    have eq: "pin_loop asma alloc s e (r # rest) ret l = ([r'] @ rest, ret OR purged r, l')"
      unfolding head using None sh by (simp add: range_alloc_def)
    have c: "cut_out False s e [r] [r']" using ch cut_rear [OF r(1) mid(1) sr(1), of False e] by simp
    have a: "ar_addr r' = ar_addr r" "range_on_lru r' = range_on_lru r" using ch by simp_all
    have "on_addrs rest \<subseteq> lru_set asma l'" using change_set [OF conjunct1 [OF ch]] lr(2) r(5) on_addrs_subset [of rest] by (auto split: if_splits)
    then have "lru_change asma ([r] @ rest) l ([r'] @ rest) l'"
      using a r(5) on_addrs_subset [of rest]
      by (intro change_append [OF conjunct1 [OF ch] change_same [OF change_distinct [OF conjunct1 [OF ch]]]]) auto
    moreover have "cut_out False s e ([r] @ rest) ([r'] @ rest)"
      using cut_out_append [OF c apart(1)] ok a(1) r(5) by auto
    ultimately show ?thesis unfolding eq hit using None a(1) by (simp add: pin_outcome_def)
  next
    case (Some n)
    have nf: "n \<notin> ar_addr ` set (r # rest)" "n \<notin> lru_set asma l" using fresh Some by auto
    obtain new l1 where al: "range_alloc asma alloc (purged r) (e + 1) (pgend r) l = Some (new, l1)"
      using Some by (simp add: range_alloc_def Let_def)
    note c1 = change_alloc [OF dist Some nf(2) al]
    obtain r' l2 where sh: "range_shrink r (pgstart r) (s - 1) l1 = (r', l2)" by (cases "range_shrink r (pgstart r) (s - 1) l1")
    have s1: "lru_set asma l1 = lru_set asma l \<union> on_addrs [new]" using change_set [OF conjunct1 [OF c1]] by simp
    have "on_addrs [r] \<subseteq> lru_set asma l1" using lr(1) s1 by auto
    note c2 = change_shrink [OF change_distinct [OF conjunct1 [OF c1]] this sh]
    have a: "ar_addr r' = ar_addr r" "range_on_lru r' = range_on_lru r" "ar_addr new = n" using c2 c1 by simp_all
    have eq: "pin_loop asma alloc s e (r # rest) ret l = ([new, r'] @ rest, ret OR purged r, l2)"
      unfolding head using al sh by simp
    have "lru_change asma ([] @ [r]) l ([new] @ [r']) l2"
      using nf(1) a by (intro change_append [OF conjunct1 [OF c1] conjunct1 [OF c2]]) auto
    then have c12: "lru_change asma [r] l [new, r'] l2" by simp
    have "on_addrs rest \<subseteq> lru_set asma l2"
      using change_set [OF c12] lr(2) r(5) on_addrs_subset [of rest] by (auto split: if_splits)
    then have "lru_change asma ([r] @ rest) l ([new, r'] @ rest) l2"
      using a r(5) nf(1) on_addrs_subset [of rest]
      by (intro change_append [OF c12 change_same [OF change_distinct [OF c12]]]) auto
    moreover have "cut_out True s e ([r] @ rest) ([new, r'] @ rest)"
    proof (rule cut_out_append [OF _ apart(1)])
      show "cut_out True s e [r] [new, r']"
        using c1 c2 cut_middle [OF r(1) mid(1) se mid(2), of n True] nf(1) by auto
    qed (use ok a r(5) nf(1) in auto)
    ultimately show ?thesis unfolding eq hit using Some a by (auto simp: pin_outcome_def)
  qed
qed

lemma pin_loop_outcome:
  assumes "ranges_sorted ls" "distinct (lru_list l)" "on_addrs ls \<subseteq> lru_set asma l" "s \<le> e"
    and "\<forall>a. alloc = Some a \<longrightarrow> a \<notin> ar_addr ` set ls \<and> a \<notin> lru_set asma l"
  shows "pin_outcome asma alloc s e ls l ret (pin_loop asma alloc s e ls ret l)"
  using assms
proof (induction ls arbitrary: l ret)
  case Nil
  then show ?case by (simp add: pin_outcome_def lru_change_def cut_out_def purge_hit_def ASHMEM_NOT_PURGED_def)
next
  case (Cons r rest)
  note ok = Cons.prems(1) and dist = Cons.prems(2) and lru = Cons.prems(3) and se = Cons.prems(4) and fresh = Cons.prems(5)
  have r: "range_ok r" "\<forall>q \<in> set rest. pgend q < pgstart r" "pgstart r \<le> pgend r" "ranges_sorted rest" "ar_addr r \<notin> ar_addr ` set rest"
    using ok by (auto simp: ranges_sorted_Cons range_ok_def)
  have lr: "on_addrs [r] \<subseteq> lru_set asma l" using lru by simp
  have fr: "alloc \<noteq> Some (ar_addr r)" using fresh by auto
  have IH: "pin_outcome asma alloc s e rest l1 ret1 (pin_loop asma alloc s e rest ret1 l1)"
    if "lru_change asma [r] l xs l1" "ar_addr ` set xs \<subseteq> {ar_addr r}" for xs l1 ret1
  proof (rule Cons.IH [OF r(4) change_distinct [OF that(1)] _ se])
    have s: "lru_set asma l1 = lru_set asma l - on_addrs [r] \<union> on_addrs xs" using change_set [OF that(1)] .
    have x: "on_addrs xs \<subseteq> {ar_addr r}" "on_addrs [r] \<subseteq> {ar_addr r}" using on_addrs_subset [of xs] that(2) by auto
    show "on_addrs rest \<subseteq> lru_set asma l1" unfolding s using lru x r(5) on_addrs_subset [of rest] by auto
    show "\<forall>a. alloc = Some a \<longrightarrow> a \<notin> ar_addr ` set rest \<and> a \<notin> lru_set asma l1" unfolding s using fresh x by auto
  qed
  have go: "pin_outcome asma alloc s e (r # rest) l ret
      (case pin_loop asma alloc s e rest (ret OR (if pages r \<inter> {s..e} = {} then 0 else purged r)) l1 of (ls, ret, l) \<Rightarrow> (xs @ ls, ret, l))"
    if "lru_change asma [r] l xs l1" "cut_out (alloc \<noteq> None) s e [r] xs" "ar_addr ` set xs \<subseteq> {ar_addr r}" for xs l1
  proof -
    let ?ret = "ret OR (if pages r \<inter> {s..e} = {} then 0 else purged r)"
    obtain ls' ret' l2 where p: "pin_loop asma alloc s e rest ?ret l1 = (ls', ret', l2)" by (rule prod_cases3)
    show ?thesis using pin_outcome_Cons [OF that _ ok fr] IH [OF that(1,3), of ?ret] unfolding p by simp
  qed
  consider (before) "pgend r < s" | (behind) "e < pgstart r" "s \<le> pgend r"
    | (subsumed) "s \<le> pgstart r" "pgend r \<le> e" "s \<le> pgend r" "pgstart r \<le> e"
    | (front) "s \<le> pgstart r" "pgstart r \<le> e" "e < pgend r" "s \<le> pgend r"
    | (rear) "pgstart r < s" "s \<le> pgend r" "pgend r \<le> e" "pgstart r \<le> e"
    | (middle) "pgstart r < s" "e < pgend r" "s \<le> pgend r" "pgstart r \<le> e"
    by (cases "pgend r < s"; cases "e < pgstart r"; cases "s \<le> pgstart r"; cases "pgend r \<le> e") (simp_all add: not_le not_less)
  then show ?case
  proof cases
    case before
    then have "\<forall>q \<in> set (r # rest). pgend q < s \<or> e < pgstart q" using r(2,3) by (auto intro: less_trans le_less_trans)
    then show ?thesis using before cut_out_apart [OF ok] purge_hit_apart change_same [OF dist lru]
      by (auto simp: pin_outcome_def range_before_page_def)
  next
    case behind
    have no: "pages r \<inter> {s..e} = {}" using behind by (auto simp: pages_def)
    have eq: "pin_loop asma alloc s e (r # rest) ret l = (case pin_loop asma alloc s e rest ret l of (ls, ret, l) \<Rightarrow> ([r] @ ls, ret, l))"
      using behind leD [OF behind(2)] leD [of _ e] by (auto simp: in_range_iff [OF se r(1)] range_before_page_def)
    have "cut_out (alloc \<noteq> None) s e [r] [r]" using r(1) behind by (intro cut_out_apart) (auto simp: ranges_sorted_Cons)
    from go [OF change_same [OF dist lr] this] show ?thesis unfolding eq using no by simp
  next
    case subsumed
    have yes: "pages r \<inter> {s..e} \<noteq> {}" using subsumed r(3) by (auto simp: pages_def)
    have eq: "pin_loop asma alloc s e (r # rest) ret l =
        (case pin_loop asma alloc s e rest (ret OR purged r) (range_del asma r l) of (ls, ret, l) \<Rightarrow> ([] @ ls, ret, l))"
      using subsumed leD [OF subsumed(3)] by (simp add: in_range_iff [OF se r(1)] range_before_page_def page_range_subsumes_range_def Let_def)
    from go [OF change_del [OF dist lr] cut_subsumed [OF subsumed(1,2)]] show ?thesis unfolding eq using yes by simp
  next
    case front
    have yes: "pages r \<inter> {s..e} \<noteq> {}" using front r(3) by (auto simp: pages_def)
    obtain r' l' where sh: "range_shrink r (e + 1) (pgend r) l = (r', l')" by (cases "range_shrink r (e + 1) (pgend r) l")
    note ch = change_shrink [OF dist lr sh]
    have eq: "pin_loop asma alloc s e (r # rest) ret l =
        (case pin_loop asma alloc s e rest (ret OR purged r) l' of (ls, ret, l) \<Rightarrow> ([r'] @ ls, ret, l))"
      using front sh leD [OF front(4)] leD [of "pgend r" e] by (auto simp: in_range_iff [OF se r(1)] range_before_page_def page_range_subsumes_range_def Let_def)
    have "cut_out (alloc \<noteq> None) s e [r] [r']" using ch cut_front [OF r(1) front(1-3)] by simp
    from go [OF conjunct1 [OF ch] this] show ?thesis unfolding eq using yes ch by simp
  next
    case rear
    have yes: "pages r \<inter> {s..e} \<noteq> {}" using rear r(3) by (auto simp: pages_def)
    obtain r' l' where sh: "range_shrink r (pgstart r) (s - 1) l = (r', l')" by (cases "range_shrink r (pgstart r) (s - 1) l")
    note ch = change_shrink [OF dist lr sh]
    have eq: "pin_loop asma alloc s e (r # rest) ret l =
        (case pin_loop asma alloc s e rest (ret OR purged r) l' of (ls, ret, l) \<Rightarrow> ([r'] @ ls, ret, l))"
      using rear sh leD [OF rear(2)] leD [of s "pgstart r"] by (auto simp: in_range_iff [OF se r(1)] range_before_page_def page_range_subsumes_range_def Let_def)
    have "cut_out (alloc \<noteq> None) s e [r] [r']" using ch cut_rear [OF r(1) rear(1,2)] rear(3) by simp
    from go [OF conjunct1 [OF ch] this] show ?thesis unfolding eq using yes ch by simp
  next
    case middle
    show ?thesis by (rule pin_middle [OF ok dist lru se fresh middle(1,2)])
  qed
qed

section \<open>Unpinning\<close>

lemma unpin_pass_cases:
  assumes "ranges_sorted ls" "s \<le> e"
  obtains (subsumed) r where "unpin_pass s e ls = Stop_Subsumed" "r \<in> set ls" "pgstart r \<le> s" "e \<le> pgend r"
  | (overlap) xs r ys where "ls = xs @ r # ys" "unpin_pass s e ls = Stop_Overlap (length xs)" "pgstart r \<le> e" "s \<le> pgend r"
  | (insert) xs ys where "ls = xs @ ys" "unpin_pass s e ls = Stop_Insert (length xs)"
      "\<forall>x \<in> set xs. e < pgstart x" "\<forall>y \<in> set ys. pgend y < s"
  using assms
proof (induction ls arbitrary: thesis)
  case Nil
  then show ?case using Nil.prems(3) [of "[]" "[]"] by simp
next
  case (Cons r ls)
  have r: "range_ok r" "ranges_sorted ls" "\<forall>q \<in> set ls. pgend q < pgstart r" "pgstart r \<le> pgend r"
    using Cons.prems(4) by (auto simp: ranges_sorted_Cons range_ok_def)
  note in_r = in_range_iff [OF Cons.prems(5) r(1)]
  consider (before) "pgend r < s" | (sub) "pgstart r \<le> s" "e \<le> pgend r" "\<not> pgend r < s"
    | (over) "\<not> pgend r < s" "\<not> (pgstart r \<le> s \<and> e \<le> pgend r)" "pgstart r \<le> e" "s \<le> pgend r"
    | (behind) "\<not> pgend r < s" "\<not> (pgstart r \<le> s \<and> e \<le> pgend r)" "e < pgstart r" "s \<le> pgend r"
    by (cases "pgend r < s"; cases "pgstart r \<le> s \<and> e \<le> pgend r"; cases "pgstart r \<le> e") (simp_all add: not_le not_less)
  then show ?case
  proof cases
    case before
    then have "\<forall>y \<in> set (r # ls). pgend y < s" using r(3,4) by (auto intro: less_trans le_less_trans)
    then show ?thesis using Cons.prems(3) [of "[]" "r # ls"] before by (simp add: range_before_page_def)
  next
    case sub
    then show ?thesis using Cons.prems(1) [of r] by (simp add: range_before_page_def page_range_subsumed_by_range_def)
  next
    case over
    then show ?thesis using Cons.prems(2) [of "[]" r ls] by (simp add: range_before_page_def page_range_subsumed_by_range_def in_r)
  next
    case behind
    have eq: "unpin_pass s e (r # ls) = stop_later (unpin_pass s e ls)"
      using behind leD [of "pgstart r" e] by (auto simp: range_before_page_def page_range_subsumed_by_range_def in_r)
    show ?thesis
    proof (rule Cons.IH [OF _ _ _ r(2) Cons.prems(5)])
      fix q assume "unpin_pass s e ls = Stop_Subsumed" "q \<in> set ls" "pgstart q \<le> s" "e \<le> pgend q"
      then show thesis using Cons.prems(1) [of q] eq by simp
    next
      fix xs q ys assume "ls = xs @ q # ys" "unpin_pass s e ls = Stop_Overlap (length xs)" "pgstart q \<le> e" "s \<le> pgend q"
      then show thesis using Cons.prems(2) [of "r # xs" q ys] eq by simp
    next
      fix xs ys assume "ls = xs @ ys" "unpin_pass s e ls = Stop_Insert (length xs)"
        "\<forall>x \<in> set xs. e < pgstart x" "\<forall>y \<in> set ys. pgend y < s"
      then show thesis using Cons.prems(3) [of "r # xs" ys] eq behind(3) by simp
    qed
  qed
qed

text \<open>The pages that end up in one range with the pages from \<open>s\<close> to \<open>e\<close>.\<close>

definition merged :: "u32 \<Rightarrow> u32 \<Rightarrow> ashmem_range list \<Rightarrow> u32 set" where
  "merged s e ls = {s..e} \<union> (\<Union>r \<in> {r \<in> set ls. pages r \<inter> {s..e} \<noteq> {}}. pages r)"

definition unpin_outcome ::
  "nat \<Rightarrow> nat option \<Rightarrow> u32 \<Rightarrow> u32 \<Rightarrow> u32 \<Rightarrow> ashmem_range list \<Rightarrow> ashmem_lru \<Rightarrow> unit ret \<times> ashmem_range list \<times> ashmem_lru \<Rightarrow> bool" where
  "unpin_outcome asma alloc s e p ls l = (\<lambda>(r, ls', l').
     lru_change asma ls l ls' l' \<and> ranges_sorted ls' \<and> ar_addr ` set ls' \<subseteq> ar_addr ` set ls \<union> set_option alloc \<and>
     (case r of
        Inr _ \<Rightarrow> unpinned ls' = unpinned ls \<union> {s..e} \<and>
          flagged ls' = flagged ls \<union> (if p = 1 \<or> flagged ls \<inter> {s..e} \<noteq> {} then merged s e ls else {})
      | Inl err \<Rightarrow> err = ENOMEM \<and> alloc = None \<and> unpinned ls' \<subseteq> unpinned ls \<and> flagged ls' \<subseteq> flagged ls))"

text \<open>Taking one overlapping range out of the list and into the request.\<close>

lemma absorb:
  assumes ok: "ranges_sorted (xs @ r # ys)" and o: "pgstart r \<le> e" "s \<le> pgend r" "s \<le> e"
  shows "{min (pgstart r) s..max (pgend r) e} = {s..e} \<union> pages r"
    and "\<And>q. q \<in> set (xs @ ys) \<Longrightarrow> pages q \<inter> {min (pgstart r) s..max (pgend r) e} = pages q \<inter> {s..e}"
    and "merged (min (pgstart r) s) (max (pgend r) e) (xs @ ys) = merged s e (xs @ r # ys)"
    and "flagged (xs @ ys) \<inter> {min (pgstart r) s..max (pgend r) e} = flagged (xs @ ys) \<inter> {s..e}"
    and "pages r \<inter> unpinned (xs @ ys) = {}" "pages r \<inter> {s..e} \<noteq> {}"
proof -
  have rr: "pgstart r \<le> pgend r" using ok by (auto simp: ranges_sorted_append ranges_sorted_Cons range_ok_def)
  show u: "{min (pgstart r) s..max (pgend r) e} = {s..e} \<union> pages r"
    using o rr by (auto simp: pages_def min_le_iff_disj le_max_iff_disj)
  have d: "pages q \<inter> pages r = {}" if "q \<in> set (xs @ ys)" for q
    using that ok by (auto simp: ranges_sorted_append ranges_sorted_Cons pages_def)
  show q: "pages q \<inter> {min (pgstart r) s..max (pgend r) e} = pages q \<inter> {s..e}" if "q \<in> set (xs @ ys)" for q
    unfolding u using d [OF that] by blast
  show hit: "pages r \<inter> {s..e} \<noteq> {}"
  proof -
    have "max (pgstart r) s \<in> pages r \<inter> {s..e}" using o rr by (auto simp: pages_def)
    then show ?thesis by blast
  qed
  have "{q \<in> set (xs @ ys). pages q \<inter> {min (pgstart r) s..max (pgend r) e} \<noteq> {}} = {q \<in> set (xs @ ys). pages q \<inter> {s..e} \<noteq> {}}"
    using q by auto
  then show "merged (min (pgstart r) s) (max (pgend r) e) (xs @ ys) = merged s e (xs @ r # ys)"
    unfolding merged_def u using hit by auto
  show "flagged (xs @ ys) \<inter> {min (pgstart r) s..max (pgend r) e} = flagged (xs @ ys) \<inter> {s..e}"
    unfolding u using d by (fastforce simp: flagged_def)
  show "pages r \<inter> unpinned (xs @ ys) = {}" using d by (fastforce simp: unpinned_def)
qed

lemma merged_apart:
  assumes "\<forall>r \<in> set ls. pgend r < s \<or> e < pgstart r"
  shows "merged s e ls = {s..e}" "flagged ls \<inter> {s..e} = {}"
proof -
  have a: "pages r \<inter> {s..e} = {}" if "r \<in> set ls" for r using assms that pages_apart [of r s e] by blast
  then show "merged s e ls = {s..e}" by (auto simp: merged_def)
  show "flagged ls \<inter> {s..e} = {}" using a by (auto simp: flagged_def)
qed

lemma unpin_insert:
  assumes ok: "ranges_sorted (xs @ ys)" and dist: "distinct (lru_list l)" and lru: "on_addrs (xs @ ys) \<subseteq> lru_set asma l"
    and fresh: "\<forall>a. alloc = Some a \<longrightarrow> a \<notin> ar_addr ` set (xs @ ys) \<and> a \<notin> lru_set asma l"
    and se: "s \<le> e" "e < - 1" "p \<in> {0, 1}" and place: "\<forall>x \<in> set xs. e < pgstart x" "\<forall>y \<in> set ys. pgend y < s"
  shows "unpin_outcome asma alloc s e p (xs @ ys) l
    (case range_alloc asma alloc p s e l of
       None \<Rightarrow> (Inl ENOMEM, xs @ ys, l) | Some (new, l') \<Rightarrow> (Inr (), xs @ new # ys, l'))"
proof (cases alloc)
  case None
  then show ?thesis using ok change_same [OF dist lru] by (simp add: range_alloc_def unpin_outcome_def)
next
  case (Some n)
  have nf: "n \<notin> ar_addr ` set (xs @ ys)" "n \<notin> lru_set asma l" using fresh Some by auto
  obtain new l' where al: "range_alloc asma alloc p s e l = Some (new, l')" using Some by (simp add: range_alloc_def Let_def)
  note c = change_alloc [OF dist Some nf(2) al]
  have on: "on_addrs (xs @ new # ys) = on_addrs (xs @ ys) \<union> on_addrs [new]" "lru_sum (xs @ new # ys) = lru_sum (xs @ ys) + lru_sum [new]"
    by auto
  have ch: "lru_change asma (xs @ ys) l (xs @ new # ys) l'"
    using conjunct1 [OF c] lru unfolding lru_change_def on by (auto simp: algebra_simps)
  have okn: "range_ok new" using c se by (simp add: range_ok_def)
  have cross: "\<forall>x \<in> set xs. \<forall>y \<in> set ys. pgend y < pgstart x" using ok by (simp add: ranges_sorted_append)
  have ok': "ranges_sorted (xs @ new # ys)"
    using ok okn place nf(1) c cross by (auto simp: ranges_sorted_append ranges_sorted_Cons)
  have "\<forall>r \<in> set (xs @ ys). pgend r < s \<or> e < pgstart r" using place by auto
  note m = merged_apart [OF this]
  have pg: "pages new = {s..e}" "range_on_lru new \<longleftrightarrow> p = 0" using c by (auto simp: pages_def)
  show ?thesis using se(3) ch ok' Some al c m pg by (auto simp: unpin_outcome_def)
qed

lemma unpin_overlap:
  assumes ok: "ranges_sorted (xs @ r # ys)" and dist: "distinct (lru_list l)" and lru: "on_addrs (xs @ r # ys) \<subseteq> lru_set asma l"
    and over: "pgstart r \<le> e" "s \<le> pgend r" "s \<le> e" and p: "p \<in> {0, 1}"
    and rest: "unpin_outcome asma alloc (min (pgstart r) s) (max (pgend r) e) (p OR purged r) (xs @ ys) (range_del asma r l) (ret, ls', l')"
  shows "unpin_outcome asma alloc s e p (xs @ r # ys) l (ret, ls', l')"
proof -
  note ab = absorb [OF ok over]
  have pr: "purged r \<in> {0, 1}" using ok by (auto simp: ranges_sorted_append ranges_sorted_Cons range_ok_def)
  have on: "on_addrs (xs @ r # ys) = on_addrs [r] \<union> on_addrs (xs @ ys)" "lru_sum (xs @ r # ys) = lru_sum [r] + lru_sum (xs @ ys)" by auto
  have "on_addrs [r] \<subseteq> lru_set asma l" using lru on by blast
  note c1 = change_del [OF dist this]
  have rc: "lru_change asma (xs @ ys) (range_del asma r l) ls' l'" using rest by (simp add: unpin_outcome_def)
  have "lru_change asma ([r] @ (xs @ ys)) l ([] @ ls') l'" using c1 rc by (rule change_append) simp
  then have ch: "lru_change asma (xs @ r # ys) l ls' l'" unfolding lru_change_def on by (auto simp: algebra_simps)
  have un: "unpinned (xs @ ys) \<union> {min (pgstart r) s..max (pgend r) e} = unpinned (xs @ r # ys) \<union> {s..e}"
    unfolding ab(1) by auto
  have fl: "flagged (xs @ r # ys) = flagged (xs @ ys) \<union> (if purged r = 0 then {} else pages r)"
    by (auto simp: range_on_lru_def ASHMEM_NOT_PURGED_def)
  have pm: "pages r \<subseteq> merged s e (xs @ r # ys)" using ab(6) by (auto simp: merged_def)
  have cond: "(p OR purged r = 1 \<or> flagged (xs @ ys) \<inter> {min (pgstart r) s..max (pgend r) e} \<noteq> {}) \<longleftrightarrow>
      p = 1 \<or> flagged (xs @ r # ys) \<inter> {s..e} \<noteq> {}"
    unfolding ab(4) fl using p pr ab(6) by auto
  have fl': "flagged (xs @ ys) \<union> (if p = 1 \<or> flagged (xs @ r # ys) \<inter> {s..e} \<noteq> {} then merged s e (xs @ r # ys) else {}) =
      flagged (xs @ r # ys) \<union> (if p = 1 \<or> flagged (xs @ r # ys) \<inter> {s..e} \<noteq> {} then merged s e (xs @ r # ys) else {})"
    using pm ab(6) unfolding fl by auto
  show ?thesis
  proof (cases ret)
    case (Inl err)
    then show ?thesis using rest ch unfolding fl by (auto simp: unpin_outcome_def)
  next
    case (Inr u)
    then show ?thesis using rest ch unfolding unpin_outcome_def prod.case sum.case ab(3) un cond fl' by auto
  qed
qed

lemma ranges_disjoint:
  assumes "ranges_sorted ls" "q \<in> set ls" "r \<in> set ls" "pages q \<inter> pages r \<noteq> {}"
  shows "q = r"
  using assms
proof (induction ls)
  case (Cons x ls)
  have "pages y \<inter> pages x = {}" if "y \<in> set ls" for y
    using that Cons.prems(1) by (fastforce simp: ranges_sorted_Cons pages_def)
  then show ?case using Cons by (auto simp: ranges_sorted_Cons Int_commute)
qed simp

lemma unpin_subsumed:
  assumes ok: "ranges_sorted ls" "distinct (lru_list l)" "on_addrs ls \<subseteq> lru_set asma l"
    and r: "r \<in> set ls" "pgstart r \<le> s" "e \<le> pgend r" and p: "p = 0 \<or> \<not> {s..e} \<subseteq> unpinned ls"
  shows "unpin_outcome asma alloc s e p ls l (Inr (), ls, l)"
proof -
  have sub: "{s..e} \<subseteq> pages r" using r by (auto simp: pages_def)
  then have un: "{s..e} \<subseteq> unpinned ls" using r(1) by (auto simp: unpinned_def)
  have only: "q = r" if "q \<in> set ls" "pages q \<inter> {s..e} \<noteq> {}" for q
    using ranges_disjoint [OF ok(1) that(1) r(1)] that(2) sub by blast
  have "merged s e ls \<subseteq> flagged ls" if hit: "flagged ls \<inter> {s..e} \<noteq> {}"
  proof -
    obtain q where "q \<in> set ls" "\<not> range_on_lru q" "pages q \<inter> {s..e} \<noteq> {}" using hit by (auto simp: flagged_def)
    then have "pages r \<subseteq> flagged ls" using only by (auto simp: flagged_def)
    then show ?thesis using sub only unfolding merged_def by blast
  qed
  moreover have "p \<noteq> 1" using p un by auto
  ultimately show ?thesis using ok un change_same [OF ok(2,3)] by (auto simp: unpin_outcome_def)
qed

lemma unpin_restart_outcome:
  assumes "ranges_sorted ls" "distinct (lru_list l)" "on_addrs ls \<subseteq> lru_set asma l" "s \<le> e" "e < - 1" "p \<in> {0, 1}"
    and "p = 0 \<or> \<not> {s..e} \<subseteq> unpinned ls"
    and "\<forall>a. alloc = Some a \<longrightarrow> a \<notin> ar_addr ` set ls \<and> a \<notin> lru_set asma l"
  shows "unpin_outcome asma alloc s e p ls l (unpin_restart asma alloc s e p ls l)"
  using assms
proof (induction "length ls" arbitrary: ls l s e p rule: less_induct)
  case less
  note prems = less.prems
  show ?case
  proof (cases rule: unpin_pass_cases [OF prems(1,4), case_names subsumed overlap insert])
    case (subsumed r)
    then show ?thesis using unpin_subsumed [OF prems(1-3) subsumed(2-4) prems(7)] by (simp add: unpin_restart.simps)
  next
    case (overlap xs r ys)
    let ?s = "min (pgstart r) s" and ?e = "max (pgend r) e" and ?l = "range_del asma r l"
    have eq: "unpin_restart asma alloc s e p ls l = unpin_restart asma alloc ?s ?e (p OR purged r) (xs @ ys) ?l"
      using overlap(2) unfolding overlap(1) by (subst unpin_restart.simps) simp
    have ok: "ranges_sorted (xs @ r # ys)" using prems(1) overlap(1) by simp
    have r: "range_ok r" "ranges_sorted (xs @ ys)" "ar_addr r \<notin> ar_addr ` set (xs @ ys)"
      using ok by (auto simp: ranges_sorted_append ranges_sorted_Cons)
    have c: "lru_change asma [r] l [] ?l" using prems(2,3) overlap(1) by (intro change_del) auto
    have set: "lru_set asma ?l = lru_set asma l - on_addrs [r]" using change_set [OF c] by simp
    note ab = absorb [OF ok overlap(3,4) prems(4)]
    have "unpin_outcome asma alloc ?s ?e (p OR purged r) (xs @ ys) ?l (unpin_restart asma alloc ?s ?e (p OR purged r) (xs @ ys) ?l)"
    proof (rule less.hyps [OF _ r(2) change_distinct [OF c]])
      show "on_addrs (xs @ ys) \<subseteq> lru_set asma ?l"
        unfolding set using prems(3) overlap(1) r(3) on_addrs_subset [of "xs @ ys"] by auto
      show "?s \<le> ?e" "?e < - 1" using prems(4,5) r(1) by (auto simp: range_ok_def min_le_iff_disj le_max_iff_disj)
      show "p OR purged r \<in> {0, 1}" using prems(6) r(1) by (auto simp: range_ok_def)
      show "p OR purged r = 0 \<or> \<not> {?s..?e} \<subseteq> unpinned (xs @ ys)" using ab(1,5,6) by blast
      show "\<forall>a. alloc = Some a \<longrightarrow> a \<notin> ar_addr ` set (xs @ ys) \<and> a \<notin> lru_set asma ?l"
        unfolding set using prems(8) overlap(1) by auto
    qed (use overlap in simp)
    then show ?thesis unfolding eq unfolding overlap(1)
      using unpin_overlap [OF ok prems(2) _ overlap(3,4) prems(4,6)] prems(3) overlap(1) by (metis prod_cases3)
  next
    case (insert xs ys)
    then show ?thesis using unpin_insert [of xs ys l asma alloc s e p] prems by (simp add: unpin_restart.simps cong: option.case_cong)
  qed
qed

section \<open>The pin status\<close>

lemma pin_status_exact:
  assumes "ranges_sorted ls" "s \<le> e"
  shows "ashmem_get_pin_status s e ls = (if unpinned ls \<inter> {s..e} = {} then ASHMEM_IS_PINNED else ASHMEM_IS_UNPINNED)"
  using assms
proof (induction ls)
  case (Cons r ls)
  have r: "range_ok r" "\<forall>q \<in> set ls. pgend q < pgstart r" "pgstart r \<le> pgend r" "ranges_sorted ls"
    using Cons.prems by (auto simp: ranges_sorted_Cons range_ok_def)
  have in_r: "page_range_in_range r s e \<longleftrightarrow> pages r \<inter> {s..e} \<noteq> {}"
  proof (cases "pgend r < s \<or> e < pgstart r")
    case True
    then show ?thesis using pages_apart [of r s e] leD by (auto simp: in_range_iff [OF Cons.prems(2) r(1)])
  next
    case False
    then have "max (pgstart r) s \<in> pages r \<inter> {s..e}" using r(3) Cons.prems(2) by (auto simp: pages_def not_less)
    then show ?thesis using False by (auto simp: in_range_iff [OF Cons.prems(2) r(1)] not_less)
  qed
  show ?case
  proof (cases "pgend r < s")
    case True
    then have "\<forall>q \<in> set (r # ls). pages q \<inter> {s..e} = {}"
      using r(2,3) by (intro ballI pages_apart) (auto intro: less_trans le_less_trans)
    then have "unpinned (r # ls) \<inter> {s..e} = {}" by (auto simp: unpinned_def)
    then show ?thesis using True by (simp add: range_before_page_def)
  next
    case False
    then show ?thesis using Cons.IH [OF r(4) Cons.prems(2)] in_r by (auto simp: range_before_page_def)
  qed
qed simp

end
