(* ===== verification/Ashmem_State.thy ===== *)
theory Ashmem_State
  imports Ashmem_Ranges
begin

text \<open>
  The invariant of all areas together with the LRU list of mm/ashmem.c, and what a pin request and the
  shrinker do to a state in which it holds.
\<close>

section \<open>The state of all areas\<close>

definition area_pages :: "ashmem_area \<Rightarrow> u32" where
  "area_pages area = PAGE_ALIGN (as_size area) div PAGE_SIZE"

definition name_ok :: "u8 list \<Rightarrow> bool" where
  "name_ok name \<longleftrightarrow> length name = ASHMEM_FULL_NAME_LEN \<and> take ASHMEM_NAME_PREFIX_LEN name = ASHMEM_NAME_PREFIX \<and>
     name ! (ASHMEM_FULL_NAME_LEN - 1) = 0"

definition area_ok :: "ashmem_area \<Rightarrow> bool" where
  "area_ok area \<longleftrightarrow> name_ok (as_name area) \<and> ranges_sorted (unpinned_list area) \<and>
     unpinned (unpinned_list area) \<subseteq> {..<area_pages area} \<and> (as_file area = None \<longrightarrow> unpinned_list area = [])"

definition area_ranges :: "ashmem \<Rightarrow> nat \<Rightarrow> ashmem_range list" where
  "area_ranges st asma = (case as_areas st asma of None \<Rightarrow> [] | Some area \<Rightarrow> unpinned_list area)"

text \<open>The areas are in order, the LRU list holds the ranges that are not purged, and its count is the number of their pages.\<close>

definition ashmem_ok :: "ashmem \<Rightarrow> bool" where
  "ashmem_ok st \<longleftrightarrow> (\<forall>asma area. as_areas st asma = Some area \<longrightarrow> area_ok area) \<and> distinct (lru_list (as_lru st)) \<and>
     (\<forall>asma. lru_set asma (as_lru st) = on_addrs (area_ranges st asma)) \<and>
     finite (dom (as_areas st)) \<and> lru_count (as_lru st) = (\<Sum>asma \<in> dom (as_areas st). lru_sum (area_ranges st asma))"

lemma lru_set_other:
  assumes "filter (\<lambda>p. fst p \<noteq> asma) (lru_list l') = filter (\<lambda>p. fst p \<noteq> asma) (lru_list l)" "b \<noteq> asma"
  shows "lru_set b l' = lru_set b l"
proof -
  have "{x. (b, x) \<in> set (filter (\<lambda>p. fst p \<noteq> asma) (lru_list l'))} = {x. (b, x) \<in> set (filter (\<lambda>p. fst p \<noteq> asma) (lru_list l))}"
    using assms(1) by simp
  then show ?thesis using assms(2) by (simp add: lru_set_def)
qed

lemma ashmem_ok_area:
  assumes "ashmem_ok st" "as_areas st asma = Some area"
  shows "area_ok area" "distinct (lru_list (as_lru st))" "lru_set asma (as_lru st) = on_addrs (unpinned_list area)"
  using assms by (auto simp: ashmem_ok_def area_ranges_def)

lemma store_ok:
  assumes ok: "ashmem_ok st" and area: "as_areas st asma = Some area"
    and ch: "lru_change asma (unpinned_list area) (as_lru st) (unpinned_list area') l'" and new: "area_ok area'"
  shows "ashmem_ok (st\<lparr>as_areas := (as_areas st)(asma \<mapsto> area'), as_lru := l'\<rparr>)"
proof -
  let ?st = "st\<lparr>as_areas := (as_areas st)(asma \<mapsto> area'), as_lru := l'\<rparr>"
  have rng: "area_ranges ?st b = (if b = asma then unpinned_list area' else area_ranges st b)" for b
    by (simp add: area_ranges_def)
  have ls: "area_ranges st asma = unpinned_list area" using area by (simp add: area_ranges_def)
  have set: "lru_set b l' = on_addrs (area_ranges ?st b)" for b
    using ok ch change_set [OF ch] lru_set_other [of asma l' "as_lru st" b] ls
    by (cases "b = asma") (auto simp: rng ashmem_ok_def lru_change_def)
  have dom: "dom (as_areas ?st) = dom (as_areas st)" using area by auto
  have fin: "finite (dom (as_areas st))" "asma \<in> dom (as_areas st)" using ok area by (auto simp: ashmem_ok_def)
  have "(\<Sum>b \<in> dom (as_areas st). lru_sum (area_ranges ?st b)) =
      lru_sum (unpinned_list area') + (\<Sum>b \<in> dom (as_areas st) - {asma}. lru_sum (area_ranges st b))"
    using fin by (simp add: sum.remove rng)
  moreover have "lru_count (as_lru st) = lru_sum (unpinned_list area) + (\<Sum>b \<in> dom (as_areas st) - {asma}. lru_sum (area_ranges st b))"
    using ok fin ls by (simp add: ashmem_ok_def sum.remove)
  ultimately have "lru_count l' = (\<Sum>b \<in> dom (as_areas ?st). lru_sum (area_ranges ?st b))"
    using ch unfolding dom by (simp add: lru_change_def diff_eq_eq)
  then show ?thesis using ok new set change_distinct [OF ch] fin(1) unfolding dom ashmem_ok_def
    by (auto simp: dom)
qed

lemma store_same:
  assumes ok: "ashmem_ok st" and area: "as_areas st asma = Some area" and "unpinned_list area' = unpinned_list area" "area_ok area'"
  shows "ashmem_ok (st\<lparr>as_areas := (as_areas st)(asma \<mapsto> area')\<rparr>)"
proof -
  have "lru_change asma (unpinned_list area) (as_lru st) (unpinned_list area') (as_lru st)"
    using ashmem_ok_area [OF ok area] assms(3) by (simp add: change_same)
  from store_ok [OF ok area this assms(4)] show ?thesis by simp
qed

section \<open>Requests\<close>

lemma low_bits_zero: "(x :: u32) AND NOT PAGE_MASK = 0 \<longleftrightarrow> 4096 dvd unat x"
proof -
  have "x AND NOT PAGE_MASK = take_bit 12 x"
    by (simp add: PAGE_MASK_def PAGE_SIZE_def take_bit_eq_mask mask_eq_exp_minus_1)
  then have "x AND NOT PAGE_MASK = 0 \<longleftrightarrow> unat (take_bit 12 x) = 0" by (simp add: unat_eq_0)
  then show ?thesis by (simp add: unsigned_take_bit_eq take_bit_eq_mod dvd_eq_mod_eq_0 unat_mod)
qed

lemma unat_minus_1_32: "unat (- 1 :: u32) = 2 ^ 32 - 1"
  by (simp add: unsigned_minus_1_eq_mask mask_eq_exp_minus_1)

lemma pin_pages_within:
  assumes "pin_pages area pin = Inr (s, e)" "s \<noteq> e + 1"
  shows "as_file area \<noteq> None \<and> s \<le> e \<and> e < area_pages area \<and> e < - 1"
proof -
  obtain offset len0 where pin: "pin = Some (offset, len0)" using assms(1) by (auto simp: pin_pages_def split: if_splits option.splits)
  define len where "len = (if len0 = 0 then PAGE_ALIGN (as_size area) - offset else len0)"
  have fl: "as_file area \<noteq> None" using assms(1) by (auto simp: pin_pages_def split: if_splits)
  have c: "(offset OR len) AND NOT PAGE_MASK = 0" "len \<le> - 1 - offset" "offset + len \<le> PAGE_ALIGN (as_size area)"
    "s = offset div PAGE_SIZE" "e = s + len div PAGE_SIZE - 1"
    using assms(1) unfolding pin_pages_def pin len_def [symmetric] by (auto simp: Let_def len_def split: if_splits)
  have "offset AND NOT PAGE_MASK = 0" "len AND NOT PAGE_MASK = 0" using c(1) by (simp_all add: bit.conj_disj_distrib2 or_eq_0_iff)
  then have al: "4096 dvd unat offset" "4096 dvd unat len" by (simp_all add: low_bits_zero)
  have "unat (- 1 - offset) = 2 ^ 32 - 1 - unat offset" using unat_sub [of offset "- 1"] by (simp add: unat_minus_1_32)
  then have lt: "unat offset + unat len < 2 ^ 32" using c(2) unat_lt_2_32 [of offset] unfolding word_le_nat_alt by linarith
  then have sum: "unat offset + unat len \<le> unat (PAGE_ALIGN (as_size area))"
    using c(3) unfolding word_le_nat_alt by (simp add: unat_add_lem [THEN iffD1])
  have s: "unat s = unat offset div 4096" and n: "unat (len div PAGE_SIZE) = unat len div 4096"
    by (simp_all add: c(4) PAGE_SIZE_def unat_div)
  have "len div PAGE_SIZE \<noteq> 0" using assms(2) c(5) by auto
  then have pos: "0 < unat len div 4096" using n unat_gt_0 [of "len div PAGE_SIZE"] by simp
  have b: "unat offset div 4096 + unat len div 4096 \<le> unat (PAGE_ALIGN (as_size area)) div 4096"
    using al sum by (metis div_le_mono div_plus_div_distrib_dvd_left)
  moreover have "unat (PAGE_ALIGN (as_size area)) div 4096 < 2 ^ 20" using unat_lt_2_32 [of "PAGE_ALIGN (as_size area)"] by simp
  ultimately have "unat (s + len div PAGE_SIZE) = unat offset div 4096 + unat len div 4096"
    by (subst unat_add_lem [THEN iffD1]) (simp_all add: s n)
  then have e: "unat e = unat offset div 4096 + unat len div 4096 - 1" using pos by (simp add: c(5) unat_sub word_le_nat_alt)
  have "unat (area_pages area) = unat (PAGE_ALIGN (as_size area)) div 4096" by (simp add: area_pages_def PAGE_SIZE_def unat_div)
  then have "s \<le> e" "e < area_pages area" using e s b pos unfolding word_le_nat_alt word_less_nat_alt by linarith+
  moreover have "unat e < 2 ^ 20" using e b \<open>unat (PAGE_ALIGN (as_size area)) div 4096 < 2 ^ 20\<close> by linarith
  then have "e < - 1" unfolding word_less_nat_alt unat_minus_1_32 by simp
  ultimately show ?thesis using fl by simp
qed

section \<open>Pin requests on the state\<close>

definition put_ranges :: "nat \<Rightarrow> ashmem_range list \<Rightarrow> ashmem_lru \<Rightarrow> ashmem \<Rightarrow> ashmem" where
  "put_ranges asma ls l st =
     st\<lparr>as_areas := (as_areas st)(asma := map_option (\<lambda>area. area\<lparr>unpinned_list := ls\<rparr>) (as_areas st asma)), as_lru := l\<rparr>"

text \<open>An allocation gives an address that no range of the area has.\<close>

definition fresh_range :: "nat option \<Rightarrow> nat \<Rightarrow> ashmem \<Rightarrow> bool" where
  "fresh_range alloc asma st \<longleftrightarrow> (case alloc of None \<Rightarrow> True | Some a \<Rightarrow> a \<notin> ar_addr ` set (area_ranges st asma))"

lemma put_ranges_simps:
  "as_areas st asma = Some area \<Longrightarrow> area_ranges (put_ranges asma ls l st) b = (if b = asma then ls else area_ranges st b)"
  "as_truncated (put_ranges asma ls l st) = as_truncated st"
  by (auto simp: put_ranges_def area_ranges_def)

lemma put_ranges_ok:
  assumes ok: "ashmem_ok st" and area: "as_areas st asma = Some area" "as_file area \<noteq> None"
    and ch: "lru_change asma (area_ranges st asma) (as_lru st) ls l" and ls: "ranges_sorted ls" "unpinned ls \<subseteq> {..<area_pages area}"
  shows "ashmem_ok (put_ranges asma ls l st)"
proof -
  have "area_ok (area\<lparr>unpinned_list := ls\<rparr>)"
    using ashmem_ok_area(1) [OF ok area(1)] area(2) ls by (auto simp: area_ok_def area_pages_def)
  from store_ok [OF ok area(1) _ this, of l] show ?thesis using ch area(1) by (simp add: put_ranges_def area_ranges_def)
qed

text \<open>What the ranges of the area have to satisfy for the calls below it.\<close>

lemma area_facts:
  assumes "ashmem_ok st" "as_areas st asma = Some area" "fresh_range alloc asma st"
  shows "ranges_sorted (area_ranges st asma)" "distinct (lru_list (as_lru st))" "on_addrs (area_ranges st asma) \<subseteq> lru_set asma (as_lru st)"
    "unpinned (area_ranges st asma) \<subseteq> {..<area_pages area}"
    "\<forall>a. alloc = Some a \<longrightarrow> a \<notin> ar_addr ` set (area_ranges st asma) \<and> a \<notin> lru_set asma (as_lru st)"
  using assms ashmem_ok_area [OF assms(1,2)] on_addrs_subset [of "area_ranges st asma"]
  by (auto simp: area_ok_def fresh_range_def area_ranges_def)

lemma area_range_list: "as_areas st asma = Some area \<Longrightarrow> unpinned_list area = area_ranges st asma"
  by (simp add: area_ranges_def)

lemma upto_pages: "e < n \<Longrightarrow> {s..e} \<subseteq> {..<n :: u32}"
  by auto

lemma pin_effect:
  assumes ok: "ashmem_ok st" and area: "as_areas st asma = Some area" and fresh: "fresh_range alloc asma st"
    and pin: "pin_pages area pin = Inr (s, e)" "s \<noteq> e + 1"
  obtains ls l where "ashmem_pin_unpin alloc ASHMEM_PIN pin asma st = Some (Inr (uint (purge_hit s e (area_ranges st asma))), put_ranges asma ls l st)"
    "ashmem_ok (put_ranges asma ls l st)" "cut_out (alloc \<noteq> None) s e (area_ranges st asma) ls"
proof -
  note w = pin_pages_within [OF pin] and f = area_facts [OF ok area fresh]
  obtain ls r l where eq: "ashmem_pin asma alloc s e (area_ranges st asma) (as_lru st) = (ls, r, l)" by (rule prod_cases3)
  have out: "lru_change asma (area_ranges st asma) (as_lru st) ls l" "cut_out (alloc \<noteq> None) s e (area_ranges st asma) ls"
      "r = purge_hit s e (area_ranges st asma)"
    using pin_loop_outcome [OF f(1-3) _ f(5), of s e ASHMEM_NOT_PURGED] w eq
    by (simp_all add: ashmem_pin_def pin_outcome_def ASHMEM_NOT_PURGED_def)
  have "ashmem_ok (put_ranges asma ls l st)"
    using put_ranges_ok [OF ok area _ out(1)] w out(2) f(4) by (auto simp: cut_out_def)
  moreover have "ashmem_pin_unpin alloc ASHMEM_PIN pin asma st = Some (Inr (uint (purge_hit s e (area_ranges st asma))), put_ranges asma ls l st)"
    using eq pin(1) unfolding out(3) by (simp add: ashmem_pin_unpin_def area area_range_list [OF area] put_ranges_def)
  ultimately show ?thesis using that out(2) by blast
qed

lemma unpin_effect:
  assumes ok: "ashmem_ok st" and area: "as_areas st asma = Some area" and fresh: "fresh_range alloc asma st"
    and pin: "pin_pages area pin = Inr (s, e)" "s \<noteq> e + 1"
  obtains r ls l where "ashmem_pin_unpin alloc ASHMEM_UNPIN pin asma st = Some (map_sum id (\<lambda>_. 0) r, put_ranges asma ls l st)"
    "ashmem_ok (put_ranges asma ls l st)" "unpin_outcome asma alloc s e 0 (area_ranges st asma) (as_lru st) (r, ls, l)"
proof -
  note w = pin_pages_within [OF pin] and f = area_facts [OF ok area fresh]
  obtain r ls l where eq: "ashmem_unpin asma alloc s e (area_ranges st asma) (as_lru st) = (r, ls, l)" by (rule prod_cases3)
  have out: "unpin_outcome asma alloc s e 0 (area_ranges st asma) (as_lru st) (r, ls, l)"
    using unpin_restart_outcome [OF f(1-3) _ _ _ _ f(5), of s e 0] w eq by (simp add: ashmem_unpin_def ASHMEM_NOT_PURGED_def)
  have "unpinned ls \<subseteq> unpinned (area_ranges st asma) \<union> {s..e}" using out by (auto simp: unpin_outcome_def split: sum.splits)
  also have "\<dots> \<subseteq> {..<area_pages area}" using f(4) w upto_pages by simp
  finally have "ashmem_ok (put_ranges asma ls l st)"
    using put_ranges_ok [OF ok area] w out by (auto simp: unpin_outcome_def)
  moreover have "ashmem_pin_unpin alloc ASHMEM_UNPIN pin asma st = Some (map_sum id (\<lambda>_. 0) r, put_ranges asma ls l st)"
    using eq pin(1) by (cases r) (simp_all add: ashmem_pin_unpin_def area area_range_list [OF area] put_ranges_def)
  ultimately show ?thesis using that out by blast
qed

section \<open>The shrinker\<close>

text \<open>Purging the first range of the LRU list.\<close>

lemma shrink_first:
  assumes ok: "ashmem_ok st" and lru: "lru_list (as_lru st) = (asma, addr) # rest"
  obtains area xs r ys where "as_areas st asma = Some area" "as_file area \<noteq> None" "unpinned_list area = xs @ r # ys"
    "ar_addr r = addr" "range_on_lru r" "addr \<notin> ar_addr ` set (xs @ ys)"
    "ashmem_ok (put_ranges asma (xs @ r\<lparr>purged := ASHMEM_WAS_PURGED\<rparr> # ys) (lru_del asma r (as_lru st)) st)"
    "lru_list (lru_del asma r (as_lru st)) = rest"
proof -
  have "addr \<in> on_addrs (area_ranges st asma)" using ok lru by (auto simp: ashmem_ok_def lru_set_def)
  then obtain r where r: "r \<in> set (area_ranges st asma)" "range_on_lru r" "ar_addr r = addr" by (auto simp: on_addrs_def)
  then obtain area where area: "as_areas st asma = Some area" "r \<in> set (unpinned_list area)"
    by (cases "as_areas st asma") (auto simp: area_ranges_def)
  then obtain xs ys where ls: "unpinned_list area = xs @ r # ys" by (auto dest: split_list)
  note a = ashmem_ok_area [OF ok area(1)]
  have rng: "ranges_sorted (xs @ r # ys)" "as_file area \<noteq> None" "unpinned (xs @ r # ys) \<subseteq> {..<area_pages area}"
    using a(1) ls by (auto simp: area_ok_def)
  let ?r = "r\<lparr>purged := ASHMEM_WAS_PURGED\<rparr>"
  have nin: "addr \<notin> ar_addr ` set (xs @ ys)" using rng(1) r(3) by (auto simp: ranges_sorted_append ranges_sorted_Cons)
  have off: "\<not> range_on_lru ?r" "pages ?r = pages r"
    by (simp_all add: range_on_lru_def pages_def ASHMEM_WAS_PURGED_def ASHMEM_NOT_PURGED_def)
  have on: "on_addrs (xs @ r # ys) = on_addrs [r] \<union> on_addrs (xs @ ys)" "lru_sum (xs @ r # ys) = lru_sum [r] + lru_sum (xs @ ys)"
    "on_addrs (xs @ ?r # ys) = on_addrs (xs @ ys)" "lru_sum (xs @ ?r # ys) = lru_sum (xs @ ys)" using off by auto
  have "lru_change asma [r] (as_lru st) [] (lru_del asma r (as_lru st))"
    using change_del [of "as_lru st" r asma] a(2,3) r(2) ls by (simp add: range_del_def)
  then have ch: "lru_change asma (xs @ r # ys) (as_lru st) (xs @ ?r # ys) (lru_del asma r (as_lru st))"
    using a(3) nin on_addrs_subset [of "xs @ ys"] r(2,3) unfolding lru_change_def on ls by (auto simp: algebra_simps on)
  have "ranges_sorted (xs @ ?r # ys)" "unpinned (xs @ ?r # ys) \<subseteq> {..<area_pages area}"
    using rng off by (auto simp: ranges_sorted_append ranges_sorted_Cons range_ok_def ASHMEM_WAS_PURGED_def)
  then have "ashmem_ok (put_ranges asma (xs @ ?r # ys) (lru_del asma r (as_lru st)) st)"
    using put_ranges_ok [OF ok area(1) rng(2)] ch ls by (simp add: area_range_list [OF area(1), symmetric])
  then show ?thesis using that area(1) rng(2) ls r nin lru by (simp add: lru_del_def)
qed

text \<open>The pages of an area that a list of truncations covers, and how many bytes it covers.\<close>

definition truncated_pages :: "(nat \<times> int \<times> int) list \<Rightarrow> nat \<Rightarrow> u32 set" where
  "truncated_pages log asma = {page. \<exists>(a, start, fin) \<in> set log. a = asma \<and> start \<le> uint page * 4096 \<and> uint page * 4096 \<le> fin}"

definition truncated_bytes :: "(nat \<times> int \<times> int) list \<Rightarrow> int" where
  "truncated_bytes log = (\<Sum>(a, start, fin) \<leftarrow> log. fin + 1 - start)"

lemma truncated_simps [simp]:
  "truncated_pages [] asma = {}" "truncated_bytes [] = 0"
  "truncated_bytes ((a, start, fin) # log) = fin + 1 - start + truncated_bytes log"
  by (simp_all add: truncated_pages_def truncated_bytes_def)

lemma truncated_Cons:
  "truncated_pages ((a, start, fin) # log) asma =
     (if a = asma then {page. start \<le> uint page * 4096 \<and> uint page * 4096 \<le> fin} else {}) \<union> truncated_pages log asma"
  by (auto simp: truncated_pages_def)

lemma area_pages_bound: "unat (area_pages area) < 2 ^ 20"
  using unat_lt_2_32 [of "PAGE_ALIGN (as_size area)"] by (simp add: area_pages_def PAGE_SIZE_def unat_div)

lemma truncation_of_range:
  assumes "range_ok r" "unat (pgend r) < 2 ^ 20"
  shows "uint (pgstart r * PAGE_SIZE) = uint (pgstart r) * 4096"
    "uint ((pgend r + 1) * PAGE_SIZE - 1) = uint (pgend r) * 4096 + 4095"
    "uint (range_size r) = uint (pgend r) - uint (pgstart r) + 1"
    "uint (pgstart r) \<le> uint (pgend r)" "uint (pgend r) - uint (pgstart r) < 2 ^ 20"
proof -
  have "int (unat (pgend r)) < int (2 ^ 20)" using assms(2) by (simp only: of_nat_less_iff)
  then have b: "uint (pgstart r) \<le> uint (pgend r)" "uint (pgend r) < 2 ^ 20"
    using assms(1) by (simp_all add: range_ok_def word_le_def)
  have t: "uint x = y mod 2 ^ 32 \<Longrightarrow> 0 \<le> y \<Longrightarrow> y < 2 ^ 32 \<Longrightarrow> uint x = y" for x :: u32 and y by simp
  show "uint (pgstart r * PAGE_SIZE) = uint (pgstart r) * 4096"
    by (rule t) (use b in \<open>simp_all add: PAGE_SIZE_def uint_word_ariths\<close>)
  have eq: "(pgend r + 1) * PAGE_SIZE - 1 = pgend r * 4096 + 4095" by (simp add: PAGE_SIZE_def algebra_simps)
  show "uint ((pgend r + 1) * PAGE_SIZE - 1) = uint (pgend r) * 4096 + 4095"
    unfolding eq by (rule t) (use b in \<open>simp_all add: uint_word_ariths mod_simps\<close>)
  show "uint (pgstart r) \<le> uint (pgend r)" by (rule b(1))
  show d: "uint (pgend r) - uint (pgstart r) < 2 ^ 20" using b uint_ge_0 [of "pgstart r"] by linarith
  show "uint (range_size r) = uint (pgend r) - uint (pgstart r) + 1"
    by (rule t) (use b d in \<open>simp_all add: range_size_def uint_word_ariths mod_simps\<close>)
qed

lemma truncation_pages:
  "{page :: u32. uint (pgstart r) * 4096 \<le> uint page * 4096 \<and> uint page * 4096 \<le> uint (pgend r) * 4096 + 4095} = pages r"
  by (auto simp: pages_def word_le_def)

text \<open>One round of the loop, as a change of the state.\<close>

definition purge_first :: "nat \<Rightarrow> ashmem_range list \<Rightarrow> ashmem_range \<Rightarrow> ashmem_range list \<Rightarrow> ashmem \<Rightarrow> ashmem" where
  "purge_first asma xs r ys st =
     (put_ranges asma (xs @ r\<lparr>purged := ASHMEM_WAS_PURGED\<rparr> # ys) (lru_del asma r (as_lru st)) st)
     \<lparr>as_truncated := as_truncated st @ [(asma, uint (pgstart r) * 4096, uint (pgend r) * 4096 + 4095)]\<rparr>"

lemma area_ranges_upd [simp]:
  "area_ranges (st\<lparr>as_truncated := t\<rparr>) = area_ranges st" "ashmem_ok (st\<lparr>as_truncated := t\<rparr>) = ashmem_ok st"
  "as_areas (st\<lparr>as_truncated := t\<rparr>) = as_areas st"
  by (simp_all add: area_ranges_def ashmem_ok_def fun_eq_iff)

lemma shrink_round:
  assumes ok: "ashmem_ok st" and lru: "lru_list (as_lru st) = (asma, addr) # rest"
  obtains xs r ys where "area_ranges st asma = xs @ r # ys" "range_ok r" "range_on_lru r" "ashmem_ok (purge_first asma xs r ys st)"
    "lru_list (as_lru (purge_first asma xs r ys st)) = rest" "unat (pgend r) < 2 ^ 20" "as_areas st asma \<noteq> None"
    "shrink_loop nr ((asma, addr) # rest) st =
       (let nr = wrap_s 32 (nr - uint (range_size r)) in
        if nr \<le> 0 then Some (purge_first asma xs r ys st) else shrink_loop nr rest (purge_first asma xs r ys st))"
proof -
  obtain area xs r ys where a: "as_areas st asma = Some area" "as_file area \<noteq> None" "unpinned_list area = xs @ r # ys"
    "ar_addr r = addr" "range_on_lru r" "addr \<notin> ar_addr ` set (xs @ ys)"
    "ashmem_ok (put_ranges asma (xs @ r\<lparr>purged := ASHMEM_WAS_PURGED\<rparr> # ys) (lru_del asma r (as_lru st)) st)"
    "lru_list (lru_del asma r (as_lru st)) = rest" by (rule shrink_first [OF ok lru])
  have ok_area: "area_ok area" by (rule ashmem_ok_area(1) [OF ok a(1)])
  then have r: "range_ok r" "unpinned (xs @ r # ys) \<subseteq> {..<area_pages area}" using a(3) by (auto simp: area_ok_def ranges_sorted_def)
  then have "pgend r < area_pages area" by (auto simp: pages_def range_ok_def)
  then have small: "unat (pgend r) < 2 ^ 20" using area_pages_bound [of area] by (simp add: word_less_nat_alt)
  have find: "find (\<lambda>r. ar_addr r = addr) (unpinned_list area) = Some r"
  proof -
    have "find (\<lambda>r. ar_addr r = addr) xs = None" using a(6) by (auto simp: find_None_iff)
    then show ?thesis unfolding a(3) using a(4) by (induction xs) auto
  qed
  have map: "map (\<lambda>r. if ar_addr r = addr then r\<lparr>purged := ASHMEM_WAS_PURGED\<rparr> else r) (unpinned_list area) =
      xs @ r\<lparr>purged := ASHMEM_WAS_PURGED\<rparr> # ys"
  proof -
    have id: "map (\<lambda>r. if ar_addr r = addr then r\<lparr>purged := ASHMEM_WAS_PURGED\<rparr> else r) zs = zs" if "addr \<notin> ar_addr ` set zs" for zs
      using that by (intro map_idI) auto
    show ?thesis unfolding a(3) using a(4,6) id [of xs] id [of ys] by (simp add: image_Un)
  qed
  note tr = truncation_of_range [OF r(1) small]
  obtain f where f: "as_file area = Some f" using a(2) by auto
  have put: "st\<lparr>as_areas := (as_areas st)(asma \<mapsto> area\<lparr>unpinned_list := xs @ r\<lparr>purged := ASHMEM_WAS_PURGED\<rparr> # ys\<rparr>),
        as_lru := lru_del asma r (as_lru st),
        as_truncated := as_truncated st @ [(asma, uint (pgstart r) * 4096, uint (pgend r) * 4096 + 4095)]\<rparr> = purge_first asma xs r ys st"
    by (simp add: purge_first_def put_ranges_def a(1))
  have "shrink_loop nr ((asma, addr) # rest) st =
       (let nr = wrap_s 32 (nr - uint (range_size r)) in
        if nr \<le> 0 then Some (purge_first asma xs r ys st) else shrink_loop nr rest (purge_first asma xs r ys st))"
    unfolding shrink_loop.simps a(1) bind.bind_lunit f find map Let_def tr(1,2) put by simp
  then show ?thesis using that a small r(1) by (simp add: area_ranges_def purge_first_def put_ranges_def)
qed

definition purged_state :: "ashmem \<Rightarrow> (nat \<times> int \<times> int) list \<Rightarrow> ashmem \<Rightarrow> bool" where
  "purged_state st log st' \<longleftrightarrow>
     as_truncated st' = as_truncated st @ log \<and> dom (as_areas st') = dom (as_areas st) \<and>
     (\<forall>b. unpinned (area_ranges st' b) = unpinned (area_ranges st b) \<and> truncated_pages log b \<subseteq> unpinned (area_ranges st b) \<and>
          flagged (area_ranges st' b) = flagged (area_ranges st b) \<union> truncated_pages log b) \<and>
     map fst (lru_list (as_lru st)) = map fst log @ map fst (lru_list (as_lru st'))"

lemma purged_state_Nil: "purged_state st [] st"
  by (simp add: purged_state_def)

lemma truncated_append: "truncated_pages (xs @ ys) b = truncated_pages xs b \<union> truncated_pages ys b"
  by (auto simp: truncated_pages_def)

lemma purged_state_trans: "purged_state st xs st1 \<Longrightarrow> purged_state st1 ys st2 \<Longrightarrow> purged_state st (xs @ ys) st2"
  unfolding purged_state_def truncated_append by auto

lemma purge_first_state:
  assumes "area_ranges st asma = xs @ r # ys" "as_areas st asma \<noteq> None"
    and "lru_list (as_lru st) = (asma, addr) # lru_list (as_lru (purge_first asma xs r ys st))"
  shows "purged_state st [(asma, uint (pgstart r) * 4096, uint (pgend r) * 4096 + 4095)] (purge_first asma xs r ys st)"
proof -
  obtain area where area: "as_areas st asma = Some area" using assms(2) by auto
  have rng: "area_ranges (purge_first asma xs r ys st) b =
      (if b = asma then xs @ r\<lparr>purged := ASHMEM_WAS_PURGED\<rparr> # ys else area_ranges st b)" for b
    by (simp add: purge_first_def put_ranges_simps(1) [OF area])
  have r: "\<not> range_on_lru (r\<lparr>purged := ASHMEM_WAS_PURGED\<rparr>)" "pages (r\<lparr>purged := ASHMEM_WAS_PURGED\<rparr>) = pages r"
    by (simp_all add: range_on_lru_def pages_def ASHMEM_WAS_PURGED_def ASHMEM_NOT_PURGED_def)
  have tp: "truncated_pages [(asma, uint (pgstart r) * 4096, uint (pgend r) * 4096 + 4095)] b = (if b = asma then pages r else {})" for b
    unfolding truncated_Cons truncation_pages by simp
  have "dom (as_areas (purge_first asma xs r ys st)) = dom (as_areas st)"
    using area by (auto simp: purge_first_def put_ranges_def)
  moreover have "as_truncated (purge_first asma xs r ys st) = as_truncated st @ [(asma, uint (pgstart r) * 4096, uint (pgend r) * 4096 + 4095)]"
    by (simp add: purge_first_def)
  ultimately show ?thesis unfolding purged_state_def tp rng using assms(1,3) r by auto
qed

text \<open>The shrinker purges in the order of the list, and no more ranges than it takes to reach the number of pages.\<close>

definition purged_enough :: "int \<Rightarrow> (nat \<times> int \<times> int) list \<Rightarrow> ashmem \<Rightarrow> bool" where
  "purged_enough nr log st \<longleftrightarrow>
     (lru_list (as_lru st) = [] \<or> nr * 4096 \<le> truncated_bytes log) \<and> (log \<noteq> [] \<longrightarrow> truncated_bytes (butlast log) < nr * 4096)"

lemma shrink_loop_effect:
  assumes "ashmem_ok st" "lru_list (as_lru st) = lru"
  shows "\<exists>log st'. shrink_loop nr lru st = Some st' \<and> ashmem_ok st' \<and> purged_state st log st' \<and>
    (0 < nr \<and> nr < 2 ^ 31 \<longrightarrow> purged_enough nr log st')"
  using assms
proof (induction lru arbitrary: nr st)
  case Nil
  then show ?case using purged_state_Nil [of st] by (intro exI [of _ "[]"] exI [of _ st]) (simp add: purged_enough_def)
next
  case (Cons p rest)
  obtain asma addr where p: "p = (asma, addr)" by (cases p)
  let ?n = "\<lambda>r. wrap_s 32 (nr - uint (range_size r))"
  obtain xs r ys where r: "area_ranges st asma = xs @ r # ys" "range_ok r" "range_on_lru r"
    and ok1: "ashmem_ok (purge_first asma xs r ys st)" and lru1: "lru_list (as_lru (purge_first asma xs r ys st)) = rest"
    and small: "unat (pgend r) < 2 ^ 20" and ar: "as_areas st asma \<noteq> None"
    and eq: "shrink_loop nr ((asma, addr) # rest) st =
       (let nr = ?n r in if nr \<le> 0 then Some (purge_first asma xs r ys st) else shrink_loop nr rest (purge_first asma xs r ys st))"
    using shrink_round [OF Cons.prems(1) Cons.prems(2) [unfolded p], of nr] .
  let ?st = "purge_first asma xs r ys st" and ?t = "(asma, uint (pgstart r) * 4096, uint (pgend r) * 4096 + 4095)"
  have one: "purged_state st [?t] ?st" using purge_first_state [OF r(1) ar] Cons.prems(2) lru1 p by simp
  have sz: "uint (pgend r) * 4096 + 4095 + 1 - uint (pgstart r) * 4096 = uint (range_size r) * 4096" "1 \<le> uint (range_size r)"
    "uint (range_size r) < 2 ^ 31"
    using truncation_of_range(3-5) [OF r(2) small] uint_ge_0 [of "pgstart r"] by (simp_all add: algebra_simps)
  show ?case
  proof (cases "?n r \<le> 0")
    case True
    have "purged_enough nr [?t] ?st" if "0 < nr" "nr < 2 ^ 31"
    proof -
      have "?n r = nr - uint (range_size r)" using that sz(2,3) by (intro wrap_s_id) simp_all
      then show ?thesis using True that(1) sz(1) by (simp add: purged_enough_def)
    qed
    then show ?thesis using True eq ok1 one unfolding p Let_def by auto
  next
    case False
    obtain log st' where st': "shrink_loop (?n r) rest ?st = Some st'" "ashmem_ok st'" "purged_state ?st log st'"
      "0 < ?n r \<and> ?n r < 2 ^ 31 \<longrightarrow> purged_enough (?n r) log st'"
      using Cons.IH [OF ok1 lru1, of "?n r"] by blast
    have "purged_enough nr (?t # log) st'" if "0 < nr" "nr < 2 ^ 31"
    proof -
      have n: "?n r = nr - uint (range_size r)" using that sz(2,3) by (intro wrap_s_id) simp_all
      then have "purged_enough (?n r) log st'" using st'(4) False that(2) sz(2) by linarith
      then show ?thesis using False that(1) sz(1) unfolding purged_enough_def n by (auto simp: algebra_simps)
    qed
    moreover have "purged_state st (?t # log) st'" using purged_state_trans [OF one st'(3)] by simp
    ultimately show ?thesis using False eq st'(1,2) unfolding p Let_def by (intro exI [of _ "?t # log"] exI [of _ st']) simp
  qed
qed

end
