(* ===== verification/Ashmem_Calls.thy ===== *)
theory Ashmem_Calls
  imports Ashmem_State
begin

text \<open>
  The device of mm/ashmem.c under any sequence of calls: what each entry point does to a state in which
  the invariant holds, the contract of a device whose calls return and keep an invariant, and the theorems
  about sequences of calls. The last sections have concrete runs, the lemmas on names and protections, and
  the limits of the code.
\<close>

section \<open>Sequences of calls\<close>

fun run_device :: "('c \<Rightarrow> 's \<Rightarrow> ('r \<times> 's) option) \<Rightarrow> 'c list \<Rightarrow> 's \<Rightarrow> ('r list \<times> 's) option" where
  "run_device exec [] s = Some ([], s)"
| "run_device exec (c # cs) s =
     (case exec c s of
        None \<Rightarrow> None
      | Some (r, s1) \<Rightarrow> map_option (\<lambda>(rs, s2). (r # rs, s2)) (run_device exec cs s1))"

text \<open>Each call of the sequence is allowed in the state it meets.\<close>

fun all_allowed :: "('c \<Rightarrow> 's \<Rightarrow> ('r \<times> 's) option) \<Rightarrow> ('c \<Rightarrow> 's \<Rightarrow> bool) \<Rightarrow> 'c list \<Rightarrow> 's \<Rightarrow> bool" where
  "all_allowed exec allowed [] s = True"
| "all_allowed exec allowed (c # cs) s \<longleftrightarrow>
     allowed c s \<and> (case exec c s of None \<Rightarrow> True | Some (r, s1) \<Rightarrow> all_allowed exec allowed cs s1)"

text \<open>Each call of the sequence returns, and its result satisfies \<open>good\<close>.\<close>

fun all_good :: "('c \<Rightarrow> 's \<Rightarrow> ('r \<times> 's) option) \<Rightarrow> ('c \<Rightarrow> 's \<Rightarrow> 'r \<Rightarrow> 's \<Rightarrow> bool) \<Rightarrow> 'c list \<Rightarrow> 's \<Rightarrow> bool" where
  "all_good exec good [] s = True"
| "all_good exec good (c # cs) s =
     (case exec c s of None \<Rightarrow> False | Some (r, s1) \<Rightarrow> good c s r s1 \<and> all_good exec good cs s1)"

text \<open>The contract of a device: an allowed call returns and keeps the invariant.\<close>

locale device_calls =
  fixes exec :: "'c \<Rightarrow> 's \<Rightarrow> ('r \<times> 's) option" and allowed :: "'c \<Rightarrow> 's \<Rightarrow> bool" and inv :: "'s \<Rightarrow> bool"
  assumes keeps: "inv s \<Longrightarrow> allowed c s \<Longrightarrow> \<exists>r s'. exec c s = Some (r, s') \<and> inv s'"
begin

lemma run_returns:
  "inv s \<Longrightarrow> all_allowed exec allowed cs s \<Longrightarrow> \<exists>rs s'. run_device exec cs s = Some (rs, s') \<and> length rs = length cs \<and> inv s'"
proof (induction cs arbitrary: s)
  case (Cons c cs)
  obtain r s1 where "exec c s = Some (r, s1)" "inv s1" using keeps [OF Cons.prems(1), of c] Cons.prems(2) by auto
  then show ?case using Cons.IH [of s1] Cons.prems(2) by auto
qed simp

end

text \<open>A device whose calls also satisfy a relation between the states before and after.\<close>

locale checked_calls = device_calls exec allowed inv
  for exec :: "'c \<Rightarrow> 's \<Rightarrow> ('r \<times> 's) option" and allowed and inv +
  fixes good :: "'c \<Rightarrow> 's \<Rightarrow> 'r \<Rightarrow> 's \<Rightarrow> bool"
  assumes checked: "inv s \<Longrightarrow> allowed c s \<Longrightarrow> exec c s = Some (r, s') \<Longrightarrow> good c s r s'"
begin

lemma run_good: "inv s \<Longrightarrow> all_allowed exec allowed cs s \<Longrightarrow> all_good exec good cs s"
proof (induction cs arbitrary: s)
  case (Cons c cs)
  obtain r s1 where "exec c s = Some (r, s1)" "inv s1" using keeps [OF Cons.prems(1), of c] Cons.prems(2) by auto
  then show ?case using Cons.IH [of s1] checked [of s c r s1] Cons.prems by auto
qed simp

end

section \<open>What the callers keep to\<close>

text \<open>
  Calls reach areas that are open, a new area or range has an unused address, a name comes with all its
  bytes, and a request names at least one page.
\<close>

definition names_pages :: "(u32 \<times> u32) option \<Rightarrow> nat \<Rightarrow> ashmem \<Rightarrow> bool" where
  "names_pages pin asma st \<longleftrightarrow>
     (case as_areas st asma of
        None \<Rightarrow> True
      | Some area \<Rightarrow> (case pin_pages area pin of Inl _ \<Rightarrow> True | Inr (s, e) \<Rightarrow> s \<noteq> e + 1))"

fun ashmem_allowed :: "ashmem_call \<Rightarrow> ashmem \<times> kernel \<Rightarrow> bool" where
  "ashmem_allowed (Ash_open alloc) (st, k) = (case alloc of None \<Rightarrow> True | Some a \<Rightarrow> as_areas st a = None)"
| "ashmem_allowed (Ash_release asma) (st, k) = (as_areas st asma \<noteq> None)"
| "ashmem_allowed (Ash_read read asma) (st, k) = (as_areas st asma \<noteq> None)"
| "ashmem_allowed (Ash_mmap file_setup vm_flags asma) (st, k) = (as_areas st asma \<noteq> None)"
| "ashmem_allowed (Ash_ioctl personality alloc cmd asma) (st, k) =
     (as_areas st asma \<noteq> None \<and>
      (case cmd of
         ASHMEM_SET_NAME bytes fault \<Rightarrow> length bytes = ASHMEM_NAME_LEN
       | ASHMEM_PIN_UNPIN c pin \<Rightarrow> fresh_range alloc asma st \<and> names_pages pin asma st
       | _ \<Rightarrow> True))"
| "ashmem_allowed (Ash_shrink nr gfp_mask) (st, k) = True"

text \<open>The request of a call that pins pages.\<close>

definition pin_request :: "ashmem_call \<Rightarrow> ashmem \<Rightarrow> (nat \<times> u32 \<times> u32) option" where
  "pin_request c st =
     (case c of
        Ash_ioctl personality alloc (ASHMEM_PIN_UNPIN ASHMEM_PIN pin) asma \<Rightarrow>
          (case as_areas st asma of
             None \<Rightarrow> None
           | Some area \<Rightarrow> (case pin_pages area pin of Inl _ \<Rightarrow> None | Inr (s, e) \<Rightarrow> Some (asma, s, e)))
      | _ \<Rightarrow> None)"

definition pinned_pages :: "ashmem_call \<Rightarrow> ashmem \<Rightarrow> nat \<Rightarrow> u32 set" where
  "pinned_pages c st b = (case pin_request c st of None \<Rightarrow> {} | Some (asma, s, e) \<Rightarrow> if b = asma then {s..e} else {})"

text \<open>The allocations of the call succeed.\<close>

definition call_memory :: "ashmem_call \<Rightarrow> bool" where
  "call_memory c \<longleftrightarrow> (case c of Ash_ioctl personality alloc (ASHMEM_PIN_UNPIN op pin) asma \<Rightarrow> alloc \<noteq> None | _ \<Rightarrow> True)"

section \<open>The effect of a call\<close>

text \<open>
  The truncations of a call hit unpinned pages only. With memory for its ranges, a call keeps every purge
  flag except those of the pages it pins, adds those of the pages that are truncated, and a pin request
  reports the flags it finds.
\<close>

definition call_effect :: "ashmem_call \<Rightarrow> ashmem \<Rightarrow> int ret \<Rightarrow> ashmem \<Rightarrow> bool" where
  "call_effect c st r st' \<longleftrightarrow>
     ashmem_ok st' \<and>
     (\<exists>log. as_truncated st' = as_truncated st @ log \<and>
        (\<forall>b. truncated_pages log b \<subseteq> unpinned (area_ranges st b)) \<and>
        (call_memory c \<longrightarrow> (\<forall>b. as_areas st' b \<noteq> None \<longrightarrow>
           flagged (area_ranges st b) - pinned_pages c st b \<union> truncated_pages log b \<subseteq> flagged (area_ranges st' b)))) \<and>
     (case pin_request c st of
        None \<Rightarrow> True
      | Some (asma, s, e) \<Rightarrow> r = Inr (uint (purge_hit s e (area_ranges st asma))))"

lemma effect_same:
  assumes "ashmem_ok st'" "as_truncated st' = as_truncated st" "\<And>b. as_areas st' b \<noteq> None \<Longrightarrow> area_ranges st' b = area_ranges st b"
    "pin_request c st = None"
  shows "call_effect c st r st'"
  using assms by (auto simp: call_effect_def pinned_pages_def)

lemma effect_purged: "ashmem_ok st' \<Longrightarrow> purged_state st log st' \<Longrightarrow> pin_request c st = None \<Longrightarrow> call_effect c st r st'"
  by (auto simp: call_effect_def pinned_pages_def purged_state_def)

lemma same_area_ranges:
  assumes "as_areas st asma = Some area" "unpinned_list area' = unpinned_list area"
  shows "area_ranges (st\<lparr>as_areas := (as_areas st)(asma \<mapsto> area')\<rparr>) b = area_ranges st b"
  using assms by (simp add: area_ranges_def)

lemma effect_area:
  assumes "ashmem_ok st" "as_areas st asma = Some area" "unpinned_list area' = unpinned_list area" "area_ok area'" "pin_request c st = None"
  shows "call_effect c st r (st\<lparr>as_areas := (as_areas st)(asma \<mapsto> area')\<rparr>)"
  using assms store_same [OF assms(1-4)] same_area_ranges [OF assms(2,3)] by (intro effect_same) simp_all

lemma shrink_effect:
  assumes "ashmem_ok st"
  obtains n st' log where "ashmem_shrink nr gfp_mask st = Some (n, st')" "ashmem_ok st'" "purged_state st log st'"
    "0 < nr \<Longrightarrow> nr < 2 ^ 31 \<Longrightarrow> gfp_mask AND GFP_FS \<noteq> 0 \<Longrightarrow> purged_enough nr log st'"
    "nr = 0 \<or> gfp_mask AND GFP_FS \<noteq> 0 \<Longrightarrow> n = wrap_s 32 (uint (lru_count (as_lru st')))"
    "nr = 0 \<Longrightarrow> st' = st"
proof (cases "nr = 0 \<or> gfp_mask AND GFP_FS = 0")
  case True
  then show ?thesis using that [of "if nr = 0 then wrap_s 32 (uint (lru_count (as_lru st))) else - 1" st "[]"] assms purged_state_Nil [of st]
    by (auto simp: ashmem_shrink_def)
next
  case False
  obtain log st' where "shrink_loop nr (lru_list (as_lru st)) st = Some st'" "ashmem_ok st'" "purged_state st log st'"
    "0 < nr \<and> nr < 2 ^ 31 \<longrightarrow> purged_enough nr log st'"
    using shrink_loop_effect [OF assms refl, of nr] by blast
  then show ?thesis using that [of _ st' log] False by (auto simp: ashmem_shrink_def)
qed

lemma open_effect:
  assumes ok: "ashmem_ok st" and fresh: "\<forall>a. alloc = Some a \<longrightarrow> as_areas st a = None"
  shows "call_effect (Ash_open alloc) st r (snd (ashmem_open alloc st))"
proof (rule effect_same)
  show "ashmem_ok (snd (ashmem_open alloc st))"
  proof (cases alloc)
    case (Some a)
    let ?area = "\<lparr>as_name = ASHMEM_NAME_PREFIX @ replicate ASHMEM_NAME_LEN 0, unpinned_list = [], as_file = None, as_size = 0, prot_mask = PROT_MASK\<rparr>"
    let ?st = "st\<lparr>as_areas := (as_areas st)(a \<mapsto> ?area)\<rparr>"
    have none: "as_areas st a = None" using fresh Some by simp
    have rng: "area_ranges ?st b = area_ranges st b" for b using none by (simp add: area_ranges_def)
    have "lru_sum (area_ranges st a) = 0" using none by (simp add: area_ranges_def)
    moreover have "name_ok (ASHMEM_NAME_PREFIX @ replicate ASHMEM_NAME_LEN 0)"
      by (simp add: name_ok_def ASHMEM_FULL_NAME_LEN_def ASHMEM_NAME_LEN_def ASHMEM_NAME_PREFIX_LEN_def nth_append)
    then have "area_ok ?area" by (simp add: area_ok_def)
    ultimately show ?thesis using ok none unfolding Some by (simp add: ashmem_open_def ashmem_ok_def rng sum.insert domIff)
  qed (use ok in \<open>simp add: ashmem_open_def\<close>)
qed (use fresh in \<open>auto simp: ashmem_open_def area_ranges_def pin_request_def split: option.splits\<close>)

lemma change_fold_del:
  assumes "distinct (lru_list l)" "on_addrs ls \<subseteq> lru_set asma l" "distinct (map ar_addr ls)"
  shows "lru_change asma ls l [] (fold (range_del asma) ls l)"
  using assms
proof (induction ls arbitrary: l)
  case Nil
  then show ?case by (simp add: change_same)
next
  case (Cons r ls)
  have c: "lru_change asma [r] l [] (range_del asma r l)" using Cons.prems by (intro change_del) auto
  have "on_addrs ls \<subseteq> lru_set asma (range_del asma r l)"
    unfolding change_set [OF c] using Cons.prems(2,3) on_addrs_subset [of ls] by auto
  then have "lru_change asma ls (range_del asma r l) [] (fold (range_del asma) ls (range_del asma r l))"
    using Cons.IH [OF change_distinct [OF c]] Cons.prems(3) by simp
  from change_append [OF c this] show ?case by simp
qed

lemma release_effect:
  assumes ok: "ashmem_ok st" and area: "as_areas st asma = Some area"
  obtains st' where "ashmem_release asma st = Some st'" "call_effect (Ash_release asma) st r st'"
proof -
  let ?l = "fold (range_del asma) (unpinned_list area) (as_lru st)"
  let ?st = "st\<lparr>as_areas := (as_areas st)(asma := None), as_lru := ?l\<rparr>"
  note a = ashmem_ok_area [OF ok area]
  have ch: "lru_change asma (unpinned_list area) (as_lru st) [] ?l"
    using a by (intro change_fold_del) (simp_all add: area_ok_def ranges_sorted_def)
  have rng: "area_ranges ?st b = (if b = asma then [] else area_ranges st b)" for b by (simp add: area_ranges_def)
  have set: "lru_set b ?l = on_addrs (area_ranges ?st b)" for b
    using ok a(3) ch change_set [OF ch] lru_set_other [of asma ?l "as_lru st" b]
    by (cases "b = asma") (auto simp: rng ashmem_ok_def lru_change_def)
  have fin: "finite (dom (as_areas st))" "asma \<in> dom (as_areas st)" using ok area by (auto simp: ashmem_ok_def)
  have "lru_count (as_lru st) = lru_sum (unpinned_list area) + (\<Sum>b \<in> dom (as_areas st) - {asma}. lru_sum (area_ranges st b))"
    using ok fin area by (simp add: ashmem_ok_def sum.remove area_ranges_def)
  then have "lru_count ?l = (\<Sum>b \<in> dom (as_areas ?st). lru_sum (area_ranges ?st b))"
    using ch by (simp add: lru_change_def rng diff_eq_eq cong: sum.cong_simp)
  then have "ashmem_ok ?st" using ok set change_distinct [OF ch] fin by (auto simp: ashmem_ok_def)
  then have "call_effect (Ash_release asma) st r ?st"
    by (rule effect_same) (auto simp: rng pin_request_def)
  then show ?thesis using that by (simp add: ashmem_release_def area)
qed

lemma mmap_effect:
  assumes ok: "ashmem_ok st" and area: "as_areas st asma = Some area"
  obtains q st' where "ashmem_mmap file_setup vm_flags asma st = Some (q, st')" "\<And>r. call_effect (Ash_mmap file_setup vm_flags asma) st r st'"
proof -
  have same: "call_effect (Ash_mmap file_setup vm_flags asma) st r st" for r using ok by (intro effect_same) (simp_all add: pin_request_def)
  have upd: "call_effect (Ash_mmap file_setup vm_flags asma) st r (st\<lparr>as_areas := (as_areas st)(asma \<mapsto> area\<lparr>as_file := Some f\<rparr>)\<rparr>)" for r f
    using ashmem_ok_area(1) [OF ok area] by (intro effect_area [OF ok area]) (simp_all add: area_ok_def area_pages_def pin_request_def)
  obtain q st' where eq: "ashmem_mmap file_setup vm_flags asma st = Some (q, st')"
    by (cases "ashmem_mmap file_setup vm_flags asma st") (auto simp: ashmem_mmap_def area)
  then have "st' = st \<or> (\<exists>f. st' = st\<lparr>as_areas := (as_areas st)(asma \<mapsto> area\<lparr>as_file := Some f\<rparr>)\<rparr>)"
    by (auto simp: ashmem_mmap_def area Let_def split: if_splits option.splits sum.splits)
  then show ?thesis using that [OF eq] same upd by auto
qed

lemma pin_unpin_effect:
  assumes ok: "ashmem_ok st" and area: "as_areas st asma = Some area"
    and req: "fresh_range alloc asma st" "names_pages pin asma st"
  obtains r st' where "ashmem_pin_unpin alloc op pin asma st = Some (r, st')"
    "call_effect (Ash_ioctl personality alloc (ASHMEM_PIN_UNPIN op pin) asma) st r st'"
proof (cases "pin_pages area pin")
  case (Inl err)
  then have "call_effect (Ash_ioctl personality alloc (ASHMEM_PIN_UNPIN op pin) asma) st (Inl err) st"
    using ok by (intro effect_same) (auto simp: pin_request_def area split: ashmem_pin_cmd.splits)
  then show ?thesis using that Inl by (simp add: ashmem_pin_unpin_def area)
next
  case (Inr q)
  obtain s e where q: "q = (s, e)" by (cases q)
  have pin: "pin_pages area pin = Inr (s, e)" "s \<noteq> e + 1" using req(2) Inr area q by (auto simp: names_pages_def)
  show ?thesis
  proof (cases op)
    case ASHMEM_PIN
    obtain ls l where p: "ashmem_pin_unpin alloc ASHMEM_PIN pin asma st = Some (Inr (uint (purge_hit s e (area_ranges st asma))), put_ranges asma ls l st)"
      "ashmem_ok (put_ranges asma ls l st)" "cut_out (alloc \<noteq> None) s e (area_ranges st asma) ls"
      by (rule pin_effect [OF ok area req(1) pin])
    have req: "pin_request (Ash_ioctl personality alloc (ASHMEM_PIN_UNPIN ASHMEM_PIN pin) asma) st = Some (asma, s, e)"
      by (simp add: pin_request_def area pin(1))
    have "call_effect (Ash_ioctl personality alloc (ASHMEM_PIN_UNPIN ASHMEM_PIN pin) asma) st
        (Inr (uint (purge_hit s e (area_ranges st asma)))) (put_ranges asma ls l st)"
      using p(2,3) unfolding call_effect_def req pinned_pages_def put_ranges_simps
      by (auto simp: call_memory_def put_ranges_simps(1) [OF area] cut_out_def)
    then show ?thesis using that p(1) ASHMEM_PIN by blast
  next
    case ASHMEM_UNPIN
    obtain r ls l where p: "ashmem_pin_unpin alloc ASHMEM_UNPIN pin asma st = Some (map_sum id (\<lambda>_. 0) r, put_ranges asma ls l st)"
      "ashmem_ok (put_ranges asma ls l st)" "unpin_outcome asma alloc s e 0 (area_ranges st asma) (as_lru st) (r, ls, l)"
      by (rule unpin_effect [OF ok area req(1) pin])
    have req: "pin_request (Ash_ioctl personality alloc (ASHMEM_PIN_UNPIN ASHMEM_UNPIN pin) asma) st = None"
      by (simp add: pin_request_def)
    have "call_effect (Ash_ioctl personality alloc (ASHMEM_PIN_UNPIN ASHMEM_UNPIN pin) asma) st
        (map_sum id (\<lambda>_. 0) r) (put_ranges asma ls l st)"
      using p(2,3) unfolding call_effect_def req pinned_pages_def put_ranges_simps
      by (auto simp: call_memory_def put_ranges_simps(1) [OF area] unpin_outcome_def split: sum.splits)
    then show ?thesis using that p(1) ASHMEM_UNPIN by blast
  next
    case ASHMEM_GET_PIN_STATUS
    have "call_effect (Ash_ioctl personality alloc (ASHMEM_PIN_UNPIN op pin) asma) st r st" for r
      using ok ASHMEM_GET_PIN_STATUS by (intro effect_same) (simp_all add: pin_request_def)
    then show ?thesis using that pin(1) ASHMEM_GET_PIN_STATUS by (simp add: ashmem_pin_unpin_def area)
  qed
qed

lemma gfp_kernel_fs: "GFP_KERNEL AND GFP_FS \<noteq> 0"
  by (simp add: GFP_KERNEL_def GFP_FS_def)

lemma purge_all_effect:
  assumes ok: "ashmem_ok st" and area: "as_areas st asma = Some area"
  obtains r st' k' where "ashmem_ioctl kc personality alloc ASHMEM_PURGE_ALL_CACHES asma st k = Some (r, st', k')"
    "call_effect (Ash_ioctl personality alloc ASHMEM_PURGE_ALL_CACHES asma) st r st'"
proof -
  have none: "pin_request (Ash_ioctl personality alloc ASHMEM_PURGE_ALL_CACHES asma) st = None" by (simp add: pin_request_def)
  have same: "call_effect (Ash_ioctl personality alloc ASHMEM_PURGE_ALL_CACHES asma) st r st" for r
    using ok none by (intro effect_same) simp_all
  obtain n where n: "ashmem_shrink 0 GFP_KERNEL st = Some (n, st)" by (simp add: ashmem_shrink_def)
  obtain m st' log where s: "ashmem_shrink n GFP_KERNEL st = Some (m, st')" "ashmem_ok st'" "purged_state st log st'"
    by (rule shrink_effect [OF ok])
  note e = effect_purged [OF s(2,3) none]
  show ?thesis
  proof (cases "capable kc CAP_SYS_ADMIN k")
    case (Pair b k')
    then show ?thesis using that same e n s(1) by (cases b) (simp_all add: ashmem_ioctl_def area)
  qed
qed

lemma name_ok_set:
  assumes "name_ok name" "length bytes = ASHMEM_NAME_LEN"
  shows "name_ok ((take ASHMEM_NAME_PREFIX_LEN name @ bytes)[ASHMEM_FULL_NAME_LEN - 1 := 0])"
  using assms
  by (simp add: name_ok_def ASHMEM_FULL_NAME_LEN_def ASHMEM_NAME_PREFIX_LEN_def ASHMEM_NAME_LEN_def take_update_cancel)

lemma set_name_area:
  assumes "area_ok area" "length bytes = ASHMEM_NAME_LEN"
  shows "area_ok (snd (set_name bytes fault area))" "unpinned_list (snd (set_name bytes fault area)) = unpinned_list area"
  using assms name_ok_set [of "as_name area" bytes] by (auto simp: set_name_def area_ok_def area_pages_def)

lemma set_prot_area:
  assumes "area_ok area"
  shows "area_ok (snd (set_prot_mask personality prot area))" "unpinned_list (snd (set_prot_mask personality prot area)) = unpinned_list area"
  using assms by (auto simp: set_prot_mask_def area_ok_def area_pages_def Let_def)

lemma set_size_area: "area_ok area \<Longrightarrow> as_file area = None \<Longrightarrow> area_ok (area\<lparr>as_size := n\<rparr>)"
  by (simp add: area_ok_def)

lemma ioctl_effect:
  assumes ok: "ashmem_ok st" and allowed: "ashmem_allowed (Ash_ioctl personality alloc cmd asma) (st, k)"
  obtains r st' k' where "ashmem_ioctl kc personality alloc cmd asma st k = Some (r, st', k')"
    "call_effect (Ash_ioctl personality alloc cmd asma) st r st'"
proof -
  obtain area where area: "as_areas st asma = Some area" using allowed by auto
  note a = ashmem_ok_area(1) [OF ok area]
  have same: "call_effect (Ash_ioctl personality alloc cmd asma) st r st" if "pin_request (Ash_ioctl personality alloc cmd asma) st = None" for r
    using ok that by (intro effect_same) simp_all
  note upd = effect_area [OF ok area, of _ "Ash_ioctl personality alloc cmd asma"]
  show ?thesis
  proof (cases cmd)
    case (ASHMEM_SET_NAME bytes fault)
    then show ?thesis using that upd set_name_area [OF a, of bytes fault] allowed
      by (cases "set_name bytes fault area") (simp add: ashmem_ioctl_def area pin_request_def)
  next
    case (ASHMEM_GET_NAME fault)
    then show ?thesis using that same by (simp add: ashmem_ioctl_def area pin_request_def)
  next
    case (ASHMEM_SET_SIZE n)
    then show ?thesis using that same upd [of "area\<lparr>as_size := n\<rparr>"] set_size_area [OF a]
      by (cases "as_file area") (simp_all add: ashmem_ioctl_def area pin_request_def)
  next
    case ASHMEM_GET_SIZE
    then show ?thesis using that same by (simp add: ashmem_ioctl_def area pin_request_def)
  next
    case (ASHMEM_SET_PROT_MASK prot)
    then show ?thesis using that upd set_prot_area [OF a, of personality prot]
      by (cases "set_prot_mask personality prot area") (simp add: ashmem_ioctl_def area pin_request_def)
  next
    case ASHMEM_GET_PROT_MASK
    then show ?thesis using that same by (simp add: ashmem_ioctl_def area pin_request_def)
  next
    case (ASHMEM_PIN_UNPIN op pin)
    have "fresh_range alloc asma st" "names_pages pin asma st" using allowed ASHMEM_PIN_UNPIN by auto
    then obtain r st' where "ashmem_pin_unpin alloc op pin asma st = Some (r, st')"
      "call_effect (Ash_ioctl personality alloc (ASHMEM_PIN_UNPIN op pin) asma) st r st'"
      by (rule pin_unpin_effect [OF ok area])
    then show ?thesis using that ASHMEM_PIN_UNPIN by (simp add: ashmem_ioctl_def area)
  next
    case ASHMEM_PURGE_ALL_CACHES
    then show ?thesis using that purge_all_effect [OF ok area] by blast
  next
    case ASHMEM_OTHER
    then show ?thesis using that same by (simp add: ashmem_ioctl_def area pin_request_def)
  qed
qed

lemma ashmem_call_effect:
  assumes ok: "ashmem_ok st" and allowed: "ashmem_allowed c (st, k)"
  obtains r st' k' where "exec_ashmem_call kc c (st, k) = Some (r, st', k')" "call_effect c st r st'"
proof (cases c)
  case (Ash_open alloc)
  have "\<forall>a. alloc = Some a \<longrightarrow> as_areas st a = None" using allowed Ash_open by (auto split: option.splits)
  from open_effect [OF ok this] show ?thesis using that Ash_open by (cases "ashmem_open alloc st") simp
next
  case (Ash_release asma)
  then obtain area where "as_areas st asma = Some area" using allowed by auto
  from release_effect [OF ok this, of "Inr 0"] show ?thesis using that Ash_release by fastforce
next
  case (Ash_read read asma)
  then obtain area where area: "as_areas st asma = Some area" using allowed by auto
  have "call_effect c st r st" for r using ok Ash_read by (intro effect_same) (simp_all add: pin_request_def)
  then show ?thesis using that area Ash_read by (simp add: ashmem_read_def)
next
  case (Ash_mmap file_setup vm_flags asma)
  then obtain area where "as_areas st asma = Some area" using allowed by auto
  then show ?thesis using mmap_effect [OF ok, of asma area file_setup vm_flags] that Ash_mmap by fastforce
next
  case (Ash_ioctl personality alloc cmd asma)
  then show ?thesis using ioctl_effect [OF ok, of personality alloc cmd asma k kc] allowed that by auto
next
  case (Ash_shrink nr gfp_mask)
  obtain n st' log where "ashmem_shrink nr gfp_mask st = Some (n, st')" "ashmem_ok st'" "purged_state st log st'"
    by (rule shrink_effect [OF ok])
  then show ?thesis using that Ash_shrink effect_purged [of st' st log c] by (simp add: pin_request_def)
qed

section \<open>The device under any sequence of calls\<close>

definition ashmem_start :: ashmem where
  "ashmem_start = \<lparr>as_areas = (\<lambda>_. None), as_lru = \<lparr>lru_list = [], lru_count = 0\<rparr>, as_truncated = []\<rparr>"

lemma ashmem_start_ok: "ashmem_ok ashmem_start"
  by (simp add: ashmem_ok_def ashmem_start_def lru_set_def area_ranges_def)

interpretation ashdev: device_calls "exec_ashmem_call kc" ashmem_allowed "\<lambda>(st, k). ashmem_ok st" for kc
proof
  fix s c assume a: "case s of (st, k) \<Rightarrow> ashmem_ok st" "ashmem_allowed c s"
  obtain st k where s: "s = (st, k)" by (cases s)
  obtain r st' k' where "exec_ashmem_call kc c (st, k) = Some (r, st', k')" "call_effect c st r st'"
    using ashmem_call_effect [of st c k kc] a s by auto
  then show "\<exists>r s'. exec_ashmem_call kc c s = Some (r, s') \<and> (case s' of (st, k) \<Rightarrow> ashmem_ok st)"
    using s by (auto simp: call_effect_def)
qed


section \<open>Purged pages are reported\<close>

text \<open>The truncations that a call adds.\<close>

definition new_truncations :: "ashmem \<Rightarrow> ashmem \<Rightarrow> (nat \<times> int \<times> int) list" where
  "new_truncations st st' = drop (length (as_truncated st)) (as_truncated st')"

text \<open>The pages of each area whose contents are lost and that were not pinned since.\<close>

definition lost_after :: "ashmem_call \<Rightarrow> ashmem \<Rightarrow> ashmem \<Rightarrow> (nat \<Rightarrow> u32 set) \<Rightarrow> nat \<Rightarrow> u32 set" where
  "lost_after c st st' lost b =
     (if as_areas st' b = None then {} else lost b - pinned_pages c st b \<union> truncated_pages (new_truncations st st') b)"

fun watch ::
  "kconfig \<Rightarrow> ashmem_call \<Rightarrow> (ashmem \<times> kernel) \<times> (nat \<Rightarrow> u32 set) \<Rightarrow> (int ret \<times> (ashmem \<times> kernel) \<times> (nat \<Rightarrow> u32 set)) option" where
  "watch kc c ((st, k), lost) =
     map_option (\<lambda>(r, st', k'). (r, (st', k'), lost_after c st st' lost)) (exec_ashmem_call kc c (st, k))"

text \<open>Only unpinned pages are truncated, and a pin request for a page that is lost says so.\<close>

fun loss_reported ::
  "ashmem_call \<Rightarrow> (ashmem \<times> kernel) \<times> (nat \<Rightarrow> u32 set) \<Rightarrow> int ret \<Rightarrow> (ashmem \<times> kernel) \<times> (nat \<Rightarrow> u32 set) \<Rightarrow> bool" where
  "loss_reported c ((st, k), lost) r ((st', k'), lost') \<longleftrightarrow>
     (\<forall>b. truncated_pages (new_truncations st st') b \<subseteq> unpinned (area_ranges st b)) \<and>
     (case pin_request c st of
        None \<Rightarrow> True
      | Some (asma, s, e) \<Rightarrow> lost asma \<inter> {s..e} \<noteq> {} \<longrightarrow> r = Inr (uint ASHMEM_WAS_PURGED))"

fun watch_inv :: "(ashmem \<times> kernel) \<times> (nat \<Rightarrow> u32 set) \<Rightarrow> bool" where
  "watch_inv ((st, k), lost) \<longleftrightarrow> ashmem_ok st \<and> (\<forall>b. lost b \<subseteq> flagged (area_ranges st b))"

definition watch_allowed :: "ashmem_call \<Rightarrow> (ashmem \<times> kernel) \<times> (nat \<Rightarrow> u32 set) \<Rightarrow> bool" where
  "watch_allowed c s \<longleftrightarrow> ashmem_allowed c (fst s) \<and> call_memory c"

lemma watch_step:
  assumes "watch_inv ((st, k), lost)" "ashmem_allowed c (st, k)" "call_memory c"
  obtains r st' k' where "watch kc c ((st, k), lost) = Some (r, (st', k'), lost_after c st st' lost)"
    "watch_inv ((st', k'), lost_after c st st' lost)" "loss_reported c ((st, k), lost) r ((st', k'), lost_after c st st' lost)"
proof -
  have ok: "ashmem_ok st" and sub: "\<And>b. lost b \<subseteq> flagged (area_ranges st b)" using assms(1) by auto
  obtain r st' k' where eq: "exec_ashmem_call kc c (st, k) = Some (r, st', k')" and eff: "call_effect c st r st'"
    by (rule ashmem_call_effect [OF ok assms(2)])
  obtain log where log: "as_truncated st' = as_truncated st @ log" "\<And>b. truncated_pages log b \<subseteq> unpinned (area_ranges st b)"
    "\<And>b. as_areas st' b \<noteq> None \<Longrightarrow> flagged (area_ranges st b) - pinned_pages c st b \<union> truncated_pages log b \<subseteq> flagged (area_ranges st' b)"
    using eff assms(3) unfolding call_effect_def by blast
  have new: "new_truncations st st' = log" using log(1) by (simp add: new_truncations_def)
  have "lost_after c st st' lost b \<subseteq> flagged (area_ranges st' b)" for b
    using sub [of b] log(3) [of b] unfolding lost_after_def new by auto
  then have inv: "watch_inv ((st', k'), lost_after c st st' lost)" using eff by (simp add: call_effect_def)
  have "r = Inr (uint ASHMEM_WAS_PURGED)" if "pin_request c st = Some (asma, s, e)" "lost asma \<inter> {s..e} \<noteq> {}" for asma s e
    using eff that sub [of asma] by (auto simp: call_effect_def purge_hit_def)
  then have "loss_reported c ((st, k), lost) r ((st', k'), lost_after c st st' lost)"
    using log(2) by (auto simp: new split: option.splits)
  then show ?thesis using that inv eq by simp
qed

lemma watch_keeps:
  assumes "watch_inv s" "watch_allowed c s"
  shows "\<exists>r s'. watch kc c s = Some (r, s') \<and> watch_inv s' \<and> loss_reported c s r s'"
proof -
  obtain st k lost where s: "s = ((st, k), lost)" by (cases s) auto
  obtain r st' k' where "watch kc c ((st, k), lost) = Some (r, (st', k'), lost_after c st st' lost)"
    "watch_inv ((st', k'), lost_after c st st' lost)" "loss_reported c ((st, k), lost) r ((st', k'), lost_after c st st' lost)"
    using watch_step [of st k lost c kc] assms unfolding s watch_allowed_def by auto
  then show ?thesis unfolding s by blast
qed

interpretation ashwatch: checked_calls "watch kc" watch_allowed watch_inv loss_reported for kc
proof
  fix s c assume a: "watch_inv s" "watch_allowed c s"
  from watch_keeps [OF a, of kc] show "\<exists>r s'. watch kc c s = Some (r, s') \<and> watch_inv s'" by blast
next
  fix s c r s' assume a: "watch_inv s" "watch_allowed c s" "watch kc c s = Some (r, s')"
  from watch_keeps [OF a(1,2), of kc] show "loss_reported c s r s'" using a(3) by (metis option.inject prod.inject)
qed

lemma watch_allowed_run:
  "all_allowed (watch kc) watch_allowed calls (s, lost) \<longleftrightarrow>
     all_allowed (exec_ashmem_call kc) (\<lambda>c s. ashmem_allowed c s \<and> call_memory c) calls s"
proof (induction calls arbitrary: s lost)
  case (Cons c calls)
  obtain st k where "s = (st, k)" by (cases s)
  then show ?case using Cons.IH by (auto simp: watch_allowed_def split: option.splits)
qed simp

text \<open>
  C6. Losing memory is never silent. While the allocations of ranges succeed, no sequence of calls
  truncates a page that is pinned, and whenever a request pins a page whose contents were truncated
  since it was last pinned, however the ranges around it were split and merged meanwhile, the request
  returns \<open>ASHMEM_WAS_PURGED\<close>.
\<close>

theorem purge_never_silent:
  assumes "ashmem_ok st"
    and "all_allowed (exec_ashmem_call kc) (\<lambda>c s. ashmem_allowed c s \<and> call_memory c) calls (st, k)"
  shows "all_good (watch kc) loss_reported calls ((st, k), \<lambda>_. {})"
  using ashwatch.run_good [of "((st, k), \<lambda>_. {})" kc calls] assms by (simp add: watch_allowed_run)

section \<open>Requests and the shrinker\<close>



section \<open>Concrete runs\<close>

text \<open>An area of four pages is unpinned, purged by the shrinker, and one page is pinned again.\<close>

definition ashmem_session :: "ashmem_call list" where
  "ashmem_session =
     [Ash_open (Some 1), Ash_ioctl 0 None (ASHMEM_SET_SIZE 0x3800) 1, Ash_mmap (\<lambda>_ _ _. Inr 7) 3 1,
      Ash_ioctl 0 (Some 100) (ASHMEM_PIN_UNPIN ASHMEM_UNPIN (Some (0, 0))) 1, Ash_shrink 1 GFP_KERNEL,
      Ash_ioctl 0 (Some 101) (ASHMEM_PIN_UNPIN ASHMEM_PIN (Some (0x1000, 0x1000))) 1, Ash_release 1]"

lemma ashmem_session_allowed:
  "all_allowed (exec_ashmem_call victory_config) (\<lambda>c s. ashmem_allowed c s \<and> call_memory c) ashmem_session
     (ashmem_start, running (user_cred 2000))"
  by code_simp

lemma ashmem_session_results:
  "map_option fst (run_device (exec_ashmem_call victory_config) ashmem_session (ashmem_start, running (user_cred 2000))) =
     Some [Inr 0, Inr 0, Inr 0, Inr 0, Inr 0, Inr 1, Inr 0]"
  by code_simp

lemma all_allowed_mono:
  "all_allowed exec allowed calls s \<Longrightarrow> (\<And>c s. allowed c s \<Longrightarrow> allowed' c s) \<Longrightarrow> all_allowed exec allowed' calls s"
  by (induction calls arbitrary: s) (auto split: option.splits)


theorem purge_never_silent_witness:
  "all_good (watch victory_config) loss_reported ashmem_session ((ashmem_start, running (user_cred 2000)), \<lambda>_. {}) \<and>
   map_option fst (run_device (exec_ashmem_call victory_config) ashmem_session (ashmem_start, running (user_cred 2000))) =
     Some [Inr 0, Inr 0, Inr 0, Inr 0, Inr 0, Inr 1, Inr 0]"
  using purge_never_silent [OF ashmem_start_ok ashmem_session_allowed] ashmem_session_results by (rule conjI)

text \<open>An area of four pages with the first page and, purged, the last two pages unpinned.\<close>

definition sample_area :: ashmem_area where
  "sample_area =
     \<lparr>as_name = ASHMEM_NAME_PREFIX @ replicate ASHMEM_NAME_LEN 0,
      unpinned_list = [\<lparr>ar_addr = 100, pgstart = 2, pgend = 3, purged = 1\<rparr>, \<lparr>ar_addr = 101, pgstart = 0, pgend = 0, purged = 0\<rparr>],
      as_file = Some 7, as_size = 0x4000, prot_mask = PROT_MASK\<rparr>"

definition sample_ashmem :: ashmem where
  "sample_ashmem = \<lparr>as_areas = [1 \<mapsto> sample_area], as_lru = \<lparr>lru_list = [(1, 101)], lru_count = 1\<rparr>, as_truncated = []\<rparr>"

lemma sample_ranges: "area_ranges sample_ashmem 1 = unpinned_list sample_area"
  by (simp add: area_ranges_def sample_ashmem_def)

lemma sample_ashmem_ok: "ashmem_ok sample_ashmem"
proof -
  have "name_ok (as_name sample_area)"
    by (simp add: name_ok_def sample_area_def ASHMEM_FULL_NAME_LEN_def ASHMEM_NAME_LEN_def ASHMEM_NAME_PREFIX_LEN_def nth_append)
  moreover have "area_pages sample_area = 4" by code_simp
  moreover have "x < 4" if "x \<le> 3" for x :: u32 using that by (simp add: word_le_nat_alt word_less_nat_alt)
  ultimately have "area_ok sample_area"
    by (auto simp: area_ok_def sample_area_def ranges_sorted_def range_ok_def unpinned_def pages_def word_less_nat_alt word_le_nat_alt unat_minus_1_32)
  then show ?thesis
    by (auto simp: ashmem_ok_def sample_ashmem_def lru_set_def area_ranges_def sample_area_def range_size_def split: if_splits)
qed



section \<open>Names and protections\<close>

text \<open>A name of up to 255 bytes is read back as it was set.\<close>

lemma set_name_get_name:
  assumes "area_ok area" "as_file area = None" "length bytes = ASHMEM_NAME_LEN"
    and "bytes = name @ 0 # pad" "0 \<notin> set name" "name \<noteq> []"
  shows "get_name False (snd (set_name bytes False area)) = (Inr 0, name @ [0])"
proof -
  have nm: "length (take ASHMEM_NAME_PREFIX_LEN (as_name area)) = ASHMEM_NAME_PREFIX_LEN"
    using assms(1) by (simp add: area_ok_def name_ok_def ASHMEM_NAME_PREFIX_LEN_def)
  have last: "ASHMEM_FULL_NAME_LEN - 1 = ASHMEM_NAME_PREFIX_LEN + (ASHMEM_NAME_LEN - 1)"
    by (simp add: ASHMEM_FULL_NAME_LEN_def ASHMEM_NAME_LEN_def)
  have len: "ASHMEM_NAME_LEN - 1 = length name + length pad" using assms(3,4) by simp
  obtain pad' where b: "bytes[ASHMEM_NAME_LEN - 1 := 0] = name @ 0 # pad'"
    unfolding len assms(4) by (cases "length pad") (simp_all add: list_update_append)
  have eq: "(take ASHMEM_NAME_PREFIX_LEN (as_name area) @ bytes)[ASHMEM_FULL_NAME_LEN - 1 := 0] =
      take ASHMEM_NAME_PREFIX_LEN (as_name area) @ (name @ 0 # pad')"
    unfolding last b [symmetric] using nm by (simp add: list_update_append)
  obtain x xs where n: "name = x # xs" "x \<noteq> 0" using assms(5,6) by (cases name) auto
  have "takeWhile (\<lambda>b. b \<noteq> 0) (name @ 0 # pad') = name"
    using assms(5) by (simp add: takeWhile_append2 takeWhile_tail) (metis takeWhile_eq_all_conv)
  moreover have "snd (set_name bytes False area) =
      area\<lparr>as_name := take ASHMEM_NAME_PREFIX_LEN (as_name area) @ (name @ 0 # pad')\<rparr>"
    using assms(2) unfolding set_name_def eq by simp
  ultimately show ?thesis using nm n by (simp add: get_name_def nth_append)
qed

text \<open>
  Without the personality flag \<open>READ_IMPLIES_EXEC\<close> a process can only take protection bits away, and a
  mapping has no protection outside the mask.
\<close>

lemma set_prot_mask_removes:
  assumes "set_prot_mask personality prot area = (Inr r, area')" "personality AND READ_IMPLIES_EXEC = 0"
  shows "prot_mask area' AND NOT (prot_mask area) = 0 \<and> prot_mask area' = prot"
proof -
  have m: "prot_mask area AND prot = prot" "prot_mask area' = prot" using assms by (auto simp: set_prot_mask_def Let_def split: if_splits)
  have "prot AND NOT (prot_mask area) = 0"
    by (subst m(1) [symmetric]) (simp add: and.assoc and.left_commute)
  then show ?thesis using m(2) by simp
qed

lemma ashmem_mmap_confined:
  assumes "ashmem_mmap file_setup vm_flags asma st = Some (Inr f, st')" "as_areas st asma = Some area"
  shows "vm_flags AND PROT_MASK AND NOT (prot_mask area) = 0"
  using assms by (auto simp: ashmem_mmap_def and.assoc and.commute and.left_commute split: if_splits)

section \<open>Limits of the code\<close>

text \<open>With the flag, a mask without execution gains it.\<close>

lemma set_prot_mask_adds_exec:
  "prot_mask (snd (set_prot_mask READ_IMPLIES_EXEC PROT_READ (sample_area\<lparr>prot_mask := PROT_READ\<rparr>))) AND PROT_EXEC \<noteq> 0"
  by code_simp

text \<open>
  When the upper part of a purged range cannot be allocated, pinning its middle makes the purged pages
  of that part pinned: a later request for them finds nothing and reports that they were not purged.
\<close>

lemma pin_without_memory_hides_purge:
  "case ashmem_pin 1 None 1 1 [\<lparr>ar_addr = 100, pgstart = 0, pgend = 3, purged = 1\<rparr>] \<lparr>lru_list = [], lru_count = 0\<rparr> of
     (ls, ret, l) \<Rightarrow> ret = ASHMEM_WAS_PURGED \<and> fst (snd (ashmem_pin 1 None 2 3 ls l)) = ASHMEM_NOT_PURGED"
  by code_simp

text \<open>When the merged range cannot be allocated, unpinning fails and the purged range that it overlaps is gone.\<close>

lemma unpin_without_memory_forgets_purge:
  "ashmem_unpin 1 None 1 4 [\<lparr>ar_addr = 100, pgstart = 0, pgend = 3, purged = 1\<rparr>] \<lparr>lru_list = [], lru_count = 0\<rparr> =
     (Inl ENOMEM, [], \<lparr>lru_list = [], lru_count = 0\<rparr>)"
  by code_simp

text \<open>
  A request for the rest of an area at its very end has no pages. Each such unpin request adds an empty
  range, however many there are.
\<close>

lemma empty_requests_accumulate:
  "pin_pages sample_area (Some (0x4000, 0)) = Inr (4, 3) \<and>
   fst (ashmem_unpin 1 (Some 102) 4 3 [] \<lparr>lru_list = [], lru_count = 0\<rparr>) = Inr () \<and>
   length (fst (snd (ashmem_unpin 1 (Some 102) 4 3 [] \<lparr>lru_list = [], lru_count = 0\<rparr>))) = 1 \<and>
   length (fst (snd (ashmem_unpin 1 (Some 103) 4 3 [\<lparr>ar_addr = 102, pgstart = 4, pgend = 3, purged = 0\<rparr>]
     \<lparr>lru_list = [(1, 102)], lru_count = 0\<rparr>))) = 2"
  by code_simp

end
