(* ===== verification/Spec2Isabelle.thy ===== *)
theory Spec2Isabelle
  imports Setid Tmpfs_Files Lock_Calls Resource_Samples Ashmem_Calls
begin

text \<open>
  A verification library for the Genocide kernel, the Linux 2.6.32.9 of the Samsung Epic 4G. All paths
  below are relative to src/Kernel. Where the configuration matters it is that of the board,
  arch/arm/configs/victory_03_defconfig; the options that credentials depend on are the record
  \<open>kconfig\<close>, and most theorems hold for every value of it.

  \<^bold>\<open>The parts of the program and how they meet.\<close> A process carries credentials: user and group ids,
  supplementary groups, capability sets. System calls change them, and execve computes new ones. The
  capability module decides what a capability allows. Access to a file is decided from the credentials,
  the mode of the inode and its access control list; tmpfs keeps such lists in memory. Locks on files
  are handed out by lists of their own, with waiting and deadlock detection. Ranges of addresses are
  claimed in trees of resources. Anonymous shared memory gives Android processes memory that the kernel
  may take back; its control calls check a capability of the caller, which is where it meets the
  credentials (\<open>purge_all_needs_admin\<close> below).

  \<^bold>\<open>How code becomes definitions.\<close> A C function is one function of the same name. A structure is a
  record, an enumeration a datatype, an integer of fixed width a word or, where the C code relies on
  signed arithmetic, an integer with the wrap-around written out (\<open>wrap_s\<close>). A result that is a value or
  \<open>-E...\<close> is a sum, with the error on the left (\<open>ret\<close>); an operation on the state of the current process
  is a \<open>kop\<close>. The outcome of an allocation and of copies from user memory is an argument, so the theorems
  hold for every pattern of failures. A pointer to an element of a list or tree is an address or a path;
  \<open>None\<close> stands for following a pointer that is not there, and for a loop that does not end. Operations
  that the source runs under a lock are one step; interleaving is a list of calls, or of events for
  calls that sleep.

  \<^bold>\<open>Theories and sources.\<close>
  \<^item> Kernel_Prelude: error numbers, machine integers, masks, 32-bit addresses, file modes
    (include/linux/stat.h, include/linux/kernel.h), generic lemmas.
  \<^item> Capability_Sets: include/linux/capability.h and include/linux/securebits.h. The bit vectors are
    shown to be sets of capabilities, by the interpretation of the locale \<open>capability_algebra\<close>.
  \<^item> Supplementary_Groups: kernel/groups.c. The blocked array implements an indexed array (locale
    \<open>indexed_array\<close>); the Shell sort sorts, the search finds members within a window of ids.
  \<^item> Credentials: include/linux/cred.h, kernel/cred.c, \<open>capable\<close> of kernel/capability.c, the group calls.
  \<^item> Commoncap: security/commoncap.c and the credentials part of fs/exec.c. Bounds on the credentials
    of execve, with and without tracing; what prctl can change.
  \<^item> Setid: the set*id calls of kernel/sys.c, capget and capset of kernel/capability.c. Every call meets
    the contract \<open>credential_call\<close>, and so does every sequence: privilege never grows, a dropped user
    id does not come back, process counts stay exact, a failed call changes nothing.
  \<^item> Posix_Acl: fs/posix_acl.c, fs/xattr_acl.c and their headers. Validity, the access decision,
    masquerading as mode bits and the attribute format, each against a direct specification.
  \<^item> Inode, Inode_Access: the parts of include/linux/fs.h that access control reads, fs/namei.c
    (permission checks), fs/attr.c, and the callers in fs/open.c, mm/filemap.c and mm/truncate.c.
  \<^item> Generic_Acl, Tmpfs_Files: fs/generic_acl.c over the contract \<open>acl_store\<close>, mm/shmem_acl.c that
    implements it, the attribute callback of mm/shmem.c, and sequences of calls on a tmpfs file.
  \<^item> File_Locks holds the definitions for fs/locks.c. Lock_Coverage has the reference for POSIX locks,
    Posix_Locks shows that the loop over the list computes it, Lock_Table that the list refines a table
    from owners and bytes to locks; Flock_Locks does this for flock. Lock_Waiting treats deadlock
    detection and closing, Lock_Calls the system calls and the end of waiting.
  \<^item> Resource_Tree holds the definitions for kernel/resource.c. Resource_Claims treats requests, regions
    and insertion, Resource_Space allocation, reservation, adjustment and sequences of calls (contract
    \<open>tree_call\<close>), Resource_Walk the loops that read a tree; Resource_Samples has a sample tree.
  \<^item> Ashmem holds the definitions for mm/ashmem.c. Ashmem_Ranges shows what pinning and unpinning do
    to the pages of one area, Ashmem_State treats the invariant of all areas and the LRU list and the
    shrinker, Ashmem_Calls sequences of calls (contracts \<open>device_calls\<close> and \<open>checked_calls\<close>).

  \<^bold>\<open>Loops and bounds.\<close> There is no fuel. Loops over lists are structural recursion; the sort and search
  of groups, insertion and regions of resources, and the restarts of unpinning are functions with a
  termination proof. The deadlock check has the bound of the source, eleven steps. Three loops over
  resources may not end and are partial functions: \<open>reserve_region_terminates\<close> and
  \<open>walk_system_ram_range_exact\<close> say exactly when they do, and the walk \<open>resource_scan\<close> returns on every
  well-formed tree. A call that sleeps returns when its list of events lets it
  (\<open>blocking_request_returns\<close>).

  \<^bold>\<open>Where the code falls short.\<close> Some lemmas show limits of the code and are kept apart in sections of
  that name: the search for a group misses ids that are far apart, flock can race with itself, long
  cycles of waiting owners are not found, resources can be adjusted to nothing or allocated below the
  minimum, and anonymous shared memory forgets purged pages when memory for its own ranges runs out.

  \<^bold>\<open>Not modelled.\<close> Reference counts and the freeing of memory they control, except where a list of
  live objects is the point. Keyrings, user namespaces and the security modules other than commoncap,
  which the configuration leaves out. In fs/locks.c leases, the callbacks of lock managers and
  /proc/locks; in kernel/resource.c the output of /proc/iomem, the regions managed by devices, and boot
  options; in mm/ashmem.c the mutex and the registration of the driver; in mm/shmem.c pages, swap and
  directories; in fs/namei.c path lookup. The scheduler, signals, timers, interrupts, page tables and
  page reclaim, networking, drivers, the file systems on disk, the architecture code and the boot and
  build files are not modelled at all: what they do is concurrency, timing, or access to hardware, which
  a functional model would have to make up.
\<close>

section \<open>Credentials and shared memory\<close>

text \<open>
  C24. A process without \<open>CAP_SYS_ADMIN\<close> among its permitted capabilities cannot purge the shared memory
  of others by request: whatever credential calls it makes first, the request is refused and neither the
  areas nor the process change.
\<close>

theorem purge_all_needs_admin:
  assumes "overriding (current k) = None" "cred_ok (current_cred k)"
    and "CAP_SYS_ADMIN \<notin> caps (cap_permitted (current_cred k))" "as_areas st asma = Some area"
  shows "ashmem_ioctl kc personality alloc ASHMEM_PURGE_ALL_CACHES asma st (run_calls kc calls k) =
    Some (Inl EPERM, st, run_calls kc calls k)"
proof -
  let ?k = "run_calls kc calls k"
  have "confined (current_cred k) (current_cred ?k)" by (rule calls.call_confined [OF assms(1)])
  then have "caps (cap_effective (current_cred ?k)) \<subseteq> caps (cap_permitted (current_cred k))"
    using assms(2) by (auto simp: confined_def cred_ok_def kcap.issubset_members)
  then have "CAP_SYS_ADMIN \<notin> caps (cap_effective (current_cred ?k))" using assms(3) by blast
  then have "capable kc CAP_SYS_ADMIN ?k = (False, ?k)"
    by (simp add: capable_def cap_capable_def cap_valid_def cap_raised_iff CAP_SYS_ADMIN_def CAP_NET_RAW_def CAP_NET_ADMIN_def CAP_LAST_CAP_def)
  then show ?thesis using assms(4) by (simp add: ashmem_ioctl_def)
qed

theorem purge_all_needs_admin_witness:
  "ashmem_ioctl victory_config 0 None ASHMEM_PURGE_ALL_CACHES 1 sample_ashmem
     (run_calls victory_config [(alloc_ok, Setuid 0)] (running (user_cred 2000))) =
   Some (Inl EPERM, sample_ashmem, run_calls victory_config [(alloc_ok, Setuid 0)] (running (user_cred 2000)))"
proof (rule purge_all_needs_admin)
  show "overriding (current (running (user_cred 2000))) = None" "cred_ok (current_cred (running (user_cred 2000)))"
    by code_simp+
  show "CAP_SYS_ADMIN \<notin> caps (cap_permitted (current_cred (running (user_cred 2000))))"
    by (simp add: running_def user_cred_def current_cred_def)
  show "as_areas sample_ashmem 1 = Some sample_area" by (simp add: sample_ashmem_def)
qed

end
